(* ===== verification/Prelude.thy ===== *)
theory Prelude
  imports Main "HOL-Library.Word" "HOL-Library.Multiset"
begin

unbundle bit_operations_syntax

text \<open>
  Shared vocabulary of the development: the integer types of the sources, the
  arithmetic of ring-buffer masks, half-open integer ranges, and a generic notion of a
  transition system with reachable states. Every concurrent component (the
  work-stealing deque, the thread pool, the cancellation helper, the I/O loop) is a
  step function \<open>act \<Rightarrow> state \<Rightarrow> state option\<close> in which one action is one atomic access of
  the code, and \<open>None\<close> means that the action is not enabled in that state.
\<close>

section \<open>Integer types\<close>

text \<open>
  \<open>std::int64_t\<close> values are modelled as \<open>int\<close>; signed overflow is undefined behaviour in
  C++, so instead of a wrap-around the components prove that every value they compute
  satisfies \<open>int64\<close>. Unsigned and 32-bit values whose wrap-around is visible are words.
\<close>

definition int64 :: "int \<Rightarrow> bool" where
  "int64 x \<longleftrightarrow> - (2 ^ 63) \<le> x \<and> x < 2 ^ 63"

type_synonym u8 = "8 word"
type_synonym u32 = "32 word"
type_synonym u64 = "64 word"

named_theorems step_defs \<open>unfolding rules of the step functions\<close>
named_theorems inv_defs \<open>unfolding rules of the invariants\<close>

section \<open>Power-of-two masks\<close>

text \<open>The test of the deque constructor: a positive number with one bit set.\<close>

definition pow2 :: "int \<Rightarrow> bool" where
  "pow2 c \<longleftrightarrow> (\<exists>k. c = 2 ^ k)"

lemma pow2_pos: "pow2 c \<Longrightarrow> 1 \<le> c"
  by (auto simp: pow2_def)

lemma pow2_double [intro]: "pow2 c \<Longrightarrow> pow2 (c * 2)"
  unfolding pow2_def by (metis power_Suc2)

lemma pow2_numeral [simp]: "pow2 1" "pow2 2" "pow2 4" "pow2 1024"
proof -
  have "pow2 (2 ^ 0)" "pow2 (2 ^ 1)" "pow2 (2 ^ 2)" "pow2 (2 ^ 10)"
    unfolding pow2_def by blast+
  then show "pow2 1" "pow2 2" "pow2 4" "pow2 1024" by simp_all
qed

lemma and_mask_eq_mod: "pow2 c \<Longrightarrow> i AND (c - 1) = i mod (c :: int)"
  by (auto simp: pow2_def take_bit_eq_mod simp flip: mask_eq_exp_minus_1 take_bit_eq_mask)

text \<open>Two indices closer than the modulus fall into different slots.\<close>

lemma mod_neq_if_close:
  fixes i j c :: int
  assumes "i \<noteq> j" and "i - j < c" and "j - i < c"
  shows "i mod c \<noteq> j mod c"
proof
  assume "i mod c = j mod c"
  then have "c dvd i - j" by (simp add: mod_eq_dvd_iff)
  with assms(1) have "\<bar>c\<bar> \<le> \<bar>i - j\<bar>" by (intro dvd_imp_le_int) auto
  with assms show False by linarith
qed

section \<open>Integer ranges\<close>

text \<open>The indices \<open>a, a + 1, \<dots>, b - 1\<close> visited by \<open>for (i = a; i < b; ++i)\<close>.\<close>

abbreviation irange :: "int \<Rightarrow> int \<Rightarrow> int list" where
  "irange a b \<equiv> [a..b - 1]"

lemma irange_empty: "b \<le> a \<Longrightarrow> irange a b = []"
  by simp

lemma irange_snoc: "a \<le> b \<Longrightarrow> [a..b] = irange a b @ [b]"
  by (rule upto_rec2)

lemma irange_Cons: "a < b \<Longrightarrow> irange a b = a # irange (a + 1) b"
  by (simp add: upto_rec1)

lemma length_irange: "length (irange a b) = nat (b - a)"
  by simp

section \<open>Optional results\<close>

text \<open>A pointer result of the sources (\<open>nullptr\<close> or a task) as a multiset of tasks.\<close>

primrec opt_mset :: "'a option \<Rightarrow> 'a multiset" where
  "opt_mset None = {#}"
| "opt_mset (Some x) = {#x#}"

section \<open>Updating one entry of a list\<close>

lemma nth_update_cases: "xs[i := y] ! j = (if i = j \<and> j < length xs then y else xs ! j)"
  by (cases "i = j") (simp_all add: not_less list_update_beyond)

lemma sum_list_map_update:
  fixes f :: "'b \<Rightarrow> nat"
  shows "i < length xs \<Longrightarrow> sum_list (map f (xs[i := y])) + f (xs ! i) = sum_list (map f xs) + f y"
  by (induction xs arbitrary: i) (auto split: nat.splits)

lemma filter_length_update:
  assumes "i < length xs"
  shows "int (length (filter P (xs[i := y])))
    = int (length (filter P xs)) - of_bool (P (xs ! i)) + of_bool (P y)"
proof -
  have "xs = take i xs @ xs ! i # drop (Suc i) xs" by (rule id_take_nth_drop [OF assms])
  then have "length (filter P xs) = length (filter P (take i xs @ xs ! i # drop (Suc i) xs))" by simp
  then show ?thesis using assms by (simp add: upd_conv_take_nth_drop)
qed

lemma mset_concat_update:
  assumes "i < length xs"
  shows "mset (concat (map f (xs[i := y]))) + mset (f (xs ! i)) = mset (concat (map f xs)) + mset (f y)"
proof -
  have "xs = take i xs @ xs ! i # drop (Suc i) xs" by (rule id_take_nth_drop [OF assms])
  then have "mset (concat (map f xs)) = mset (concat (map f (take i xs @ xs ! i # drop (Suc i) xs)))"
    by simp
  then show ?thesis using assms by (simp add: upd_conv_take_nth_drop)
qed

section \<open>Memory orders\<close>

text \<open>
  The order of a store, on hardware with store buffers: a relaxed or release store stays in the
  buffer of its thread for a while, a sequentially consistent one drains it.
\<close>

datatype mem_order = Release | SeqCst

section \<open>Transition systems\<close>

inductive reach :: "'s \<Rightarrow> ('a \<Rightarrow> 's \<Rightarrow> 's option) \<Rightarrow> 's \<Rightarrow> bool"
  for init :: 's and step :: "'a \<Rightarrow> 's \<Rightarrow> 's option" where
  reach_init: "reach init step init"
| reach_step: "reach init step s \<Longrightarrow> step a s = Some t \<Longrightarrow> reach init step t"

text \<open>A schedule is a list of actions; \<open>exec\<close> runs it, and fails if an action is disabled.\<close>

fun exec :: "('a \<Rightarrow> 's \<Rightarrow> 's option) \<Rightarrow> 'a list \<Rightarrow> 's \<Rightarrow> 's option" where
  "exec step [] s = Some s"
| "exec step (a # as) s = (case step a s of None \<Rightarrow> None | Some t \<Rightarrow> exec step as t)"

lemma exec_append:
  "exec step (as @ bs) s = (case exec step as s of None \<Rightarrow> None | Some t \<Rightarrow> exec step bs t)"
  by (induction as arbitrary: s) (auto split: option.splits)

lemma reach_exec: "reach init step s \<Longrightarrow> exec step as s = Some t \<Longrightarrow> reach init step t"
  by (induction as arbitrary: s) (auto split: option.splits intro: reach_step)

lemma exec_reach: "exec step as init = Some t \<Longrightarrow> reach init step t"
  by (rule reach_exec [OF reach_init])

text \<open>A rank that every step of a set of actions decreases bounds the number of such steps.\<close>

lemma exec_rank:
  fixes rank :: "'s \<Rightarrow> nat"
  assumes dec: "\<And>a s t. a \<in> A \<Longrightarrow> I s \<Longrightarrow> step a s = Some t \<Longrightarrow> I t \<and> rank t < rank s"
  shows "I s \<Longrightarrow> set as \<subseteq> A \<Longrightarrow> exec step as s = Some t \<Longrightarrow> I t \<and> length as + rank t \<le> rank s"
proof (induction as arbitrary: s)
  case (Cons a as)
  then obtain u where "step a s = Some u" "exec step as u = Some t"
    by (auto split: option.splits)
  then show ?case using Cons dec [of a s u] by fastforce
qed simp

text \<open>
  An inductive invariant of a system. Components interpret this locale on their own step
  function, and then use \<open>inv_reach\<close>.
\<close>

locale invariant_system =
  fixes init :: 's
    and step :: "'a \<Rightarrow> 's \<Rightarrow> 's option"
    and inv :: "'s \<Rightarrow> bool"
  assumes inv_init: "inv init"
    and inv_step: "inv s \<Longrightarrow> step a s = Some t \<Longrightarrow> inv t"
begin

lemma inv_reach: "reach init step s \<Longrightarrow> inv s"
  by (induction rule: reach.induct) (auto intro: inv_init inv_step)

lemma inv_exec: "inv s \<Longrightarrow> exec step as s = Some t \<Longrightarrow> inv t"
  by (induction as arbitrary: s) (auto split: option.splits intro: inv_step)

end

text \<open>
  A system that implements another one: a relation that is kept when every step is answered by no
  step or one step of the other system, in the states where the invariant holds.
\<close>

locale simulation = invariant_system init step inv
  for init :: 's and step :: "'a \<Rightarrow> 's \<Rightarrow> 's option" and inv +
  fixes rel :: "'s \<Rightarrow> 't \<Rightarrow> bool"
    and ainit :: 't
    and astep :: "'b \<Rightarrow> 't \<Rightarrow> 't option"
  assumes rel_init: "rel init ainit"
    and rel_step: "inv s \<Longrightarrow> rel s x \<Longrightarrow> step a s = Some t \<Longrightarrow> \<exists>y. rel t y \<and> (y = x \<or> (\<exists>b. astep b x = Some y))"
begin

lemma simulates_from: "inv s \<Longrightarrow> rel s x \<Longrightarrow> exec step as s = Some t \<Longrightarrow> \<exists>bs y. exec astep bs x = Some y \<and> rel t y"
proof (induction as arbitrary: s x)
  case Nil
  then show ?case by (auto intro: exI [of _ "[]"])
next
  case (Cons a as)
  then obtain u where u: "step a s = Some u" "exec step as u = Some t" by (auto split: option.splits)
  obtain z where z: "rel u z" "z = x \<or> (\<exists>b. astep b x = Some z)" using rel_step [OF Cons.prems(1,2) u(1)] by blast
  obtain bs y where y: "exec astep bs z = Some y" "rel t y"
    using Cons.IH [OF inv_step [OF Cons.prems(1) u(1)] z(1) u(2)] by blast
  from z(2) show ?case
  proof
    assume "\<exists>b. astep b x = Some z"
    then obtain b where "astep b x = Some z" ..
    then have "exec astep (b # bs) x = Some y" using y(1) by simp
    with y(2) show ?thesis by blast
  qed (use y in blast)
qed

lemma simulates: "exec step as init = Some t \<Longrightarrow> \<exists>bs y. exec astep bs ainit = Some y \<and> rel t y"
  by (rule simulates_from [OF inv_init rel_init])

end

text \<open>The case of an abstraction function.\<close>

locale refinement = invariant_system init step inv
  for init :: 's and step :: "'a \<Rightarrow> 's \<Rightarrow> 's option" and inv +
  fixes abs :: "'s \<Rightarrow> 't"
    and astep :: "'b \<Rightarrow> 't \<Rightarrow> 't option"
  assumes abs_step: "inv s \<Longrightarrow> step a s = Some t \<Longrightarrow> abs t = abs s \<or> (\<exists>b. astep b (abs s) = Some (abs t))"

sublocale refinement \<subseteq> simulation init step inv "\<lambda>s x. x = abs s" "abs init" astep
  by unfold_locales (auto dest: abs_step)

context refinement
begin

lemma refines: "exec step as init = Some t \<Longrightarrow> reach (abs init) astep (abs t)"
  using simulates exec_reach by fast

end

end
