(* ===== verification/Containers.thy ===== *)
theory Containers
  imports Prelude
begin

text \<open>
  The contract of a container of tasks, as the worker loop of the thread pool relies on
  it: a task that is put in comes out exactly once, and a take that finds nothing leaves
  the container alone. The global queue is a first-in first-out container; a
  work-stealing deque is last-in first-out for its owner and first-in first-out for
  thieves. The lemmas of this theory are proved once from the contract.
\<close>

section \<open>Containers of tasks\<close>

locale task_container =
  fixes invar :: "'q \<Rightarrow> bool"
    and items :: "'q \<Rightarrow> 'a list"
    and put :: "'a \<Rightarrow> 'q \<Rightarrow> 'q"
    and take_one :: "'q \<Rightarrow> 'a option \<times> 'q"
    and is_empty :: "'q \<Rightarrow> bool"
  assumes invar_put: "invar q \<Longrightarrow> invar (put x q)"
    and mset_put: "invar q \<Longrightarrow> mset (items (put x q)) = add_mset x (mset (items q))"
    and take_Some: "invar q \<Longrightarrow> take_one q = (Some x, q') \<Longrightarrow>
          invar q' \<and> mset (items q) = add_mset x (mset (items q'))"
    and take_None: "invar q \<Longrightarrow> take_one q = (None, q') \<Longrightarrow> q' = q \<and> items q = []"
    and is_empty_iff: "invar q \<Longrightarrow> is_empty q \<longleftrightarrow> items q = []"
begin

lemma invar_take: "invar q \<Longrightarrow> take_one q = (r, q') \<Longrightarrow> invar q'"
  by (cases r) (auto dest: take_Some take_None)

lemma mset_take:
  "invar q \<Longrightarrow> take_one q = (r, q') \<Longrightarrow> mset (items q) = opt_mset r + mset (items q')"
  by (cases r) (auto dest: take_Some take_None)

lemma take_None_iff: "invar q \<Longrightarrow> fst (take_one q) = None \<longleftrightarrow> is_empty q"
proof (cases "take_one q")
  case (Pair r q')
  assume "invar q"
  with Pair show ?thesis
    by (cases r) (auto dest: take_Some take_None simp: is_empty_iff)
qed

text \<open>Putting a list of tasks, and taking \<open>n\<close> times.\<close>

lemma put_all:
  "invar q \<Longrightarrow> invar (fold put xs q) \<and> mset (items (fold put xs q)) = mset xs + mset (items q)"
  by (induction xs arbitrary: q) (auto simp: invar_put mset_put)

end

fun take_n :: "('q \<Rightarrow> 'a option \<times> 'q) \<Rightarrow> nat \<Rightarrow> 'q \<Rightarrow> 'a list \<times> 'q" where
  "take_n f 0 q = ([], q)"
| "take_n f (Suc n) q =
     (case f q of
        (None, q') \<Rightarrow> ([], q')
      | (Some x, q') \<Rightarrow> (case take_n f n q' of (xs, q'') \<Rightarrow> (x # xs, q'')))"

context task_container
begin

text \<open>Taking as often as there are items empties the container and yields every item once.\<close>

lemma take_n_all:
  "invar q \<Longrightarrow> length (items q) = n \<Longrightarrow> take_n take_one n q = (xs, q') \<Longrightarrow>
     invar q' \<and> items q' = [] \<and> mset xs = mset (items q)"
proof (induction n arbitrary: q xs)
  case 0
  then show ?case by simp
next
  case (Suc n)
  obtain r q1 where t: "take_one q = (r, q1)" by (cases "take_one q")
  show ?case
  proof (cases r)
    case None
    with take_None [OF Suc.prems(1)] t Suc.prems(2) show ?thesis by simp
  next
    case (Some x)
    with take_Some [OF Suc.prems(1)] t
    have q1: "invar q1" "mset (items q) = add_mset x (mset (items q1))" by auto
    then have "length (items q1) = n" using Suc.prems(2)
      by (metis Suc_inject size_add_mset size_mset)
    with Suc.IH [of q1] q1 Suc.prems(3) t Some show ?thesis
      by (auto split: prod.splits)
  qed
qed

end

section \<open>Ordered containers\<close>

locale fifo_container =
  fixes invar :: "'q \<Rightarrow> bool"
    and items :: "'q \<Rightarrow> 'a list"
    and put :: "'a \<Rightarrow> 'q \<Rightarrow> 'q"
    and take_one :: "'q \<Rightarrow> 'a option \<times> 'q"
    and is_empty :: "'q \<Rightarrow> bool"
  assumes invar_put_back: "invar q \<Longrightarrow> invar (put x q)"
    and items_put_back: "invar q \<Longrightarrow> items (put x q) = items q @ [x]"
    and take_front: "invar q \<Longrightarrow> take_one q = (Some x, q') \<Longrightarrow> invar q' \<and> items q = x # items q'"
    and take_nothing: "invar q \<Longrightarrow> take_one q = (None, q') \<Longrightarrow> q' = q \<and> items q = []"
    and is_empty_items: "invar q \<Longrightarrow> is_empty q \<longleftrightarrow> items q = []"

sublocale fifo_container \<subseteq> task_container
  by unfold_locales
    (auto simp: invar_put_back items_put_back is_empty_items dest: take_front take_nothing)

locale lifo_container =
  fixes invar :: "'q \<Rightarrow> bool"
    and items :: "'q \<Rightarrow> 'a list"
    and put :: "'a \<Rightarrow> 'q \<Rightarrow> 'q"
    and take_one :: "'q \<Rightarrow> 'a option \<times> 'q"
    and is_empty :: "'q \<Rightarrow> bool"
  assumes invar_put_top: "invar q \<Longrightarrow> invar (put x q)"
    and items_put_top: "invar q \<Longrightarrow> items (put x q) = items q @ [x]"
    and take_top: "invar q \<Longrightarrow> take_one q = (Some x, q') \<Longrightarrow> invar q' \<and> items q = items q' @ [x]"
    and take_nothing_top: "invar q \<Longrightarrow> take_one q = (None, q') \<Longrightarrow> q' = q \<and> items q = []"
    and is_empty_items_top: "invar q \<Longrightarrow> is_empty q \<longleftrightarrow> items q = []"

sublocale lifo_container \<subseteq> task_container
  by unfold_locales
    (auto simp: invar_put_top items_put_top is_empty_items_top dest: take_top take_nothing_top)

context fifo_container
begin

lemma items_fold_put: "invar q \<Longrightarrow> items (fold put xs q) = items q @ xs"
  by (induction xs arbitrary: q) (auto simp: invar_put_back items_put_back)

lemma take_n_fifo:
  "invar q \<Longrightarrow> items q = xs @ ys \<Longrightarrow> fst (take_n take_one (length xs) q) = xs"
proof (induction xs arbitrary: q)
  case Nil
  then show ?case by simp
next
  case (Cons x xs)
  obtain r q1 where t: "take_one q = (r, q1)" by (cases "take_one q")
  with Cons.prems obtain y where r: "r = Some y"
    by (cases r) (auto dest: take_nothing)
  with take_front [OF Cons.prems(1)] t Cons.prems(2)
  have "invar q1" "y = x" "items q1 = xs @ ys" by auto
  with Cons.IH [of q1] t r show ?case by (auto split: prod.splits)
qed

text \<open>Tasks put into an empty first-in first-out container come out in the order of the puts.\<close>

lemma fifo_order:
  "invar q \<Longrightarrow> items q = [] \<Longrightarrow> fst (take_n take_one (length xs) (fold put xs q)) = xs"
  using take_n_fifo [of "fold put xs q" xs "[]"] put_all items_fold_put by auto

end

context lifo_container
begin

lemma items_fold_put_top: "invar q \<Longrightarrow> items (fold put xs q) = items q @ xs"
  by (induction xs arbitrary: q) (auto simp: invar_put_top items_put_top)

lemma take_n_lifo:
  "invar q \<Longrightarrow> items q = ys @ rev xs \<Longrightarrow> fst (take_n take_one (length xs) q) = xs"
proof (induction xs arbitrary: q)
  case Nil
  then show ?case by simp
next
  case (Cons x xs)
  obtain r q1 where t: "take_one q = (r, q1)" by (cases "take_one q")
  with Cons.prems obtain y where r: "r = Some y"
    by (cases r) (auto dest: take_nothing_top)
  with take_top [OF Cons.prems(1)] t Cons.prems(2)
  have "invar q1" "y = x" "items q1 = ys @ rev xs" by auto
  with Cons.IH [of q1] t r show ?case by (auto split: prod.splits)
qed

lemma lifo_order:
  "invar q \<Longrightarrow> items q = [] \<Longrightarrow> fst (take_n take_one (length xs) (fold put xs q)) = rev xs"
  using take_n_lifo [of "fold put xs q" "[]" "rev xs"] put_all items_fold_put_top by auto

end

end
