(* ===== verification/Work_Stealing_Deque.thy ===== *)
theory Work_Stealing_Deque
  imports Containers
begin

text \<open>
  The class \<open>work_stealing_deque\<close> of \<open>src/src/thread_pool.cpp\<close>, its nested
  \<open>circular_array\<close>, and its operations \<open>push\<close>, \<open>pop\<close>, \<open>steal\<close> and \<open>empty\<close> run by one
  thread without interference. Slots hold task pointers (\<open>None\<close> is \<open>nullptr\<close>). The
  interleavings of the owner with thieves are in \<open>Deque_Concurrent\<close>.
\<close>

section \<open>The circular array\<close>

record 'a circular_array =
  capacity :: int
  amask :: int
  buffer :: "'a option list"

definition new_circular_array :: "int \<Rightarrow> 'a circular_array" where
  "new_circular_array cap =
     \<lparr>capacity = cap, amask = cap - 1, buffer = replicate (nat cap) None\<rparr>"

text \<open>The accesses \<open>buffer[i & mask].load\<close> and \<open>buffer[i & mask].store\<close>.\<close>

definition slot :: "'a circular_array \<Rightarrow> int \<Rightarrow> nat" where
  "slot a i = nat (i AND amask a)"

definition load_slot :: "'a circular_array \<Rightarrow> int \<Rightarrow> 'a option" where
  "load_slot a i = buffer a ! slot a i"

definition store_slot :: "'a circular_array \<Rightarrow> int \<Rightarrow> 'a option \<Rightarrow> 'a circular_array" where
  "store_slot a i v = a\<lparr>buffer := (buffer a)[slot a i := v]\<rparr>"

text \<open>The copying loop of \<open>grow\<close>: \<open>for (i = t; i < b; ++i)\<close>.\<close>

function grow_copy :: "'a circular_array \<Rightarrow> int \<Rightarrow> int \<Rightarrow> 'a circular_array \<Rightarrow> 'a circular_array" where
  "grow_copy src i b dst =
     (if i < b then grow_copy src (i + 1) b (store_slot dst i (load_slot src i)) else dst)"
  by pat_completeness auto
termination
  by (relation "measure (\<lambda>(src, i, b, dst). nat (b - i))") auto

declare grow_copy.simps [simp del]

definition grow :: "'a circular_array \<Rightarrow> int \<Rightarrow> int \<Rightarrow> 'a circular_array" where
  "grow a b t = grow_copy a t b (new_circular_array (capacity a * 2))"

section \<open>The deque\<close>

record 'a work_stealing_deque =
  dtop :: int
  dbottom :: int
  darray :: "'a circular_array"
  dhistory :: "'a circular_array list"

definition init_deque :: "int \<Rightarrow> 'a work_stealing_deque" where
  "init_deque cap =
     \<lparr>dtop = 0, dbottom = 0, darray = new_circular_array cap, dhistory = []\<rparr>"

text \<open>The constructor with its assertion; \<open>None\<close> is a failed \<open>assert\<close>.\<close>

definition deque_ctor :: "int \<Rightarrow> 'a work_stealing_deque option" where
  "deque_ctor cap = (if cap AND (cap - 1) = 0 then Some (init_deque cap) else None)"

abbreviation default_capacity :: int where
  "default_capacity \<equiv> 1024"

text \<open>The branch of \<open>push\<close> that replaces a full array, and keeps the old one in \<open>history_\<close>.\<close>

definition ensure_room :: "int \<Rightarrow> int \<Rightarrow> 'a work_stealing_deque \<Rightarrow> 'a work_stealing_deque" where
  "ensure_room b t q =
     (let a = darray q; sz = b - t in
      if sz \<ge> capacity a - 1
      then q\<lparr>dhistory := dhistory q @ [a], darray := grow a b t\<rparr>
      else q)"

definition deque_push :: "'a \<Rightarrow> 'a work_stealing_deque \<Rightarrow> 'a work_stealing_deque" where
  "deque_push task q =
     (let b = dbottom q;
          t = dtop q;
          q1 = ensure_room b t q;
          q2 = q1\<lparr>darray := store_slot (darray q1) b (Some task)\<rparr>
      in q2\<lparr>dbottom := b + 1\<rparr>)"

text \<open>\<open>top_.compare_exchange_strong(t, t + 1)\<close>.\<close>

definition cas_top :: "int \<Rightarrow> 'a work_stealing_deque \<Rightarrow> bool \<times> 'a work_stealing_deque" where
  "cas_top t q = (if dtop q = t then (True, q\<lparr>dtop := t + 1\<rparr>) else (False, q))"

definition deque_pop :: "'a work_stealing_deque \<Rightarrow> 'a option \<times> 'a work_stealing_deque" where
  "deque_pop q =
     (let b = dbottom q - 1;
          a = darray q;
          q1 = q\<lparr>dbottom := b\<rparr>;
          t = dtop q1;
          sz = b - t
      in if sz < 0 then (None, q1\<lparr>dbottom := b + 1\<rparr>)
         else
           (let task = load_slot a b in
            if sz = 0
            then (case cas_top t q1 of
                    (won, q2) \<Rightarrow> (if won then task else None, q2\<lparr>dbottom := b + 1\<rparr>))
            else (task, q1)))"

definition deque_steal :: "'a work_stealing_deque \<Rightarrow> 'a option \<times> 'a work_stealing_deque" where
  "deque_steal q =
     (let t = dtop q;
          b = dbottom q;
          sz = b - t
      in if sz \<le> 0 then (None, q)
         else
           (let a = darray q;
                task = load_slot a t
            in case cas_top t q of (won, q1) \<Rightarrow> (if won then task else None, q1)))"

definition deque_empty :: "'a work_stealing_deque \<Rightarrow> bool" where
  "deque_empty q = (dbottom q \<le> dtop q)"

text \<open>
  The destructor walks the same range as \<open>grow\<close> and deletes the tasks found there: its
  model is the list of pointers passed to \<open>delete\<close> (a null pointer is a no-op).
\<close>

function dtor_loop :: "'a circular_array \<Rightarrow> int \<Rightarrow> int \<Rightarrow> 'a list" where
  "dtor_loop arr i b =
     (if i < b
      then (case load_slot arr i of None \<Rightarrow> [] | Some task \<Rightarrow> [task]) @ dtor_loop arr (i + 1) b
      else [])"
  by pat_completeness auto
termination
  by (relation "measure (\<lambda>(arr, i, b). nat (b - i))") auto

declare dtor_loop.simps [simp del]

definition deque_dtor :: "'a work_stealing_deque \<Rightarrow> 'a list" where
  "deque_dtor q = dtor_loop (darray q) (dtop q) (dbottom q)"

section \<open>Well-formed arrays\<close>

definition ca_wf :: "'a circular_array \<Rightarrow> bool" where
  "ca_wf a \<longleftrightarrow> pow2 (capacity a) \<and> amask a = capacity a - 1 \<and> int (length (buffer a)) = capacity a"

lemma ca_wf_capacity: "ca_wf a \<Longrightarrow> 1 \<le> capacity a"
  by (simp add: ca_wf_def pow2_pos)

lemma ca_wf_new [simp, intro]: "pow2 c \<Longrightarrow> ca_wf (new_circular_array c)"
  using pow2_pos [of c] by (simp add: ca_wf_def new_circular_array_def)

lemma capacity_new [simp]: "capacity (new_circular_array c) = c"
  by (simp add: new_circular_array_def)

lemma slot_mod: "ca_wf a \<Longrightarrow> slot a i = nat (i mod capacity a)"
  by (simp add: slot_def ca_wf_def and_mask_eq_mod)

lemma slot_in_bounds: "ca_wf a \<Longrightarrow> slot a i < length (buffer a)"
  using ca_wf_capacity [of a] by (simp add: slot_mod ca_wf_def nat_less_iff)

lemma slot_inject:
  assumes "ca_wf a" and "i \<noteq> j" and "i - j < capacity a" and "j - i < capacity a"
  shows "slot a i \<noteq> slot a j"
  using assms mod_neq_if_close [of i j "capacity a"] ca_wf_capacity [of a]
  by (auto simp: slot_mod nat_eq_iff2 eq_nat_nat_iff)

lemma ca_wf_store [simp, intro]: "ca_wf a \<Longrightarrow> ca_wf (store_slot a i v)"
  by (simp add: ca_wf_def store_slot_def)

lemma capacity_store [simp]: "capacity (store_slot a i v) = capacity a"
  by (simp add: store_slot_def)

lemma slot_store [simp]: "slot (store_slot a i v) j = slot a j"
  by (simp add: store_slot_def slot_def)

lemma load_store_same: "ca_wf a \<Longrightarrow> load_slot (store_slot a i v) i = v"
  using slot_in_bounds [of a i] by (simp add: load_slot_def store_slot_def slot_def)

lemma load_store_other:
  assumes "ca_wf a" and "i \<noteq> j" and "i - j < capacity a" and "j - i < capacity a"
  shows "load_slot (store_slot a i v) j = load_slot a j"
  using slot_inject [OF assms] by (simp add: load_slot_def store_slot_def slot_def)

lemma grow_copy_wf:
  "ca_wf dst \<Longrightarrow> ca_wf (grow_copy src i b dst) \<and> capacity (grow_copy src i b dst) = capacity dst"
proof (induction src i b dst rule: grow_copy.induct)
  case (1 src i b dst)
  then show ?case by (subst (1 2) grow_copy.simps) auto
qed

lemma grow_copy_below:
  assumes "ca_wf dst" and "j < i" and "b - j \<le> capacity dst"
  shows "load_slot (grow_copy src i b dst) j = load_slot dst j"
  using assms
proof (induction src i b dst rule: grow_copy.induct)
  case (1 src i b dst)
  show ?case
  proof (cases "i < b")
    case True
    with 1 have "load_slot (grow_copy src (i + 1) b (store_slot dst i (load_slot src i))) j
        = load_slot (store_slot dst i (load_slot src i)) j"
      by auto
    also have "\<dots> = load_slot dst j"
      using True 1(2-4) by (intro load_store_other) auto
    finally show ?thesis using True by (subst grow_copy.simps) simp
  next
    case False
    then show ?thesis by (subst grow_copy.simps) simp
  qed
qed

lemma grow_copy_load:
  assumes "ca_wf dst" and "i \<le> j" and "j < b" and "b - i \<le> capacity dst"
  shows "load_slot (grow_copy src i b dst) j = load_slot src j"
  using assms
proof (induction src i b dst rule: grow_copy.induct)
  case (1 src i b dst)
  let ?dst = "store_slot dst i (load_slot src i)"
  have eq: "grow_copy src i b dst = grow_copy src (i + 1) b ?dst"
    using 1(3,4) by (subst grow_copy.simps) simp
  show ?case
  proof (cases "i = j")
    case True
    then have "load_slot (grow_copy src (i + 1) b ?dst) j = load_slot ?dst j"
      using 1(2-5) by (intro grow_copy_below) auto
    with True eq 1(2) show ?thesis by (simp add: load_store_same)
  next
    case False
    with 1 eq show ?thesis by simp
  qed
qed

lemma ca_wf_new_double: "ca_wf a \<Longrightarrow> ca_wf (new_circular_array (capacity a * 2))"
  by (rule ca_wf_new) (simp add: ca_wf_def pow2_double)

lemma grow_wf: "ca_wf a \<Longrightarrow> ca_wf (grow a b t) \<and> capacity (grow a b t) = capacity a * 2"
  unfolding grow_def using grow_copy_wf [OF ca_wf_new_double] by force

lemma grow_load:
  assumes "ca_wf a" and "t \<le> j" and "j < b" and "b - t \<le> capacity a * 2"
  shows "load_slot (grow a b t) j = load_slot a j"
  unfolding grow_def using assms
  by (intro grow_copy_load) (auto intro: ca_wf_new_double)

section \<open>The deque as a list of tasks\<close>

text \<open>
  \<open>window a lo hi\<close> is the list of tasks stored at the indices from \<open>lo\<close> below \<open>hi\<close>; the
  invariant says that the array has a free slot and that no slot of the window is null.
\<close>

definition window :: "'a circular_array \<Rightarrow> int \<Rightarrow> int \<Rightarrow> 'a list" where
  "window a lo hi = map (\<lambda>i. the (load_slot a i)) (irange lo hi)"

definition filled :: "'a circular_array \<Rightarrow> int \<Rightarrow> int \<Rightarrow> bool" where
  "filled a lo hi \<longleftrightarrow> (\<forall>i. lo \<le> i \<and> i < hi \<longrightarrow> load_slot a i \<noteq> None)"

definition contents :: "'a work_stealing_deque \<Rightarrow> 'a list" where
  "contents q = window (darray q) (dtop q) (dbottom q)"

definition deque_wf :: "'a work_stealing_deque \<Rightarrow> bool" where
  "deque_wf q \<longleftrightarrow>
     ca_wf (darray q) \<and> (\<forall>a \<in> set (dhistory q). ca_wf a) \<and>
     0 \<le> dtop q \<and> dtop q \<le> dbottom q \<and> dbottom q - dtop q \<le> capacity (darray q) - 1 \<and>
     filled (darray q) (dtop q) (dbottom q)"

lemma window_empty [simp]: "hi \<le> lo \<Longrightarrow> window a lo hi = []"
  by (simp add: window_def)

lemma window_cong:
  "(\<And>i. lo \<le> i \<Longrightarrow> i < hi \<Longrightarrow> load_slot a i = load_slot a' i) \<Longrightarrow> window a lo hi = window a' lo hi"
  by (auto simp: window_def)

lemma window_snoc: "lo \<le> hi \<Longrightarrow> window a lo (hi + 1) = window a lo hi @ [the (load_slot a hi)]"
  by (simp add: window_def irange_snoc)

lemma window_Cons: "lo < hi \<Longrightarrow> window a lo hi = the (load_slot a lo) # window a (lo + 1) hi"
  by (simp add: window_def irange_Cons)

lemma length_window: "length (window a lo hi) = nat (hi - lo)"
  by (simp add: window_def)

lemma window_eq_Nil_iff: "window a lo hi = [] \<longleftrightarrow> hi \<le> lo"
  by (auto simp: window_def)

text \<open>Storing at the end of a window that leaves one slot free does not touch the window.\<close>

lemma load_store_window:
  assumes "ca_wf a" and "hi - lo \<le> capacity a - 1" and "lo \<le> i" and "i < hi"
  shows "load_slot (store_slot a hi v) i = load_slot a i"
  using assms by (intro load_store_other) auto

lemma window_store_end:
  assumes "ca_wf a" and "lo \<le> hi" and "hi - lo \<le> capacity a - 1"
  shows "window (store_slot a hi (Some x)) lo (hi + 1) = window a lo hi @ [x]"
  using assms
  by (simp add: window_snoc load_store_same)
    (rule window_cong, simp add: load_store_window)

lemma filled_store_end:
  assumes "ca_wf a" and "filled a lo hi" and "hi - lo \<le> capacity a - 1"
  shows "filled (store_slot a hi (Some x)) lo (hi + 1)"
  unfolding filled_def
proof (intro allI impI)
  fix i assume "lo \<le> i \<and> i < hi + 1"
  with assms show "load_slot (store_slot a hi (Some x)) i \<noteq> None"
    by (cases "i = hi") (auto simp: load_store_same load_store_window filled_def)
qed

text \<open>
  What \<open>ensure_room\<close> guarantees when the \<open>t\<close> it was given is not above the real top: an
  array with room for one more element, whose slots from \<open>t\<close> on are the old ones.
\<close>

lemma ensure_room_frame [simp]:
  "dtop (ensure_room b t q) = dtop q" "dbottom (ensure_room b t q) = dbottom q"
  by (simp_all add: ensure_room_def Let_def)

lemma ensure_room:
  assumes "ca_wf (darray q)" and "b - t < capacity (darray q)"
  shows "ca_wf (darray (ensure_room b t q))"
    and "b - t < capacity (darray (ensure_room b t q)) - 1"
    and "t \<le> i \<Longrightarrow> i < b \<Longrightarrow> load_slot (darray (ensure_room b t q)) i = load_slot (darray q) i"
  using assms grow_wf [OF assms(1), of b t] ca_wf_capacity [OF assms(1)]
    grow_load [OF assms(1), of t i b]
  by (auto simp: ensure_room_def Let_def)

lemma ensure_room_history:
  assumes "\<forall>a \<in> set (dhistory q). ca_wf a" and "ca_wf (darray q)"
  shows "\<forall>a \<in> set (dhistory (ensure_room b t q)). ca_wf a"
  using assms by (auto simp: ensure_room_def Let_def)

section \<open>Correctness of the operations\<close>

lemma deque_wf_init: "pow2 c \<Longrightarrow> deque_wf (init_deque c)"
  using pow2_pos [of c] by (auto simp: deque_wf_def init_deque_def filled_def)

lemma contents_init [simp]: "contents (init_deque c) = []"
  by (simp add: contents_def init_deque_def)

lemma deque_push_eq:
  "deque_push x q =
     (ensure_room (dbottom q) (dtop q) q)
       \<lparr>darray := store_slot (darray (ensure_room (dbottom q) (dtop q) q)) (dbottom q) (Some x),
        dbottom := dbottom q + 1\<rparr>"
  by (simp add: deque_push_def Let_def)

lemma deque_push_spec:
  assumes wf: "deque_wf q"
  shows "deque_wf (deque_push x q) \<and> contents (deque_push x q) = contents q @ [x]"
proof -
  let ?b = "dbottom q" and ?t = "dtop q" and ?a = "darray (ensure_room (dbottom q) (dtop q) q)"
  let ?a' = "store_slot ?a ?b (Some x)"
  from wf have pre: "ca_wf (darray q)" "?b - ?t < capacity (darray q)" and le: "?t \<le> ?b"
    by (auto simp: deque_wf_def)
  note room = ensure_room [OF pre]
  have same: "\<And>i. ?t \<le> i \<Longrightarrow> i < ?b \<Longrightarrow> load_slot ?a i = load_slot (darray q) i"
    using room(3) by blast
  have fa: "filled ?a ?t ?b" using wf same by (auto simp: deque_wf_def filled_def)
  have wa: "window ?a ?t ?b = contents q"
    unfolding contents_def by (rule window_cong) (simp add: same)
  have cap: "?b - ?t \<le> capacity ?a - 1" using room(2) by simp
  have "deque_wf (deque_push x q)"
    using wf room(1,2) fa le filled_store_end [OF room(1) fa cap, of x]
      ensure_room_history [OF _ pre(1)]
    by (simp add: deque_push_eq deque_wf_def)
  moreover have "contents (deque_push x q) = contents q @ [x]"
    using window_store_end [OF room(1) le cap, of x] wa
    by (simp add: deque_push_eq contents_def)
  ultimately show ?thesis by simp
qed

lemma deque_pop_cases:
  "dbottom q \<le> dtop q \<Longrightarrow> deque_pop q = (None, q)"
  "dbottom q - 1 = dtop q \<Longrightarrow>
     deque_pop q = (load_slot (darray q) (dbottom q - 1), q\<lparr>dtop := dtop q + 1\<rparr>)"
  "dtop q < dbottom q - 1 \<Longrightarrow>
     deque_pop q = (load_slot (darray q) (dbottom q - 1), q\<lparr>dbottom := dbottom q - 1\<rparr>)"
  by (simp_all add: deque_pop_def Let_def cas_top_def)

lemma deque_steal_cases:
  "dbottom q \<le> dtop q \<Longrightarrow> deque_steal q = (None, q)"
  "dtop q < dbottom q \<Longrightarrow>
     deque_steal q = (load_slot (darray q) (dtop q), q\<lparr>dtop := dtop q + 1\<rparr>)"
  by (simp_all add: deque_steal_def Let_def cas_top_def)

lemma deque_wf_load:
  assumes "deque_wf q" and "dtop q \<le> i" and "i < dbottom q"
  obtains x where "load_slot (darray q) i = Some x"
  using assms by (force simp: deque_wf_def filled_def)

lemma deque_wf_shrink:
  assumes "deque_wf q" and "dtop q \<le> t" and "t \<le> b" and "b \<le> dbottom q"
  shows "deque_wf (q\<lparr>dtop := t, dbottom := b\<rparr>)"
  using assms by (auto simp: deque_wf_def filled_def)

lemma contents_split_last:
  assumes "deque_wf q" and "dtop q < dbottom q"
  shows "contents q = window (darray q) (dtop q) (dbottom q - 1) @
    [the (load_slot (darray q) (dbottom q - 1))]"
  using assms window_snoc [of "dtop q" "dbottom q - 1" "darray q"] by (simp add: contents_def)

lemma deque_pop_spec:
  assumes wf: "deque_wf q" and pop: "deque_pop q = (r, q')"
  shows "deque_wf q' \<and>
    (case r of None \<Rightarrow> contents q = [] \<and> q' = q | Some x \<Rightarrow> contents q = contents q' @ [x])"
proof (cases "dbottom q \<le> dtop q")
  case True
  with wf pop show ?thesis by (auto simp: deque_pop_cases(1) contents_def)
next
  case False
  then have lt: "dtop q < dbottom q" by simp
  obtain x where x: "load_slot (darray q) (dbottom q - 1) = Some x"
    using deque_wf_load [OF wf, of "dbottom q - 1"] lt by auto
  have c: "contents q = window (darray q) (dtop q) (dbottom q - 1) @ [x]"
    using contents_split_last [OF wf lt] x by simp
  show ?thesis
  proof (cases "dbottom q - 1 = dtop q")
    case True
    with pop x have r: "r = Some x" and q': "q' = q\<lparr>dtop := dtop q + 1\<rparr>"
      by (auto simp: deque_pop_cases(2))
    have "contents q = [x]" using c True by simp
    moreover have "contents q' = []" using True by (simp add: q' contents_def)
    moreover have "deque_wf q'"
      using lt deque_wf_shrink [OF wf, of "dtop q + 1" "dbottom q"] by (simp add: q')
    ultimately show ?thesis by (simp add: r)
  next
    case False
    with lt have "dtop q < dbottom q - 1" by simp
    with pop x have "r = Some x" "q' = q\<lparr>dbottom := dbottom q - 1\<rparr>"
      by (auto simp: deque_pop_cases(3))
    with c lt deque_wf_shrink [OF wf, of "dtop q" "dbottom q - 1"] show ?thesis
      by (simp add: contents_def)
  qed
qed

lemma pop_after_push:
  assumes "deque_wf q"
  shows "fst (deque_pop (deque_push x q)) = Some x"
proof (cases "deque_pop (deque_push x q)")
  case (Pair r q')
  then show ?thesis
    using deque_pop_spec [OF _ Pair] deque_push_spec [OF assms, of x] by (auto split: option.splits)
qed

lemma deque_steal_spec:
  assumes wf: "deque_wf q" and steal: "deque_steal q = (r, q')"
  shows "deque_wf q' \<and>
    (case r of None \<Rightarrow> contents q = [] \<and> q' = q | Some x \<Rightarrow> contents q = x # contents q')"
proof (cases "dbottom q \<le> dtop q")
  case True
  with wf steal show ?thesis by (auto simp: deque_steal_cases(1) contents_def)
next
  case False
  then have lt: "dtop q < dbottom q" by simp
  obtain x where x: "load_slot (darray q) (dtop q) = Some x"
    using deque_wf_load [OF wf, of "dtop q"] lt by auto
  with steal lt have "r = Some x" "q' = q\<lparr>dtop := dtop q + 1\<rparr>"
    by (auto simp: deque_steal_cases(2))
  with x lt deque_wf_shrink [OF wf, of "dtop q + 1" "dbottom q"] show ?thesis
    by (simp add: contents_def window_Cons)
qed

lemma deque_empty_iff: "deque_empty q \<longleftrightarrow> contents q = []"
  by (simp add: deque_empty_def contents_def window_eq_Nil_iff)

lemma deque_pop_result:
  "deque_wf q \<Longrightarrow> deque_pop q = (Some x, q') \<Longrightarrow> deque_wf q' \<and> contents q = contents q' @ [x]"
  "deque_wf q \<Longrightarrow> deque_pop q = (None, q') \<Longrightarrow> q' = q \<and> contents q = []"
  using deque_pop_spec [of q "Some x" q'] deque_pop_spec [of q None q'] by simp_all

lemma deque_steal_result:
  "deque_wf q \<Longrightarrow> deque_steal q = (Some x, q') \<Longrightarrow> deque_wf q' \<and> contents q = x # contents q'"
  "deque_wf q \<Longrightarrow> deque_steal q = (None, q') \<Longrightarrow> q' = q \<and> contents q = []"
  using deque_steal_spec [of q "Some x" q'] deque_steal_spec [of q None q'] by simp_all

interpretation owner_view: lifo_container deque_wf contents deque_push deque_pop deque_empty
  by (rule lifo_container.intro)
    (rule deque_push_spec [THEN conjunct1] deque_push_spec [THEN conjunct2] deque_pop_result
       deque_empty_iff; assumption?)+

interpretation thief_view: fifo_container deque_wf contents deque_push deque_steal deque_empty
  by (rule fifo_container.intro)
    (rule deque_push_spec [THEN conjunct1] deque_push_spec [THEN conjunct2] deque_steal_result
       deque_empty_iff; assumption?)+

lemma dtor_loop_window:
  "filled a i b \<Longrightarrow> dtor_loop a i b = window a i b"
proof (induction a i b rule: dtor_loop.induct)
  case (1 a i b)
  show ?case
  proof (cases "i < b")
    case True
    with "1.prems" obtain x where x: "load_slot a i = Some x" by (auto simp: filled_def)
    have "filled a (i + 1) b" using "1.prems" by (auto simp: filled_def)
    with 1 True x show ?thesis by (subst dtor_loop.simps) (auto simp: window_Cons)
  next
    case False
    then show ?thesis by (subst dtor_loop.simps) simp
  qed
qed

section \<open>Properties\<close>

text \<open>
  The list operations that the deque implements: the owner works at the end of the list,
  a thief at its front.
\<close>

definition list_pop :: "'a list \<Rightarrow> 'a option \<times> 'a list" where
  "list_pop xs = (if xs = [] then (None, []) else (Some (last xs), butlast xs))"

definition list_steal :: "'a list \<Rightarrow> 'a option \<times> 'a list" where
  "list_steal xs = (case xs of [] \<Rightarrow> (None, []) | x # ys \<Rightarrow> (Some x, ys))"

lemma deque_of_list:
  assumes "pow2 c"
  shows "deque_wf (fold deque_push xs (init_deque c)) \<and> contents (fold deque_push xs (init_deque c)) = xs"
  using assms owner_view.put_all [OF deque_wf_init] owner_view.items_fold_put_top [OF deque_wf_init]
  by auto

lemma deque_pop_refines:
  "deque_wf q \<Longrightarrow> map_prod id contents (deque_pop q) = list_pop (contents q)"
  by (cases "deque_pop q"; cases "fst (deque_pop q)")
    (auto simp: list_pop_def dest: deque_pop_result)

lemma deque_steal_refines:
  "deque_wf q \<Longrightarrow> map_prod id contents (deque_steal q) = list_steal (contents q)"
  by (cases "deque_steal q"; cases "fst (deque_steal q)")
    (auto simp: list_steal_def dest: deque_steal_result)

lemma deque_wf_pop: "deque_wf q \<Longrightarrow> deque_wf (snd (deque_pop q))"
  using owner_view.invar_take by (cases "deque_pop q") auto

lemma deque_wf_steal: "deque_wf q \<Longrightarrow> deque_wf (snd (deque_steal q))"
  using thief_view.invar_take by (cases "deque_steal q") auto

text \<open>
  On every well-formed deque the four operations act as list operations on the stored
  tasks: \<open>push\<close> appends, \<open>pop\<close> removes the last element or returns null on the empty list,
  \<open>steal\<close> removes the first element or returns null on the empty list, \<open>empty\<close> tests for the
  empty list; and each operation leaves a well-formed deque, so the statement applies to
  the result again.
\<close>

lemma deque_refines_list:
  assumes "deque_wf q"
  shows "deque_wf (deque_push x q) \<and> contents (deque_push x q) = contents q @ [x]
    \<and> deque_wf (snd (deque_pop q)) \<and> map_prod id contents (deque_pop q) = list_pop (contents q)
    \<and> deque_wf (snd (deque_steal q)) \<and> map_prod id contents (deque_steal q) = list_steal (contents q)
    \<and> (deque_empty q \<longleftrightarrow> contents q = [])"
  using assms
  by (simp add: deque_push_spec deque_wf_pop deque_pop_refines deque_wf_steal deque_steal_refines
      deque_empty_iff)

text \<open>
  Growing a full array keeps every live task at its index: the new array has twice the
  capacity, is well-formed, and shows the same window of tasks between \<open>t\<close> and \<open>b\<close>.
\<close>

lemma grow_keeps_tasks:
  assumes "ca_wf a" and "b - t \<le> capacity a"
  shows "ca_wf (grow a b t) \<and> capacity (grow a b t) = capacity a * 2
    \<and> window (grow a b t) t b = window a t b"
proof -
  have "window (grow a b t) t b = window a t b"
    using assms ca_wf_capacity [of a] by (intro window_cong grow_load) auto
  with grow_wf [OF assms(1)] show ?thesis by blast
qed

text \<open>
  C40. Order: tasks pushed on a fresh deque of the default capacity are popped by the owner
  in reverse order and stolen by thieves in the order of the pushes, however many there are
  (so across any number of \<open>grow\<close> calls).
\<close>

theorem deque_order:
  "fst (take_n deque_pop (length xs) (fold deque_push xs (init_deque default_capacity))) = rev xs
   \<and> fst (take_n deque_steal (length xs) (fold deque_push xs (init_deque default_capacity))) = xs"
  by (simp add: owner_view.lifo_order thief_view.fifo_order deque_wf_init)

text \<open>
  The destructor deletes exactly the tasks still stored, each once, in order: none is
  leaked and none is freed twice (\<open>contents\<close> lists each occupied index once).
\<close>

lemma dtor_deletes_contents:
  assumes "deque_wf q"
  shows "deque_dtor q = contents q"
  using assms dtor_loop_window by (auto simp: deque_dtor_def contents_def deque_wf_def)

lemma and_pred_even: "(2 * k) AND (2 * k - 1) = 2 * (k AND (k - 1))" for k :: int
proof -
  have "(2 * k - 1) div 2 = k - 1" by presburger
  then show ?thesis by (simp add: and_int_rec [of "2 * k" "2 * k - 1"])
qed

lemma and_pred_zero_pow2: "0 < c \<Longrightarrow> c AND (c - 1) = 0 \<Longrightarrow> pow2 c" for c :: int
proof (induction "nat c" arbitrary: c rule: less_induct)
  case less
  show ?case
  proof (cases "even c")
    case True
    then obtain k where k: "c = 2 * k" by blast
    with less.prems have "0 < k" "k AND (k - 1) = 0" by (auto simp: and_pred_even)
    moreover from this k have "nat k < nat c" by simp
    ultimately have "pow2 k" using less.hyps by blast
    with k show ?thesis using pow2_double [of k] by (simp add: mult.commute)
  next
    case False
    then obtain k where k: "c = 2 * k + 1" by (elim oddE)
    then have "c AND (c - 1) = 2 * k" by (simp add: and_int_rec [of "2 * k + 1" "2 * k"])
    with less.prems k show ?thesis by simp
  qed
qed

text \<open>
  The constructor's assertion: for a positive capacity it holds exactly when the
  capacity is a power of two, and then the deque is well-formed and empty.
\<close>

lemma deque_ctor_assert:
  assumes "0 < c"
  shows "(deque_ctor c \<noteq> None \<longleftrightarrow> pow2 c) \<and>
    (\<forall>q. deque_ctor c = Some q \<longrightarrow> deque_wf q \<and> contents q = [])"
proof -
  have "pow2 c \<Longrightarrow> c AND (c - 1) = 0" by (auto simp: and_mask_eq_mod)
  with assms and_pred_zero_pow2 [of c] show ?thesis
    by (auto simp: deque_ctor_def intro: deque_wf_init)
qed

end
