(* ===== verification/Deque_Concurrent.thy ===== *)
theory Deque_Concurrent
  imports Work_Stealing_Deque
begin

text \<open>
  The Chase-Lev protocol of \<open>work_stealing_deque\<close> with its interleavings: one owner that
  calls \<open>push\<close> and \<open>pop\<close>, and any number of thieves that call \<open>steal\<close>. One action is one
  access to a shared atomic (\<open>top_\<close>, \<open>bottom_\<close>, \<open>array_\<close> or a slot of a buffer); the
  program counters name the access that comes next and carry the local variables that are
  live there. Accesses take effect in the order of the schedule (sequential consistency);
  \<open>Deque_TSO\<close> adds the store buffer that the weaker orders of the code allow.

  An array pointer held by a thief is an index into \<open>history_\<close> followed by the current
  array: \<open>push\<close> appends the array it replaces to \<open>history_\<close>, so the index stays valid.
\<close>

section \<open>The machine\<close>

datatype 'a owner_pc =
    OwnerIdle
  | PushTop 'a int              \<comment> \<open>\<open>task, b\<close>: next is the load of \<open>top_\<close>\<close>
  | PushArray 'a int int        \<comment> \<open>\<open>task, b, t\<close>: next is the load of \<open>array_\<close> and the growth\<close>
  | PushSlot 'a int             \<comment> \<open>\<open>task, b\<close>: next is the store into the slot\<close>
  | PushBottom 'a int           \<comment> \<open>\<open>task, b\<close>: next is the store of \<open>b + 1\<close> to \<open>bottom_\<close>\<close>
  | PopBottom int               \<comment> \<open>\<open>b\<close>: next is the store of \<open>b\<close> to \<open>bottom_\<close>\<close>
  | PopTop int                  \<comment> \<open>\<open>b\<close>: next is the load of \<open>top_\<close>\<close>
  | PopRestoreNull int          \<comment> \<open>\<open>b\<close>, size negative: next restores \<open>bottom_\<close>, result null\<close>
  | PopSlot int int             \<comment> \<open>\<open>b, t\<close>: next is the load of the slot\<close>
  | PopCas int int "'a option"  \<comment> \<open>\<open>b, t, task\<close>, size zero: next is the exchange on \<open>top_\<close>\<close>
  | PopRestore int "'a option"  \<comment> \<open>\<open>b, task\<close>: next restores \<open>bottom_\<close> and returns\<close>

datatype 'a thief_pc =
    ThiefIdle
  | StealBottom int             \<comment> \<open>\<open>t\<close>: next is the load of \<open>bottom_\<close>\<close>
  | StealArray int              \<comment> \<open>\<open>t\<close>: next is the load of \<open>array_\<close>\<close>
  | StealSlot int nat           \<comment> \<open>\<open>t, a\<close>: next is the load of the slot\<close>
  | StealCas int "'a option"    \<comment> \<open>\<open>t, task\<close>: next is the exchange on \<open>top_\<close>\<close>

datatype 'a event = Pushed 'a | Popped "'a option" | Stolen nat "'a option"

record 'a deque_sys =
  deq :: "'a work_stealing_deque"
  owner :: "'a owner_pc"
  thieves :: "nat \<Rightarrow> 'a thief_pc"
  events :: "'a event list"

datatype 'a action = CallPush 'a | CallPop | OwnerStep | CallSteal nat | ThiefStep nat

definition init_sys :: "int \<Rightarrow> 'a deque_sys" where
  "init_sys c = \<lparr>deq = init_deque c, owner = OwnerIdle, thieves = (\<lambda>_. ThiefIdle), events = []\<rparr>"

definition current_ptr :: "'a work_stealing_deque \<Rightarrow> nat" where
  "current_ptr q = length (dhistory q)"

definition array_at :: "'a work_stealing_deque \<Rightarrow> nat \<Rightarrow> 'a circular_array" where
  "array_at q a = (dhistory q @ [darray q]) ! a"

text \<open>The first load of a call is done by the call action itself.\<close>

definition call_push :: "'a \<Rightarrow> 'a deque_sys \<Rightarrow> 'a deque_sys option" where
  "call_push x s =
     (case owner s of
        OwnerIdle \<Rightarrow> Some (s\<lparr>owner := PushTop x (dbottom (deq s))\<rparr>)
      | _ \<Rightarrow> None)"

definition call_pop :: "'a deque_sys \<Rightarrow> 'a deque_sys option" where
  "call_pop s =
     (case owner s of
        OwnerIdle \<Rightarrow> Some (s\<lparr>owner := PopBottom (dbottom (deq s) - 1)\<rparr>)
      | _ \<Rightarrow> None)"

definition owner_step :: "'a deque_sys \<Rightarrow> 'a deque_sys option" where
  "owner_step s =
     (let q = deq s in
      case owner s of
        OwnerIdle \<Rightarrow> None
      | PushTop x b \<Rightarrow> Some (s\<lparr>owner := PushArray x b (dtop q)\<rparr>)
      | PushArray x b t \<Rightarrow> Some (s\<lparr>deq := ensure_room b t q, owner := PushSlot x b\<rparr>)
      | PushSlot x b \<Rightarrow>
          Some (s\<lparr>deq := q\<lparr>darray := store_slot (darray q) b (Some x)\<rparr>, owner := PushBottom x b\<rparr>)
      | PushBottom x b \<Rightarrow>
          Some (s\<lparr>deq := q\<lparr>dbottom := b + 1\<rparr>, owner := OwnerIdle, events := events s @ [Pushed x]\<rparr>)
      | PopBottom b \<Rightarrow> Some (s\<lparr>deq := q\<lparr>dbottom := b\<rparr>, owner := PopTop b\<rparr>)
      | PopTop b \<Rightarrow>
          (let t = dtop q; sz = b - t in
           Some (s\<lparr>owner := (if sz < 0 then PopRestoreNull b else PopSlot b t)\<rparr>))
      | PopRestoreNull b \<Rightarrow>
          Some (s\<lparr>deq := q\<lparr>dbottom := b + 1\<rparr>, owner := OwnerIdle, events := events s @ [Popped None]\<rparr>)
      | PopSlot b t \<Rightarrow>
          (let task = load_slot (darray q) b; sz = b - t in
           if sz = 0 then Some (s\<lparr>owner := PopCas b t task\<rparr>)
           else Some (s\<lparr>owner := OwnerIdle, events := events s @ [Popped task]\<rparr>))
      | PopCas b t task \<Rightarrow>
          (case cas_top t q of
             (won, q') \<Rightarrow> Some (s\<lparr>deq := q', owner := PopRestore b (if won then task else None)\<rparr>))
      | PopRestore b task \<Rightarrow>
          Some (s\<lparr>deq := q\<lparr>dbottom := b + 1\<rparr>, owner := OwnerIdle, events := events s @ [Popped task]\<rparr>))"

definition set_thief :: "nat \<Rightarrow> 'a thief_pc \<Rightarrow> 'a deque_sys \<Rightarrow> 'a deque_sys" where
  "set_thief i pc s = s\<lparr>thieves := (thieves s)(i := pc)\<rparr>"

definition call_steal :: "nat \<Rightarrow> 'a deque_sys \<Rightarrow> 'a deque_sys option" where
  "call_steal i s =
     (case thieves s i of
        ThiefIdle \<Rightarrow> Some (set_thief i (StealBottom (dtop (deq s))) s)
      | _ \<Rightarrow> None)"

definition thief_step :: "nat \<Rightarrow> 'a deque_sys \<Rightarrow> 'a deque_sys option" where
  "thief_step i s =
     (let q = deq s in
      case thieves s i of
        ThiefIdle \<Rightarrow> None
      | StealBottom t \<Rightarrow>
          (let b = dbottom q; sz = b - t in
           if sz \<le> 0 then Some (set_thief i ThiefIdle s\<lparr>events := events s @ [Stolen i None]\<rparr>)
           else Some (set_thief i (StealArray t) s))
      | StealArray t \<Rightarrow> Some (set_thief i (StealSlot t (current_ptr q)) s)
      | StealSlot t a \<Rightarrow> Some (set_thief i (StealCas t (load_slot (array_at q a) t)) s)
      | StealCas t task \<Rightarrow>
          (case cas_top t q of
             (won, q') \<Rightarrow>
               Some (set_thief i ThiefIdle
                 s\<lparr>deq := q', events := events s @ [Stolen i (if won then task else None)]\<rparr>)))"

fun deque_step :: "'a action \<Rightarrow> 'a deque_sys \<Rightarrow> 'a deque_sys option" where
  "deque_step (CallPush x) s = call_push x s"
| "deque_step CallPop s = call_pop s"
| "deque_step OwnerStep s = owner_step s"
| "deque_step (CallSteal i) s = call_steal i s"
| "deque_step (ThiefStep i) s = thief_step i s"

section \<open>The invariant\<close>

text \<open>
  Between the store of \<open>b\<close> to \<open>bottom_\<close> and the end of \<open>pop\<close> the element at \<open>b\<close> still
  belongs to the deque: \<open>lim\<close> is the index after the last element. Thieves that have
  passed their size test are below \<open>steal_lim\<close>, which is one less while the owner is about
  to take an element that no thief can reach.
\<close>

fun lim :: "'a owner_pc \<Rightarrow> int \<Rightarrow> int" where
  "lim (PopTop b) bb = b + 1"
| "lim (PopRestoreNull b) bb = b + 1"
| "lim (PopSlot b t) bb = b + 1"
| "lim (PopCas b t r) bb = b + 1"
| "lim (PopRestore b r) bb = b + 1"
| "lim _ bb = bb"

fun steal_lim :: "'a owner_pc \<Rightarrow> int \<Rightarrow> int" where
  "steal_lim (PopSlot b t) bb = (if t < b then b else b + 1)"
| "steal_lim pc bb = lim pc bb"

fun owner_ok :: "'a owner_pc \<Rightarrow> 'a work_stealing_deque \<Rightarrow> bool" where
  "owner_ok OwnerIdle q = True"
| "owner_ok (PushTop x b) q = (b = dbottom q)"
| "owner_ok (PushArray x b t) q =
     (b = dbottom q \<and> 0 \<le> t \<and> t \<le> dtop q \<and> b - t < capacity (darray q))"
| "owner_ok (PushSlot x b) q = (b = dbottom q \<and> b - dtop q < capacity (darray q) - 1)"
| "owner_ok (PushBottom x b) q =
     (b = dbottom q \<and> b - dtop q < capacity (darray q) - 1 \<and> load_slot (darray q) b = Some x)"
| "owner_ok (PopBottom b) q = (b + 1 = dbottom q)"
| "owner_ok (PopTop b) q = (b = dbottom q)"
| "owner_ok (PopRestoreNull b) q = (b = dbottom q \<and> dtop q = b + 1)"
| "owner_ok (PopSlot b t) q = (b = dbottom q \<and> 0 \<le> t \<and> t \<le> b \<and> t \<le> dtop q \<and> (t < b \<longrightarrow> dtop q \<le> b))"
| "owner_ok (PopCas b t r) q =
     (b = dbottom q \<and> t = b \<and> t \<le> dtop q \<and> (dtop q = t \<longrightarrow> r = load_slot (darray q) t))"
| "owner_ok (PopRestore b r) q = (b = dbottom q \<and> dtop q = b + 1)"

fun thief_ok :: "int \<Rightarrow> 'a work_stealing_deque \<Rightarrow> 'a thief_pc \<Rightarrow> bool" where
  "thief_ok l q ThiefIdle = True"
| "thief_ok l q (StealBottom t) = (0 \<le> t \<and> t \<le> dtop q)"
| "thief_ok l q (StealArray t) = (0 \<le> t \<and> t \<le> dtop q \<and> (t = dtop q \<longrightarrow> t < l))"
| "thief_ok l q (StealSlot t a) =
     (0 \<le> t \<and> t \<le> dtop q \<and> a \<le> current_ptr q \<and>
      (t = dtop q \<longrightarrow> t < l \<and> load_slot (array_at q a) t = load_slot (darray q) t))"
| "thief_ok l q (StealCas t r) =
     (0 \<le> t \<and> t \<le> dtop q \<and> (t = dtop q \<longrightarrow> t < l \<and> r = load_slot (darray q) t))"

definition window_ok :: "int \<Rightarrow> 'a work_stealing_deque \<Rightarrow> bool" where
  "window_ok l q \<longleftrightarrow>
     ca_wf (darray q) \<and> (\<forall>a \<in> set (dhistory q). ca_wf a) \<and>
     0 \<le> dtop q \<and> dtop q \<le> l \<and> l - dtop q < capacity (darray q) \<and> filled (darray q) (dtop q) l"

definition deque_inv :: "'a deque_sys \<Rightarrow> bool" where
  "deque_inv s \<longleftrightarrow>
     window_ok (lim (owner s) (dbottom (deq s))) (deq s) \<and>
     owner_ok (owner s) (deq s) \<and>
     (\<forall>i. thief_ok (steal_lim (owner s) (dbottom (deq s))) (deq s) (thieves s i))"

lemma deque_inv_init: "pow2 c \<Longrightarrow> deque_inv (init_sys c)"
  using pow2_pos [of c]
  by (auto simp: deque_inv_def init_sys_def init_deque_def window_ok_def filled_def)

section \<open>Preservation\<close>

lemma array_at_current [simp]: "array_at q (current_ptr q) = darray q"
  by (simp add: array_at_def current_ptr_def)

text \<open>Changes of the owner's program counter alone.\<close>

lemma deque_inv_owner:
  assumes "deque_inv s" and "owner_ok pc (deq s)"
    and "lim pc (dbottom (deq s)) = lim (owner s) (dbottom (deq s))"
    and "steal_lim pc (dbottom (deq s)) = steal_lim (owner s) (dbottom (deq s))"
  shows "deque_inv (s\<lparr>owner := pc\<rparr>)"
  using assms by (simp add: deque_inv_def)

text \<open>Moving a thief.\<close>

lemma deque_inv_thief:
  assumes "deque_inv s" and "thief_ok (steal_lim (owner s) (dbottom (deq s))) (deq s) pc"
  shows "deque_inv (set_thief i pc s)"
  using assms by (simp add: deque_inv_def set_thief_def)

lemma deque_inv_events [simp]: "deque_inv (s\<lparr>events := es\<rparr>) = deque_inv s"
  by (simp add: deque_inv_def)

text \<open>
  The thieves do not notice a change of the deque that keeps \<open>top_\<close>, keeps or extends
  \<open>history_\<close>, and keeps the element at \<open>top_\<close> in the current array.
\<close>

lemma thief_ok_deque:
  assumes "thief_ok l q pc"
    and "dtop q' = dtop q"
    and "l \<le> l' \<or> dtop q < l'"
    and "dtop q < l \<Longrightarrow> load_slot (darray q') (dtop q) = load_slot (darray q) (dtop q)"
    and "current_ptr q \<le> current_ptr q'"
    and "\<And>a. a \<le> current_ptr q \<Longrightarrow> dtop q < l \<Longrightarrow>
      load_slot (array_at q' a) (dtop q) = load_slot (array_at q a) (dtop q)"
  shows "thief_ok l' q' pc"
  using assms by (cases pc) auto

lemma thief_ok_top:
  assumes "thief_ok l q pc" and "t = dtop q"
  shows "thief_ok l (q\<lparr>dtop := t + 1\<rparr>) pc"
  using assms by (cases pc) (auto simp: array_at_def current_ptr_def)

lemma window_ok_top:
  assumes "window_ok l q" and "dtop q < l"
  shows "window_ok l (q\<lparr>dtop := dtop q + 1\<rparr>)"
  using assms by (auto simp: window_ok_def filled_def)

text \<open>The step of \<open>push\<close> that may replace the array.\<close>

lemma array_at_ensure_room:
  "a \<le> current_ptr q \<Longrightarrow> t \<le> i \<Longrightarrow> i < b \<Longrightarrow> ca_wf (darray q) \<Longrightarrow> b - t < capacity (darray q) \<Longrightarrow>
     load_slot (array_at (ensure_room b t q) a) i = load_slot (array_at q a) i"
  by (auto simp: array_at_def current_ptr_def ensure_room_def Let_def nth_append)

lemma current_ptr_ensure_room: "current_ptr q \<le> current_ptr (ensure_room b t q)"
  by (simp add: current_ptr_def ensure_room_def Let_def)

lemma deque_inv_push_array:
  assumes inv: "deque_inv s" and pc: "owner s = PushArray x b t"
  shows "deque_inv (s\<lparr>deq := ensure_room b t (deq s), owner := PushSlot x b\<rparr>)"
proof -
  let ?q = "deq s" and ?q' = "ensure_room b t (deq s)"
  from inv pc have w: "window_ok b ?q" and o: "b = dbottom ?q" "0 \<le> t" "t \<le> dtop ?q"
      "b - t < capacity (darray ?q)" and th: "\<And>i. thief_ok b ?q (thieves s i)"
    by (auto simp: deque_inv_def)
  from w have wf: "ca_wf (darray ?q)" by (simp add: window_ok_def)
  note room = ensure_room [OF wf o(4)]
  have w': "window_ok b ?q'"
    using w room o(3) ensure_room_history [OF _ wf, of b t]
    by (auto simp: window_ok_def filled_def)
  have "thief_ok b ?q' (thieves s i)" for i
    using th [of i] by (rule thief_ok_deque)
      (use room o wf in \<open>auto simp: current_ptr_ensure_room array_at_ensure_room\<close>)
  with w' room(2) o show ?thesis by (simp add: deque_inv_def)
qed

lemma deque_inv_push_slot:
  assumes inv: "deque_inv s" and pc: "owner s = PushSlot x b"
  shows "deque_inv (s\<lparr>deq := (deq s)\<lparr>darray := store_slot (darray (deq s)) b (Some x)\<rparr>,
    owner := PushBottom x b\<rparr>)"
proof -
  let ?q = "deq s" and ?q' = "(deq s)\<lparr>darray := store_slot (darray (deq s)) b (Some x)\<rparr>"
  from inv pc have w: "window_ok b ?q" and o: "b = dbottom ?q" "b - dtop ?q < capacity (darray ?q) - 1"
    and th: "\<And>i. thief_ok b ?q (thieves s i)"
    by (auto simp: deque_inv_def)
  from w have wf: "ca_wf (darray ?q)" by (simp add: window_ok_def)
  have same: "load_slot (store_slot (darray ?q) b (Some x)) i = load_slot (darray ?q) i"
    if "dtop ?q \<le> i" "i < b" for i
    using that o wf by (intro load_store_window) auto
  have w': "window_ok b ?q'" using w same by (auto simp: window_ok_def filled_def)
  have "thief_ok b ?q' (thieves s i)" for i
    using th [of i] by (rule thief_ok_deque)
      (use same in \<open>auto simp: current_ptr_def array_at_def nth_append\<close>)
  with w' o wf show ?thesis by (simp add: deque_inv_def load_store_same)
qed

lemma deque_inv_push_bottom:
  assumes inv: "deque_inv s" and pc: "owner s = PushBottom x b"
  shows "deque_inv (s\<lparr>deq := (deq s)\<lparr>dbottom := b + 1\<rparr>, owner := OwnerIdle\<rparr>)"
proof -
  let ?q = "deq s"
  from inv pc have w: "window_ok b ?q" and o: "b = dbottom ?q" "b - dtop ?q < capacity (darray ?q) - 1"
      "load_slot (darray ?q) b = Some x" and th: "\<And>i. thief_ok b ?q (thieves s i)"
    by (auto simp: deque_inv_def)
  have "filled (darray ?q) (dtop ?q) (b + 1)"
    unfolding filled_def
  proof (intro allI impI)
    fix i assume "dtop ?q \<le> i \<and> i < b + 1"
    with w o(3) show "load_slot (darray ?q) i \<noteq> None"
      by (cases "i = b") (auto simp: window_ok_def filled_def)
  qed
  with w o have "window_ok (b + 1) (?q\<lparr>dbottom := b + 1\<rparr>)" by (simp add: window_ok_def)
  moreover have "thief_ok (b + 1) (?q\<lparr>dbottom := b + 1\<rparr>) (thieves s i)" for i
    using th [of i] by (rule thief_ok_deque) (auto simp: current_ptr_def array_at_def)
  ultimately show ?thesis by (simp add: deque_inv_def)
qed

text \<open>The steps of \<open>pop\<close>. Storing \<open>bottom_\<close> does not change the elements of the deque.\<close>

lemma window_ok_bottom [simp]: "window_ok l (q\<lparr>dbottom := b\<rparr>) = window_ok l q"
  by (simp add: window_ok_def)

lemma thief_ok_bottom [simp]: "thief_ok l (q\<lparr>dbottom := b\<rparr>) pc = thief_ok l q pc"
  by (cases pc) (auto simp: current_ptr_def array_at_def)

lemma deque_inv_set_bottom:
  assumes "deque_inv s" and "owner_ok pc ((deq s)\<lparr>dbottom := b\<rparr>)"
    and "lim pc b = lim (owner s) (dbottom (deq s))"
    and "steal_lim pc b = steal_lim (owner s) (dbottom (deq s))"
  shows "deque_inv (s\<lparr>deq := (deq s)\<lparr>dbottom := b\<rparr>, owner := pc\<rparr>)"
  using assms by (simp add: deque_inv_def)

lemma thief_ok_less: "thief_ok l q pc \<Longrightarrow> dtop q < l' \<Longrightarrow> thief_ok l' q pc"
  by (cases pc) auto

lemma deque_inv_pop_top:
  assumes inv: "deque_inv s" and pc: "owner s = PopTop b"
  shows "deque_inv (s\<lparr>owner := if b - dtop (deq s) < 0 then PopRestoreNull b else PopSlot b (dtop (deq s))\<rparr>)"
proof -
  let ?q = "deq s"
  from inv pc have w: "window_ok (b + 1) ?q" and o: "b = dbottom ?q"
    and th: "\<And>i. thief_ok (b + 1) ?q (thieves s i)"
    by (auto simp: deque_inv_def)
  from w have top: "0 \<le> dtop ?q" "dtop ?q \<le> b + 1" by (auto simp: window_ok_def)
  show ?thesis
  proof (cases "dtop ?q < b")
    case True
    with th have "\<And>i. thief_ok b ?q (thieves s i)" using thief_ok_less by blast
    with True w o top show ?thesis by (simp add: deque_inv_def)
  next
    case False
    with w o top th show ?thesis by (auto simp: deque_inv_def)
  qed
qed

lemma deque_inv_pop_slot_take:
  assumes inv: "deque_inv s" and pc: "owner s = PopSlot b t" and "b - t \<noteq> 0"
  shows "deque_inv (s\<lparr>owner := OwnerIdle\<rparr>)"
proof -
  let ?q = "deq s"
  from assms have w: "window_ok (b + 1) ?q" and o: "b = dbottom ?q" "dtop ?q \<le> b"
    and th: "\<And>i. thief_ok b ?q (thieves s i)"
    by (auto simp: deque_inv_def split: if_splits)
  from w o(2) have "window_ok b ?q" by (auto simp: window_ok_def filled_def)
  with o th show ?thesis by (simp add: deque_inv_def)
qed

lemma deque_inv_pop_cas:
  assumes inv: "deque_inv s" and pc: "owner s = PopCas b t r" and cas: "cas_top t (deq s) = (won, q')"
  shows "deque_inv (s\<lparr>deq := q', owner := PopRestore b (if won then r else None)\<rparr>)"
proof -
  let ?q = "deq s"
  from inv pc have w: "window_ok (b + 1) ?q" and o: "b = dbottom ?q" "t = b" "t \<le> dtop ?q"
    and th: "\<And>i. thief_ok (b + 1) ?q (thieves s i)"
    by (auto simp: deque_inv_def)
  from w have top: "dtop ?q \<le> b + 1" by (simp add: window_ok_def)
  show ?thesis
  proof (cases "dtop ?q = t")
    case True
    then have q': "q' = ?q\<lparr>dtop := t + 1\<rparr>" using cas by (simp add: cas_top_def)
    have "window_ok (b + 1) q'" using window_ok_top [OF w] True o by (simp add: q')
    moreover have "\<And>i. thief_ok (b + 1) q' (thieves s i)"
      unfolding q' using thief_ok_top [OF th] True by simp
    ultimately show ?thesis using o by (simp add: deque_inv_def q')
  next
    case False
    then have "q' = ?q" "dtop ?q = b + 1" using cas o top by (auto simp: cas_top_def)
    with w o th show ?thesis by (simp add: deque_inv_def)
  qed
qed

text \<open>The exchange of a thief.\<close>

lemma owner_ok_top:
  assumes "owner_ok pc q" and "dtop q < steal_lim pc (dbottom q)"
  shows "owner_ok pc (q\<lparr>dtop := dtop q + 1\<rparr>)"
  using assms by (cases pc) (auto split: if_splits)

lemma steal_lim_le_lim: "steal_lim pc b \<le> lim pc b"
  by (cases pc) auto

lemma deque_inv_steal_cas:
  assumes inv: "deque_inv s" and pc: "thieves s i = StealCas t r" and cas: "cas_top t (deq s) = (won, q')"
  shows "deque_inv (set_thief i ThiefIdle (s\<lparr>deq := q'\<rparr>))"
proof (cases "dtop (deq s) = t")
  case False
  with cas have "q' = deq s" by (auto simp: cas_top_def)
  with deque_inv_thief [OF inv, of ThiefIdle i] show ?thesis by simp
next
  case True
  let ?q = "deq s" and ?L = "steal_lim (owner s) (dbottom (deq s))"
  have q': "q' = ?q\<lparr>dtop := dtop ?q + 1\<rparr>" using cas True by (auto simp: cas_top_def)
  from inv have th: "\<And>j. thief_ok ?L ?q (thieves s j)" by (simp add: deque_inv_def)
  from th [of i] pc True have lt: "dtop ?q < ?L" by simp
  have "dtop ?q < lim (owner s) (dbottom ?q)"
    using lt steal_lim_le_lim [of "owner s" "dbottom ?q"] by simp
  then have "window_ok (lim (owner s) (dbottom q')) q'"
    using inv window_ok_top by (auto simp: deque_inv_def q')
  moreover have "owner_ok (owner s) q'"
    using inv owner_ok_top [OF _ lt] by (auto simp: deque_inv_def q')
  moreover have "\<And>j. thief_ok ?L q' (thieves s j)"
    unfolding q' using thief_ok_top [OF th] by simp
  ultimately show ?thesis by (simp add: deque_inv_def set_thief_def q')
qed

lemma window_okD:
  assumes "deque_inv s"
  shows "0 \<le> dtop (deq s)" "dtop (deq s) \<le> lim (owner s) (dbottom (deq s))"
    "lim (owner s) (dbottom (deq s)) - dtop (deq s) < capacity (darray (deq s))"
  using assms by (auto simp: deque_inv_def window_ok_def)

lemma deque_inv_owner_ok: "deque_inv s \<Longrightarrow> owner_ok (owner s) (deq s)"
  by (simp add: deque_inv_def)

lemma deque_inv_call_push: "deque_inv s \<Longrightarrow> call_push x s = Some s' \<Longrightarrow> deque_inv s'"
  by (auto simp: call_push_def split: owner_pc.splits intro!: deque_inv_owner)

lemma deque_inv_call_pop: "deque_inv s \<Longrightarrow> call_pop s = Some s' \<Longrightarrow> deque_inv s'"
  by (auto simp: call_pop_def split: owner_pc.splits intro!: deque_inv_owner)

lemma deque_inv_owner_step:
  assumes inv: "deque_inv s" and step: "owner_step s = Some s'"
  shows "deque_inv s'"
proof (cases "owner s")
  case OwnerIdle
  with step show ?thesis by (simp add: owner_step_def)
next
  case (PushTop x b)
  with inv step window_okD [OF inv] show ?thesis
    by (auto simp: owner_step_def dest: deque_inv_owner_ok intro!: deque_inv_owner)
next
  case (PushArray x b t)
  with step deque_inv_push_array [OF inv] show ?thesis by (auto simp: owner_step_def)
next
  case (PushSlot x b)
  with step deque_inv_push_slot [OF inv] show ?thesis by (auto simp: owner_step_def Let_def)
next
  case (PushBottom x b)
  with step deque_inv_push_bottom [OF inv] show ?thesis by (auto simp: owner_step_def)
next
  case (PopBottom b)
  with inv step show ?thesis
    by (auto simp: owner_step_def dest: deque_inv_owner_ok intro!: deque_inv_set_bottom)
next
  case (PopTop b)
  with step deque_inv_pop_top [OF inv] show ?thesis by (auto simp: owner_step_def Let_def)
next
  case (PopRestoreNull b)
  with inv step show ?thesis
    by (auto simp: owner_step_def dest: deque_inv_owner_ok intro!: deque_inv_set_bottom)
next
  case (PopSlot b t)
  show ?thesis
  proof (cases "b - t = 0")
    case True
    with PopSlot inv step show ?thesis
      by (auto simp: owner_step_def dest: deque_inv_owner_ok intro!: deque_inv_owner)
  next
    case False
    with PopSlot step deque_inv_pop_slot_take [OF inv PopSlot] show ?thesis
      by (auto simp: owner_step_def)
  qed
next
  case (PopCas b t r)
  with step deque_inv_pop_cas [OF inv] show ?thesis
    by (auto simp: owner_step_def split: prod.splits)
next
  case (PopRestore b r)
  with inv step show ?thesis
    by (auto simp: owner_step_def dest: deque_inv_owner_ok intro!: deque_inv_set_bottom)
qed

lemma set_thief_deq: "set_thief i pc (s\<lparr>deq := q\<rparr>) = set_thief i pc s\<lparr>deq := q\<rparr>"
  by (simp add: set_thief_def)

lemma bottom_le_steal_lim: "owner_ok (owner s) (deq s) \<Longrightarrow> dbottom (deq s) \<le> steal_lim (owner s) (dbottom (deq s))"
  by (cases "owner s") auto

lemma deque_inv_call_steal: "deque_inv s \<Longrightarrow> call_steal i s = Some s' \<Longrightarrow> deque_inv s'"
  using window_okD(1) [of s]
  by (auto simp: call_steal_def split: thief_pc.splits intro!: deque_inv_thief)

lemma deque_inv_thief_step:
  assumes inv: "deque_inv s" and step: "thief_step i s = Some s'"
  shows "deque_inv s'"
proof -
  let ?L = "steal_lim (owner s) (dbottom (deq s))"
  have ok: "thief_ok ?L (deq s) (thieves s i)" using inv by (simp add: deque_inv_def)
  have bot: "dbottom (deq s) \<le> ?L" by (rule bottom_le_steal_lim [OF deque_inv_owner_ok [OF inv]])
  show ?thesis
  proof (cases "thieves s i")
    case ThiefIdle
    with step show ?thesis by (simp add: thief_step_def)
  next
    case (StealBottom t)
    with inv step ok bot show ?thesis
      by (auto simp: thief_step_def Let_def split: if_splits intro!: deque_inv_thief)
  next
    case (StealArray t)
    with inv step ok show ?thesis by (auto simp: thief_step_def intro!: deque_inv_thief)
  next
    case (StealSlot t a)
    with inv step ok show ?thesis by (auto simp: thief_step_def intro!: deque_inv_thief)
  next
    case (StealCas t r)
    with step deque_inv_steal_cas [OF inv StealCas] show ?thesis
      by (auto simp: thief_step_def set_thief_deq split: prod.splits)
  qed
qed

lemma deque_inv_step: "deque_inv s \<Longrightarrow> deque_step a s = Some s' \<Longrightarrow> deque_inv s'"
  by (cases a) (auto intro: deque_inv_call_push deque_inv_call_pop deque_inv_owner_step
      deque_inv_call_steal deque_inv_thief_step)

interpretation deque_machine: invariant_system "init_sys default_capacity" deque_step deque_inv
  by unfold_locales (auto intro: deque_inv_init deque_inv_step)

abbreviation deque_reach :: "'a deque_sys \<Rightarrow> bool" where
  "deque_reach \<equiv> reach (init_sys default_capacity) deque_step"

section \<open>The atomic specification\<close>

text \<open>
  The specification has a list of items and acts on it in single steps. \<open>decided\<close> holds an
  element that \<open>pop\<close> has won by the exchange on \<open>top_\<close> and not returned yet; \<open>log\<close> is the
  list of finished calls with their results.
\<close>

record 'a spec_deque =
  items_of :: "'a list"
  decided :: "'a option"
  log :: "'a event list"

inductive spec_step :: "'a spec_deque \<Rightarrow> 'a spec_deque \<Rightarrow> bool" where
  spec_internal: "spec_step a a"
| spec_push: "spec_step a (a\<lparr>items_of := items_of a @ [x], log := log a @ [Pushed x]\<rparr>)"
| spec_pop: "items_of a = xs @ [x] \<Longrightarrow>
    spec_step a (a\<lparr>items_of := xs, log := log a @ [Popped (Some x)]\<rparr>)"
| spec_pop_win: "items_of a = [x] \<Longrightarrow> decided a = None \<Longrightarrow>
    spec_step a (a\<lparr>items_of := [], decided := Some x\<rparr>)"
| spec_pop_return: "decided a = Some x \<Longrightarrow>
    spec_step a (a\<lparr>decided := None, log := log a @ [Popped (Some x)]\<rparr>)"
| spec_pop_null: "items_of a = [] \<Longrightarrow> decided a = None \<Longrightarrow>
    spec_step a (a\<lparr>log := log a @ [Popped None]\<rparr>)"
| spec_steal: "items_of a = x # xs \<Longrightarrow>
    spec_step a (a\<lparr>items_of := xs, log := log a @ [Stolen i (Some x)]\<rparr>)"
| spec_steal_null: "spec_step a (a\<lparr>log := log a @ [Stolen i None]\<rparr>)"

fun decided_of :: "'a owner_pc \<Rightarrow> 'a option" where
  "decided_of (PopRestore b r) = r"
| "decided_of _ = None"

definition abs_deque :: "'a deque_sys \<Rightarrow> 'a spec_deque" where
  "abs_deque s =
     \<lparr>items_of = window (darray (deq s)) (dtop (deq s)) (lim (owner s) (dbottom (deq s))),
      decided = decided_of (owner s), log = events s\<rparr>"

lemma abs_deque_same:
  assumes "darray (deq s') = darray (deq s)" and "dtop (deq s') = dtop (deq s)"
    and "lim (owner s') (dbottom (deq s')) = lim (owner s) (dbottom (deq s))"
    and "decided_of (owner s') = decided_of (owner s)"
  shows "abs_deque s' = abs_deque s\<lparr>log := events s'\<rparr>"
  using assms by (simp add: abs_deque_def)

lemma abs_deque_sel:
  "items_of (abs_deque s) = window (darray (deq s)) (dtop (deq s)) (lim (owner s) (dbottom (deq s)))"
  "decided (abs_deque s) = decided_of (owner s)"
  "log (abs_deque s) = events s"
  by (simp_all add: abs_deque_def)

text \<open>Steps that the specification does not see.\<close>

lemma spec_internalI: "abs_deque s' = abs_deque s \<Longrightarrow> spec_step (abs_deque s) (abs_deque s')"
  by (simp add: spec_internal)

lemma sim_push_array:
  assumes inv: "deque_inv s" and pc: "owner s = PushArray x b t"
  shows "abs_deque (s\<lparr>deq := ensure_room b t (deq s), owner := PushSlot x b\<rparr>) = abs_deque s"
proof -
  from inv pc have wf: "ca_wf (darray (deq s))" and o: "b = dbottom (deq s)" "t \<le> dtop (deq s)"
    "b - t < capacity (darray (deq s))"
    by (auto simp: deque_inv_def window_ok_def)
  have "window (darray (ensure_room b t (deq s))) (dtop (deq s)) b
      = window (darray (deq s)) (dtop (deq s)) b"
    using ensure_room(3) [OF wf o(3)] o(2) by (intro window_cong) auto
  with pc o(1) show ?thesis by (simp add: abs_deque_def)
qed

lemma sim_push_slot:
  assumes inv: "deque_inv s" and pc: "owner s = PushSlot x b"
  shows "abs_deque (s\<lparr>deq := (deq s)\<lparr>darray := store_slot (darray (deq s)) b (Some x)\<rparr>,
    owner := PushBottom x b\<rparr>) = abs_deque s"
proof -
  from inv pc have wf: "ca_wf (darray (deq s))" and o: "b = dbottom (deq s)"
    "b - dtop (deq s) < capacity (darray (deq s)) - 1"
    by (auto simp: deque_inv_def window_ok_def)
  have "window (store_slot (darray (deq s)) b (Some x)) (dtop (deq s)) b
      = window (darray (deq s)) (dtop (deq s)) b"
    using o wf by (intro window_cong load_store_window) auto
  with pc o(1) show ?thesis by (simp add: abs_deque_def)
qed

text \<open>The steps at which \<open>push\<close>, \<open>pop\<close> and \<open>steal\<close> take effect.\<close>

lemma sim_push_bottom:
  assumes inv: "deque_inv s" and pc: "owner s = PushBottom x b"
  shows "abs_deque (s\<lparr>deq := (deq s)\<lparr>dbottom := b + 1\<rparr>, owner := OwnerIdle, events := events s @ [Pushed x]\<rparr>)
    = abs_deque s\<lparr>items_of := items_of (abs_deque s) @ [x], log := log (abs_deque s) @ [Pushed x]\<rparr>"
proof -
  from inv pc have o: "b = dbottom (deq s)" "load_slot (darray (deq s)) b = Some x" "dtop (deq s) \<le> b"
    by (auto simp: deque_inv_def window_ok_def)
  with pc show ?thesis by (simp add: abs_deque_def window_snoc)
qed

lemma filled_load: "filled a lo hi \<Longrightarrow> lo \<le> i \<Longrightarrow> i < hi \<Longrightarrow> load_slot a i = Some (the (load_slot a i))"
  by (auto simp: filled_def)

lemma sim_pop_slot_take:
  assumes inv: "deque_inv s" and pc: "owner s = PopSlot b t" and ne: "b - t \<noteq> 0"
  shows "spec_step (abs_deque s)
    (abs_deque (s\<lparr>owner := OwnerIdle, events := events s @ [Popped (load_slot (darray (deq s)) b)]\<rparr>))"
proof -
  let ?q = "deq s" and ?x = "the (load_slot (darray (deq s)) b)"
  from inv pc ne have w: "window_ok (b + 1) ?q" and o: "b = dbottom ?q" "dtop ?q \<le> b"
    by (auto simp: deque_inv_def split: if_splits)
  have x: "load_slot (darray ?q) b = Some ?x"
    using w o(2) by (intro filled_load [of _ "dtop ?q" "b + 1"]) (auto simp: window_ok_def)
  have "items_of (abs_deque s) = window (darray ?q) (dtop ?q) b @ [?x]"
    using pc o(2) by (simp add: abs_deque_def window_snoc)
  from spec_pop [OF this] show ?thesis
    using pc x o(1) by (simp add: abs_deque_def)
qed

lemma sim_pop_cas:
  assumes inv: "deque_inv s" and pc: "owner s = PopCas b t r" and cas: "cas_top t (deq s) = (won, q')"
  shows "spec_step (abs_deque s)
    (abs_deque (s\<lparr>deq := q', owner := PopRestore b (if won then r else None)\<rparr>))"
proof (cases "dtop (deq s) = t")
  case False
  with cas pc show ?thesis
    by (intro spec_internalI) (auto simp: cas_top_def abs_deque_def)
next
  case True
  let ?q = "deq s" and ?x = "the (load_slot (darray (deq s)) b)"
  from inv pc True have w: "window_ok (b + 1) ?q" and o: "b = dbottom ?q" "t = b" "r = load_slot (darray ?q) b"
    by (auto simp: deque_inv_def)
  have x: "r = Some ?x"
    using w True o filled_load [of "darray ?q" "dtop ?q" "b + 1" b] by (auto simp: window_ok_def)
  have "items_of (abs_deque s) = [?x]" and "decided (abs_deque s) = None"
    using pc True o by (auto simp: abs_deque_def window_snoc)
  moreover have "won" and q': "q' = ?q\<lparr>dtop := t + 1\<rparr>"
    using cas True by (auto simp: cas_top_def)
  ultimately show ?thesis
    using spec_pop_win [of "abs_deque s" ?x] pc x o by (simp add: abs_deque_def)
qed

lemma sim_pop_restore:
  assumes inv: "deque_inv s" and pc: "owner s = PopRestore b r"
  shows "spec_step (abs_deque s)
    (abs_deque (s\<lparr>deq := (deq s)\<lparr>dbottom := b + 1\<rparr>, owner := OwnerIdle, events := events s @ [Popped r]\<rparr>))"
proof -
  let ?s' = "s\<lparr>deq := (deq s)\<lparr>dbottom := b + 1\<rparr>, owner := OwnerIdle, events := events s @ [Popped r]\<rparr>"
  from inv pc have top: "dtop (deq s) = b + 1" by (auto simp: deque_inv_def)
  show ?thesis
  proof (cases r)
    case None
    with pc top have "items_of (abs_deque s) = []" "decided (abs_deque s) = None"
      "abs_deque ?s' = abs_deque s\<lparr>log := log (abs_deque s) @ [Popped None]\<rparr>"
      by (simp_all add: abs_deque_def)
    with spec_pop_null [of "abs_deque s"] show ?thesis by simp
  next
    case (Some x)
    with pc top have "decided (abs_deque s) = Some x"
      "abs_deque ?s' = abs_deque s\<lparr>decided := None, log := log (abs_deque s) @ [Popped (Some x)]\<rparr>"
      by (simp_all add: abs_deque_def)
    with spec_pop_return [of "abs_deque s" x] show ?thesis by simp
  qed
qed

lemma sim_pop_restore_null:
  assumes inv: "deque_inv s" and pc: "owner s = PopRestoreNull b"
  shows "spec_step (abs_deque s)
    (abs_deque (s\<lparr>deq := (deq s)\<lparr>dbottom := b + 1\<rparr>, owner := OwnerIdle, events := events s @ [Popped None]\<rparr>))"
proof -
  from inv pc have top: "dtop (deq s) = b + 1" by (auto simp: deque_inv_def)
  with pc have "items_of (abs_deque s) = []" "decided (abs_deque s) = None"
    by (simp_all add: abs_deque_def)
  from spec_pop_null [OF this] show ?thesis using pc by (simp add: abs_deque_def)
qed

lemma sim_steal_cas:
  assumes inv: "deque_inv s" and pc: "thieves s i = StealCas t r" and cas: "cas_top t (deq s) = (won, q')"
  shows "spec_step (abs_deque s)
    (abs_deque (set_thief i ThiefIdle s\<lparr>deq := q', events := events s @ [Stolen i (if won then r else None)]\<rparr>))"
proof (cases "dtop (deq s) = t")
  case False
  then have "won = False" "q' = deq s" using cas by (auto simp: cas_top_def)
  with spec_steal_null [of "abs_deque s" i] show ?thesis
    by (simp add: abs_deque_def set_thief_def)
next
  case True
  let ?q = "deq s" and ?l = "lim (owner s) (dbottom (deq s))"
  let ?x = "the (load_slot (darray (deq s)) t)"
  from inv have w: "window_ok ?l ?q" by (simp add: deque_inv_def)
  from inv pc True have lt: "t < ?l" and r: "r = load_slot (darray ?q) t"
    using steal_lim_le_lim [of "owner s" "dbottom ?q"] by (force simp: deque_inv_def dest: spec [of _ i])+
  have x: "r = Some ?x"
    unfolding r using w True lt by (intro filled_load [of _ "dtop ?q" ?l]) (auto simp: window_ok_def)
  have "items_of (abs_deque s) = ?x # window (darray ?q) (t + 1) ?l"
    using True lt by (simp add: abs_deque_def window_Cons)
  moreover have "won" and q': "q' = ?q\<lparr>dtop := t + 1\<rparr>"
    using cas True by (auto simp: cas_top_def)
  ultimately show ?thesis
    using spec_steal [of "abs_deque s" ?x _ i] x by (simp add: abs_deque_def set_thief_def)
qed

lemma sim_owner_step:
  assumes inv: "deque_inv s" and step: "owner_step s = Some s'"
  shows "spec_step (abs_deque s) (abs_deque s')"
proof (cases "owner s")
  case OwnerIdle
  with step show ?thesis by (simp add: owner_step_def)
next
  case (PushTop x b)
  with step show ?thesis by (auto simp: owner_step_def abs_deque_def intro: spec_internal)
next
  case (PushArray x b t)
  with step sim_push_array [OF inv] show ?thesis
    by (auto simp: owner_step_def intro: spec_internalI)
next
  case (PushSlot x b)
  with step sim_push_slot [OF inv] show ?thesis
    by (auto simp: owner_step_def Let_def intro: spec_internalI)
next
  case (PushBottom x b)
  with step sim_push_bottom [OF inv] show ?thesis
    by (auto simp: owner_step_def Let_def intro: spec_push)
next
  case (PopBottom b)
  with step deque_inv_owner_ok [OF inv] show ?thesis
    by (auto simp: owner_step_def abs_deque_def intro: spec_internal)
next
  case (PopTop b)
  with step show ?thesis
    by (auto simp: owner_step_def Let_def abs_deque_def intro: spec_internal)
next
  case (PopRestoreNull b)
  with step sim_pop_restore_null [OF inv] show ?thesis by (auto simp: owner_step_def Let_def)
next
  case (PopSlot b t)
  show ?thesis
  proof (cases "b - t = 0")
    case True
    with PopSlot step show ?thesis by (auto simp: owner_step_def abs_deque_def intro: spec_internal)
  next
    case False
    with PopSlot step sim_pop_slot_take [OF inv PopSlot] show ?thesis
      by (auto simp: owner_step_def)
  qed
next
  case (PopCas b t r)
  with step sim_pop_cas [OF inv] show ?thesis by (auto simp: owner_step_def split: prod.splits)
next
  case (PopRestore b r)
  with step sim_pop_restore [OF inv] show ?thesis by (auto simp: owner_step_def Let_def)
qed

lemma sim_thief_step:
  assumes inv: "deque_inv s" and step: "thief_step i s = Some s'"
  shows "spec_step (abs_deque s) (abs_deque s')"
proof (cases "thieves s i")
  case ThiefIdle
  with step show ?thesis by (simp add: thief_step_def)
next
  case (StealBottom t)
  with step spec_steal_null [of "abs_deque s" i] show ?thesis
    by (auto simp: thief_step_def Let_def abs_deque_def set_thief_def split: if_splits
        intro: spec_internal)
next
  case (StealArray t)
  with step show ?thesis
    by (auto simp: thief_step_def abs_deque_def set_thief_def intro: spec_internal)
next
  case (StealSlot t a)
  with step show ?thesis
    by (auto simp: thief_step_def abs_deque_def set_thief_def intro: spec_internal)
next
  case (StealCas t r)
  with step sim_steal_cas [OF inv StealCas] show ?thesis
    by (auto simp: thief_step_def split: prod.splits)
qed

lemma sim_call:
  "call_push x s = Some s' \<Longrightarrow> abs_deque s' = abs_deque s"
  "call_pop s = Some s' \<Longrightarrow> abs_deque s' = abs_deque s"
  "call_steal i s = Some s' \<Longrightarrow> abs_deque s' = abs_deque s"
  by (auto simp: call_push_def call_pop_def call_steal_def abs_deque_def set_thief_def
      split: owner_pc.splits thief_pc.splits)

lemma deque_step_sim:
  "deque_inv s \<Longrightarrow> deque_step a s = Some s' \<Longrightarrow> spec_step (abs_deque s) (abs_deque s')"
  by (cases a) (auto intro: sim_owner_step sim_thief_step spec_internalI dest: sim_call)

text \<open>Runs of the specification.\<close>

abbreviation spec_init :: "'a spec_deque" where
  "spec_init \<equiv> \<lparr>items_of = [], decided = None, log = []\<rparr>"

lemma abs_init: "abs_deque (init_sys c) = spec_init"
  by (simp add: abs_deque_def init_sys_def init_deque_def)

lemma reach_spec: "deque_reach s \<Longrightarrow> spec_step\<^sup>*\<^sup>* spec_init (abs_deque s)"
proof (induction rule: reach.induct)
  case reach_init
  show ?case by (simp add: abs_init)
next
  case (reach_step s a t)
  then have "spec_step (abs_deque s) (abs_deque t)"
    using deque_step_sim deque_machine.inv_reach by blast
  with reach_step.IH show ?case by simp
qed

text \<open>The tasks handed in and the tasks handed out, from the finished calls.\<close>

fun pushed :: "'a event list \<Rightarrow> 'a multiset" where
  "pushed [] = {#}"
| "pushed (Pushed x # es) = add_mset x (pushed es)"
| "pushed (_ # es) = pushed es"

fun handed_out :: "'a event list \<Rightarrow> 'a multiset" where
  "handed_out [] = {#}"
| "handed_out (Popped r # es) = opt_mset r + handed_out es"
| "handed_out (Stolen i r # es) = opt_mset r + handed_out es"
| "handed_out (_ # es) = handed_out es"

lemma pushed_append [simp]: "pushed (es @ fs) = pushed es + pushed fs"
  by (induction es rule: pushed.induct) auto

lemma handed_out_append [simp]: "handed_out (es @ fs) = handed_out es + handed_out fs"
  by (induction es rule: handed_out.induct) auto

definition conserved :: "'a spec_deque \<Rightarrow> bool" where
  "conserved a \<longleftrightarrow> pushed (log a) = handed_out (log a) + opt_mset (decided a) + mset (items_of a)"

lemma spec_conserved: "spec_step a b \<Longrightarrow> conserved a \<Longrightarrow> conserved b"
  by (induction rule: spec_step.induct) (auto simp: conserved_def)

lemma spec_run_conserved: "spec_step\<^sup>*\<^sup>* a b \<Longrightarrow> conserved a \<Longrightarrow> conserved b"
  by (induction rule: rtranclp_induct) (auto intro: spec_conserved)

section \<open>Calls without interference\<close>

text \<open>
  A call that runs alone gives the result of the sequential operation: the machine is the
  code of \<open>Work_Stealing_Deque\<close> cut into atomic accesses.
\<close>

lemma deque_sys_idle: "owner s = OwnerIdle \<Longrightarrow> s\<lparr>deq := q, owner := OwnerIdle, events := es\<rparr> = s\<lparr>deq := q, events := es\<rparr>"
  by (cases s) simp

lemma solo_push:
  assumes "owner s = OwnerIdle"
  shows "exec deque_step (CallPush x # replicate 4 OwnerStep) s
    = Some (s\<lparr>deq := deque_push x (deq s), events := events s @ [Pushed x]\<rparr>)"
  using assms deque_sys_idle [OF assms]
  by (simp add: numeral_eq_Suc call_push_def owner_step_def Let_def deque_push_eq)

lemma solo_pop:
  assumes "owner s = OwnerIdle"
  shows "exec deque_step
      (CallPop # replicate (if dbottom (deq s) - 1 = dtop (deq s) then 5 else 3) OwnerStep) s
    = Some (s\<lparr>deq := snd (deque_pop (deq s)), events := events s @ [Popped (fst (deque_pop (deq s)))]\<rparr>)"
  using assms deque_sys_idle [OF assms]
  by (cases s)
    (auto simp: numeral_eq_Suc call_pop_def owner_step_def Let_def deque_pop_def cas_top_def)

lemma solo_steal:
  assumes "thieves s i = ThiefIdle"
  shows "exec deque_step
      (CallSteal i # replicate (if dbottom (deq s) \<le> dtop (deq s) then 1 else 4) (ThiefStep i)) s
    = Some (s\<lparr>deq := snd (deque_steal (deq s)), events := events s @ [Stolen i (fst (deque_steal (deq s)))]\<rparr>)"
  using assms
  by (cases s)
    (auto simp: numeral_eq_Suc call_steal_def thief_step_def set_thief_def Let_def deque_steal_def
      cas_top_def fun_upd_idem)

section \<open>Bounded calls\<close>

text \<open>The number of own steps that a call in progress can still take.\<close>

fun owner_rank :: "'a owner_pc \<Rightarrow> nat" where
  "owner_rank OwnerIdle = 0"
| "owner_rank (PushTop _ _) = 4"
| "owner_rank (PushArray _ _ _) = 3"
| "owner_rank (PushSlot _ _) = 2"
| "owner_rank (PushBottom _ _) = 1"
| "owner_rank (PopBottom _) = 5"
| "owner_rank (PopTop _) = 4"
| "owner_rank (PopRestoreNull _) = 1"
| "owner_rank (PopSlot _ _) = 3"
| "owner_rank (PopCas _ _ _) = 2"
| "owner_rank (PopRestore _ _) = 1"

fun thief_rank :: "'a thief_pc \<Rightarrow> nat" where
  "thief_rank ThiefIdle = 0"
| "thief_rank (StealBottom _) = 4"
| "thief_rank (StealArray _) = 3"
| "thief_rank (StealSlot _ _) = 2"
| "thief_rank (StealCas _ _) = 1"

lemma owner_rank_step: "owner_step s = Some s' \<Longrightarrow> owner_rank (owner s') < owner_rank (owner s)"
  by (auto simp: owner_step_def Let_def split: owner_pc.splits prod.splits if_splits)

lemma thief_rank_step: "thief_step i s = Some s' \<Longrightarrow> thief_rank (thieves s' i) < thief_rank (thieves s i)"
  by (auto simp: thief_step_def set_thief_def Let_def split: thief_pc.splits prod.splits if_splits)

lemma owner_enabled: "owner s \<noteq> OwnerIdle \<Longrightarrow> owner_step s \<noteq> None"
  by (auto simp: owner_step_def Let_def split: owner_pc.splits prod.splits)

lemma thief_enabled: "thieves s i \<noteq> ThiefIdle \<Longrightarrow> thief_step i s \<noteq> None"
  by (auto simp: thief_step_def Let_def split: thief_pc.splits prod.splits)

lemma other_keeps_owner:
  "deque_step a s = Some s' \<Longrightarrow> a \<noteq> OwnerStep \<Longrightarrow> \<forall>x. a \<noteq> CallPush x \<Longrightarrow> a \<noteq> CallPop \<Longrightarrow> owner s' = owner s"
  by (cases a)
    (auto simp: call_steal_def thief_step_def set_thief_def Let_def
      split: thief_pc.splits prod.splits if_splits)

lemma owner_keeps_thieves:
  "owner_step s = Some s' \<Longrightarrow> thieves s' = thieves s"
  by (auto simp: owner_step_def Let_def split: owner_pc.splits prod.splits if_splits)

lemma other_keeps_thief:
  "deque_step a s = Some s' \<Longrightarrow> a \<noteq> ThiefStep i \<Longrightarrow> a \<noteq> CallSteal i \<Longrightarrow> thieves s' i = thieves s i"
  by (cases a)
    (auto simp: owner_keeps_thieves call_push_def call_pop_def call_steal_def thief_step_def set_thief_def
      Let_def split: owner_pc.splits thief_pc.splits prod.splits if_splits)

definition no_owner_call :: "'a action list \<Rightarrow> bool" where
  "no_owner_call as \<longleftrightarrow> (\<forall>a \<in> set as. a \<noteq> CallPop \<and> (\<forall>x. a \<noteq> CallPush x))"

lemma owner_steps_bounded:
  "exec deque_step as s = Some s' \<Longrightarrow> no_owner_call as \<Longrightarrow>
     length (filter (\<lambda>a. a = OwnerStep) as) + owner_rank (owner s') \<le> owner_rank (owner s)"
proof (induction as arbitrary: s)
  case Nil
  then show ?case by simp
next
  case (Cons a as)
  then obtain s1 where s1: "deque_step a s = Some s1" "exec deque_step as s1 = Some s'"
    by (auto split: option.splits)
  have "length (filter (\<lambda>a. a = OwnerStep) as) + owner_rank (owner s') \<le> owner_rank (owner s1)"
    using Cons.IH [OF s1(2)] Cons.prems(2) by (simp add: no_owner_call_def)
  moreover have "(if a = OwnerStep then 1 else 0) + owner_rank (owner s1) \<le> owner_rank (owner s)"
    using s1(1) Cons.prems(2) owner_rank_step [of s s1] other_keeps_owner [of a s s1]
    by (auto simp: no_owner_call_def)
  ultimately show ?case by (auto split: if_splits)
qed

lemma thief_steps_bounded:
  "exec deque_step as s = Some s' \<Longrightarrow> CallSteal i \<notin> set as \<Longrightarrow>
     length (filter (\<lambda>a. a = ThiefStep i) as) + thief_rank (thieves s' i) \<le> thief_rank (thieves s i)"
proof (induction as arbitrary: s)
  case Nil
  then show ?case by simp
next
  case (Cons a as)
  then obtain s1 where s1: "deque_step a s = Some s1" "exec deque_step as s1 = Some s'"
    by (auto split: option.splits)
  have "length (filter (\<lambda>a. a = ThiefStep i) as) + thief_rank (thieves s' i) \<le> thief_rank (thieves s1 i)"
    using Cons.IH [OF s1(2)] Cons.prems(2) by simp
  moreover have "(if a = ThiefStep i then 1 else 0) + thief_rank (thieves s1 i) \<le> thief_rank (thieves s i)"
    using s1(1) Cons.prems(2) thief_rank_step [of i s s1] other_keeps_thief [of a s s1 i]
    by auto
  ultimately show ?case by (auto split: if_splits)
qed

section \<open>Index bounds\<close>

text \<open>Indices and capacities are bounded by the number of finished pushes.\<close>

definition pushes :: "'a deque_sys \<Rightarrow> int" where
  "pushes s = int (size (pushed (events s)))"

definition indices_bounded :: "'a deque_sys \<Rightarrow> bool" where
  "indices_bounded s \<longleftrightarrow>
     lim (owner s) (dbottom (deq s)) \<le> pushes s \<and>
     capacity (darray (deq s)) \<le> max default_capacity (2 * pushes s + 2)"

definition bounds_inv :: "'a deque_sys \<Rightarrow> bool" where
  "bounds_inv s \<longleftrightarrow> deque_inv s \<and> indices_bounded s"

lemma capacity_ensure_room:
  assumes "ca_wf (darray q)"
  shows "capacity (darray (ensure_room b t q)) \<le> max (capacity (darray q)) (2 * (b - t) + 2)"
  using grow_wf [OF assms, of b t] by (auto simp: ensure_room_def Let_def)

lemma bounds_owner_step:
  assumes "bounds_inv s" and "owner_step s = Some s'"
  shows "indices_bounded s'"
proof (cases "owner s")
  case (PushArray x b t)
  have "0 \<le> t" "b = dbottom (deq s)" "ca_wf (darray (deq s))"
    using assms PushArray by (auto simp: bounds_inv_def deque_inv_def window_ok_def)
  with assms PushArray capacity_ensure_room [of "deq s" b t] show ?thesis
    by (auto simp: bounds_inv_def indices_bounded_def owner_step_def pushes_def)
qed (use assms in \<open>auto simp: bounds_inv_def indices_bounded_def owner_step_def pushes_def Let_def
      cas_top_def dest: deque_inv_owner_ok split: if_splits\<close>)

lemma bounds_thief_step:
  assumes "bounds_inv s" and "thief_step i s = Some s'"
  shows "indices_bounded s'"
proof -
  have "pushes s \<le> pushes s' \<and> owner s' = owner s \<and> dbottom (deq s') = dbottom (deq s)
      \<and> darray (deq s') = darray (deq s)"
    using assms(2)
    by (auto simp: thief_step_def pushes_def set_thief_def Let_def cas_top_def
        split: thief_pc.splits if_splits)
  with assms(1) show ?thesis by (auto simp: bounds_inv_def indices_bounded_def)
qed

lemma bounds_call:
  "bounds_inv s \<Longrightarrow> call_push x s = Some s' \<Longrightarrow> indices_bounded s'"
  "bounds_inv s \<Longrightarrow> call_pop s = Some s' \<Longrightarrow> indices_bounded s'"
  "bounds_inv s \<Longrightarrow> call_steal i s = Some s' \<Longrightarrow> indices_bounded s'"
  by (auto simp: call_push_def call_pop_def call_steal_def bounds_inv_def indices_bounded_def
      pushes_def set_thief_def split: owner_pc.splits thief_pc.splits)

lemma bounds_step:
  assumes "bounds_inv s" and "deque_step a s = Some s'"
  shows "bounds_inv s'"
proof -
  have "deque_inv s'" using assms by (auto simp: bounds_inv_def intro: deque_inv_step)
  moreover have "indices_bounded s'"
    using assms by (cases a) (auto intro: bounds_owner_step bounds_thief_step bounds_call)
  ultimately show ?thesis by (simp add: bounds_inv_def)
qed

interpretation deque_bounds: invariant_system "init_sys default_capacity" deque_step bounds_inv
proof unfold_locales
  show "bounds_inv (init_sys default_capacity :: 'a deque_sys)"
    using deque_inv_init [of default_capacity]
    by (auto simp: bounds_inv_def indices_bounded_def init_sys_def init_deque_def pushes_def)
qed (rule bounds_step)

section \<open>Properties\<close>

text \<open>
  Concrete runs for the witnesses: one finished push, and a race of the owner and a thief
  for the only task, which the thief wins between the owner's load of \<open>top_\<close> and its
  exchange.
\<close>

abbreviation one_push :: "nat \<Rightarrow> nat action list" where
  "one_push x \<equiv> CallPush x # replicate 4 OwnerStep"

definition race :: "nat action list" where
  "race = one_push 5 @
     [CallSteal 0, ThiefStep 0, ThiefStep 0, ThiefStep 0, CallPop, OwnerStep, OwnerStep, OwnerStep,
      ThiefStep 0, OwnerStep]"

definition after_push :: "nat deque_sys" where
  "after_push = (init_sys default_capacity)
     \<lparr>deq := deque_push 5 (init_deque default_capacity), events := [Pushed 5]\<rparr>"

definition after_race :: "nat deque_sys" where
  "after_race = (init_sys default_capacity)
     \<lparr>deq := (deque_push 5 (init_deque default_capacity))\<lparr>dtop := 1, dbottom := 0\<rparr>,
      owner := PopRestore 0 None, events := [Pushed 5, Stolen 0 (Some 5)]\<rparr>"

lemma exec_one_push: "exec deque_step (one_push 5) (init_sys default_capacity) = Some after_push"
  using solo_push [of "init_sys default_capacity" 5]
  by (simp add: init_sys_def after_push_def)

lemma after_push_deq:
  "dtop (deq after_push) = 0" "dbottom (deq after_push) = 1"
  "load_slot (darray (deq after_push)) 0 = Some 5"
  "owner after_push = OwnerIdle" "thieves after_push = (\<lambda>_. ThiefIdle)"
  "events after_push = [Pushed 5]"
  by (simp_all add: after_push_def init_sys_def deque_push_eq init_deque_def ensure_room_def Let_def
      load_store_same)

lemma exec_race: "exec deque_step race (init_sys default_capacity) = Some after_race"
proof -
  have "exec deque_step
      [CallSteal 0, ThiefStep 0, ThiefStep 0, ThiefStep 0, CallPop, OwnerStep, OwnerStep, OwnerStep,
       ThiefStep 0, OwnerStep] after_push = Some after_race"
    by (simp add: call_steal_def thief_step_def set_thief_def call_pop_def owner_step_def Let_def
        cas_top_def after_push_deq)
      (simp add: after_race_def after_push_def init_sys_def fun_upd_idem)
  then show ?thesis
    unfolding race_def by (simp only: exec_append exec_one_push option.case)
qed

lemma reach_after_push: "deque_reach after_push"
  using exec_one_push by (rule exec_reach)

lemma reach_after_race: "deque_reach after_race"
  using exec_race by (rule exec_reach)

text \<open>
  C1. Linearisation. In every reachable state, every atomic access of the owner or of any
  thief is a step of the atomic specification: it changes nothing that the specification
  sees, or it is the single step at which a \<open>push\<close> appends its task, a \<open>pop\<close> removes the last
  task, or a \<open>steal\<close> removes the first one, with the results that the calls report.
\<close>

theorem deque_linearises:
  assumes "deque_reach s" and "deque_step a s = Some s'"
  shows "spec_step (abs_deque s) (abs_deque s')"
  using assms deque_machine.inv_reach deque_step_sim by blast

theorem deque_linearises_witness:
  "\<exists>s'. deque_step OwnerStep after_race = Some s' \<and> spec_step (abs_deque after_race) (abs_deque s')"
proof -
  have "owner_step after_race \<noteq> None"
    by (rule owner_enabled) (simp add: after_race_def)
  then obtain s' where "deque_step OwnerStep after_race = Some s'" by auto
  with deque_linearises [OF reach_after_race] show ?thesis by blast
qed

text \<open>
  No task is lost and none is handed out twice. In every reachable state of one owner
  and any number of thieves, the tasks pushed by finished calls are exactly the tasks
  returned by finished \<open>pop\<close> and \<open>steal\<close> calls, a task that \<open>pop\<close> has won and is about to
  return, and the tasks still in the deque, as multisets.
\<close>

lemma deque_conserves_tasks:
  assumes "deque_reach s"
  shows "pushed (events s) = handed_out (events s) + opt_mset (decided_of (owner s))
    + mset (window (darray (deq s)) (dtop (deq s)) (lim (owner s) (dbottom (deq s))))"
proof -
  have "conserved (abs_deque s)"
    using spec_run_conserved [OF reach_spec [OF assms]] by (simp add: conserved_def)
  then show ?thesis by (simp add: conserved_def abs_deque_def)
qed

text \<open>
  \<open>pop\<close> reports an empty deque only when it is empty: at the step at which a \<open>pop\<close>
  returns null there is no task in the deque, although thieves run concurrently.
\<close>

lemma pop_null_only_if_empty:
  assumes "deque_reach s" and "owner_step s = Some s'" and "events s' = events s @ [Popped None]"
  shows "items_of (abs_deque s) = [] \<and> items_of (abs_deque s') = []"
proof -
  have "spec_step (abs_deque s) (abs_deque s')"
    using assms sim_owner_step deque_machine.inv_reach by blast
  then show ?thesis using assms(3)
    by (cases rule: spec_step.cases) (auto simp: abs_deque_sel dest: arg_cong [of _ _ log])
qed



text \<open>
  C39. No signed overflow. As long as fewer than \<open>2 ^ 60\<close> pushes have finished, every index
  the deque stores or computes (\<open>top_\<close>, \<open>bottom_\<close>, their successors and predecessors, the
  differences in the size tests) and the doubled capacity fit into \<open>std::int64_t\<close>.
\<close>

theorem deque_indices_int64:
  assumes "deque_reach s" and "size (pushed (events s)) < 2 ^ 60"
  shows "int64 (dtop (deq s) + 1) \<and> int64 (dbottom (deq s) - 1) \<and> int64 (dbottom (deq s) + 1)
    \<and> int64 (dbottom (deq s) - dtop (deq s)) \<and> int64 (capacity (darray (deq s)) * 2)
    \<and> (\<forall>i t. thieves s i = StealBottom t \<longrightarrow> int64 (dbottom (deq s) - t))
    \<and> (\<forall>x b t. owner s = PushArray x b t \<longrightarrow> int64 (b - t))
    \<and> (\<forall>b t. owner s = PopSlot b t \<longrightarrow> int64 (b - t))"
proof -
  let ?q = "deq s" and ?l = "lim (owner s) (dbottom (deq s))"
  have inv: "deque_inv s" and bd: "indices_bounded s"
    using deque_bounds.inv_reach [OF assms(1)] by (auto simp: bounds_inv_def)
  have n: "pushes s < 2 ^ 60" using assms(2) by (simp add: pushes_def)
  have top: "0 \<le> dtop ?q" "dtop ?q \<le> ?l" using window_okD [OF inv] by auto
  have l: "?l \<le> pushes s" and cap: "capacity (darray ?q) \<le> max default_capacity (2 * pushes s + 2)"
    using bd by (auto simp: indices_bounded_def)
  have bot: "dbottom ?q \<le> ?l" "?l - 1 \<le> dbottom ?q"
    using deque_inv_owner_ok [OF inv] by (cases "owner s"; auto)+
  have cap0: "1 \<le> capacity (darray ?q)" using inv ca_wf_capacity by (auto simp: deque_inv_def window_ok_def)
  have th: "0 \<le> t \<and> t \<le> dtop ?q" if "thieves s i = StealBottom t" for i t
    using inv that by (force simp: deque_inv_def dest: spec [of _ i])
  have "\<forall>x b t. owner s = PushArray x b t \<longrightarrow> b = dbottom ?q \<and> 0 \<le> t \<and> t \<le> dtop ?q"
    and "\<forall>b t. owner s = PopSlot b t \<longrightarrow> b = dbottom ?q \<and> 0 \<le> t \<and> t \<le> dtop ?q"
    using deque_inv_owner_ok [OF inv] by auto
  with n top l cap cap0 bot show ?thesis by (auto simp: int64_def dest!: th)
qed

theorem deque_indices_int64_witness:
  "int64 (dbottom (deq after_push) + 1)"
  using deque_indices_int64 [OF reach_after_push] by (simp add: after_push_deq)



text \<open>
  The machine runs the code of the sequential operations: a call that is not
  interrupted ends in the state and with the result of \<open>push\<close>, \<open>pop\<close> and \<open>steal\<close> as they are
  written in the class.
\<close>

lemma solo_calls:
  assumes "owner s = OwnerIdle" and "thieves s i = ThiefIdle"
  shows "exec deque_step (CallPush x # replicate 4 OwnerStep) s
      = Some (s\<lparr>deq := deque_push x (deq s), events := events s @ [Pushed x]\<rparr>)
    \<and> exec deque_step
        (CallPop # replicate (if dbottom (deq s) - 1 = dtop (deq s) then 5 else 3) OwnerStep) s
      = Some (s\<lparr>deq := snd (deque_pop (deq s)), events := events s @ [Popped (fst (deque_pop (deq s)))]\<rparr>)
    \<and> exec deque_step
        (CallSteal i # replicate (if dbottom (deq s) \<le> dtop (deq s) then 1 else 4) (ThiefStep i)) s
      = Some (s\<lparr>deq := snd (deque_steal (deq s)), events := events s @ [Stolen i (fst (deque_steal (deq s)))]\<rparr>)"
  by (intro conjI solo_push solo_pop solo_steal assms)

end
