(* ===== verification/Deque_TSO.thy ===== *)
theory Deque_TSO
  imports Deque_Concurrent
begin

text \<open>
  \<open>work_stealing_deque\<close> on hardware with store buffers. The stores of the owner into slots
  (\<open>relaxed\<close>) and to \<open>array_\<close> (\<open>release\<close>) are buffered and reach the memory later, in order; its
  stores to \<open>bottom_\<close> and all exchanges are \<open>seq_cst\<close> and drain the buffer. Thieves store only by
  exchanges. The order of the store to \<open>bottom_\<close> at the beginning of \<open>pop\<close> is a parameter of the
  machine; the source uses \<open>pop_order\<close>.
\<close>

section \<open>The machine\<close>

definition pop_order :: mem_order where "pop_order = SeqCst"

text \<open>
  A buffered store. \<open>ArrayStore\<close> publishes a new array, whose own slots are not visible before; the
  value of \<open>top_\<close> that it was grown for is only recorded.
\<close>

datatype 'a dstore = ArrayStore int "'a circular_array" | SlotStore int 'a | BottomStore int

record 'a tso_deque =
  shared :: "'a deque_sys"
  pending :: "'a dstore list"

definition tso_deque_init :: "'a tso_deque" where
  "tso_deque_init = \<lparr>shared = init_sys default_capacity, pending = []\<rparr>"

fun dcommit :: "'a dstore \<Rightarrow> 'a work_stealing_deque \<Rightarrow> 'a work_stealing_deque" where
  "dcommit (ArrayStore t a) q = q\<lparr>dhistory := dhistory q @ [darray q], darray := a\<rparr>"
| "dcommit (SlotStore b x) q = q\<lparr>darray := store_slot (darray q) b (Some x)\<rparr>"
| "dcommit (BottomStore b) q = q\<lparr>dbottom := b\<rparr>"

text \<open>What the owner sees: the memory after its own stores.\<close>

definition own_view :: "'a tso_deque \<Rightarrow> 'a work_stealing_deque" where
  "own_view s = fold dcommit (pending s) (deq (shared s))"

definition set_owner :: "'a owner_pc \<Rightarrow> 'a tso_deque \<Rightarrow> 'a tso_deque" where
  "set_owner pc s = s\<lparr>shared := (shared s)\<lparr>owner := pc\<rparr>\<rparr>"

text \<open>A step that needs an empty buffer.\<close>

definition drained_step :: "'a tso_deque \<Rightarrow> 'a tso_deque option" where
  "drained_step s = (if pending s = [] then map_option (\<lambda>u. s\<lparr>shared := u\<rparr>) (owner_step (shared s)) else None)"

definition tso_owner_step :: "mem_order \<Rightarrow> 'a tso_deque \<Rightarrow> 'a tso_deque option" where
  "tso_owner_step ord s =
     (let q = own_view s in
      case owner (shared s) of
        PushTop x b \<Rightarrow> Some (set_owner (PushArray x b (dtop q)) s)
      | PushArray x b t \<Rightarrow>
          (let a = darray q; sz = b - t in
           if sz \<ge> capacity a - 1
           then Some (set_owner (PushSlot x b) s\<lparr>pending := pending s @ [ArrayStore t (grow a b t)]\<rparr>)
           else Some (set_owner (PushSlot x b) s))
      | PushSlot x b \<Rightarrow> Some (set_owner (PushBottom x b) s\<lparr>pending := pending s @ [SlotStore b x]\<rparr>)
      | PopBottom b \<Rightarrow>
          (case ord of
             SeqCst \<Rightarrow> drained_step s
           | Release \<Rightarrow> Some (set_owner (PopTop b) s\<lparr>pending := pending s @ [BottomStore b]\<rparr>))
      | PopTop b \<Rightarrow>
          (let t = dtop q; sz = b - t in
           Some (set_owner (if sz < 0 then PopRestoreNull b else PopSlot b t) s))
      | PopSlot b t \<Rightarrow>
          (let task = load_slot (darray q) b; sz = b - t in
           if sz = 0 then Some (set_owner (PopCas b t task) s)
           else Some (s\<lparr>shared := (shared s)\<lparr>owner := OwnerIdle, events := events (shared s) @ [Popped task]\<rparr>\<rparr>))
      | _ \<Rightarrow> drained_step s)"

text \<open>The first load of \<open>push\<close> and \<open>pop\<close> is of \<open>bottom_\<close>, as the owner sees it.\<close>

definition tso_call_push :: "'a \<Rightarrow> 'a tso_deque \<Rightarrow> 'a tso_deque option" where
  "tso_call_push x s =
     (if owner (shared s) = OwnerIdle then Some (set_owner (PushTop x (dbottom (own_view s))) s) else None)"

definition tso_call_pop :: "'a tso_deque \<Rightarrow> 'a tso_deque option" where
  "tso_call_pop s =
     (if owner (shared s) = OwnerIdle then Some (set_owner (PopBottom (dbottom (own_view s) - 1)) s) else None)"

datatype 'a tso_daction = DAct "'a action" | Drain

fun tso_deque_step :: "mem_order \<Rightarrow> 'a tso_daction \<Rightarrow> 'a tso_deque \<Rightarrow> 'a tso_deque option" where
  "tso_deque_step ord (DAct (CallPush x)) s = tso_call_push x s"
| "tso_deque_step ord (DAct CallPop) s = tso_call_pop s"
| "tso_deque_step ord (DAct OwnerStep) s = tso_owner_step ord s"
| "tso_deque_step ord (DAct (CallSteal i)) s = map_option (\<lambda>u. s\<lparr>shared := u\<rparr>) (call_steal i (shared s))"
| "tso_deque_step ord (DAct (ThiefStep i)) s = map_option (\<lambda>u. s\<lparr>shared := u\<rparr>) (thief_step i (shared s))"
| "tso_deque_step ord Drain s =
     (case pending s of
        [] \<Rightarrow> None
      | w # ws \<Rightarrow> Some (s\<lparr>pending := ws, shared := (shared s)\<lparr>deq := dcommit w (deq (shared s))\<rparr>\<rparr>))"

section \<open>Simulation by the sequentially consistent machine\<close>

text \<open>
  A store takes effect when it leaves the buffer: until then the owner of the simulating
  machine stands before the store.
\<close>

fun pull_back :: "'a dstore list \<Rightarrow> 'a owner_pc \<Rightarrow> 'a owner_pc" where
  "pull_back (ArrayStore t a # ws) (PushSlot x b) = PushArray x b t"
| "pull_back (ArrayStore t a # ws) (PushBottom x b) = PushArray x b t"
| "pull_back (SlotStore b' y # ws) (PushBottom x b) = PushSlot x b"
| "pull_back ws pc = pc"

definition sc_view :: "'a tso_deque \<Rightarrow> 'a deque_sys" where
  "sc_view s = (shared s)\<lparr>owner := pull_back (pending s) (owner (shared s))\<rparr>"

text \<open>What can be in the buffer where the owner stands.\<close>

definition grown :: "'a circular_array \<Rightarrow> int \<Rightarrow> 'a dstore list \<Rightarrow> bool" where
  "grown a b ws \<longleftrightarrow> ws = [] \<or> (\<exists>t. b - t \<ge> capacity a - 1 \<and> ws = [ArrayStore t (grow a b t)])"

fun pending_ok :: "'a circular_array \<Rightarrow> 'a owner_pc \<Rightarrow> 'a dstore list \<Rightarrow> bool" where
  "pending_ok a (PushSlot x b) ws = grown a b ws"
| "pending_ok a (PushBottom x b) ws = (ws = [] \<or> (\<exists>vs. ws = vs @ [SlotStore b x] \<and> grown a b vs))"
| "pending_ok a _ ws = (ws = [])"

definition tso_inv :: "'a tso_deque \<Rightarrow> bool" where
  "tso_inv s \<longleftrightarrow> pending_ok (darray (deq (shared s))) (owner (shared s)) (pending s)"

lemma pending_nil: "pull_back [] pc = pc"
  by (cases pc) simp_all

lemma sc_view_nil: "pending s = [] \<Longrightarrow> sc_view s = shared s"
  by (simp add: sc_view_def pending_nil)

lemma tso_thief:
  assumes "thief_step i (shared s) = Some u \<or> call_steal i (shared s) = Some u"
  shows "owner u = owner (shared s) \<and> darray (deq u) = darray (deq (shared s))"
  using assms
  by (auto simp: thief_step_def call_steal_def set_thief_def cas_top_def Let_def
      split: thief_pc.splits if_splits)

lemma thief_view:
  "thief_step i (s\<lparr>owner := pc\<rparr>) = map_option (\<lambda>u. u\<lparr>owner := pc\<rparr>) (thief_step i s)"
  "call_steal i (s\<lparr>owner := pc\<rparr>) = map_option (\<lambda>u. u\<lparr>owner := pc\<rparr>) (call_steal i s)"
  by (auto simp: thief_step_def call_steal_def set_thief_def cas_top_def Let_def split: thief_pc.splits)

lemma drained_sim:
  assumes "tso_inv s" and "drained_step s = Some t"
    and "\<And>x b t. owner (shared s) \<notin> {PushTop x b, PushArray x b t, PushSlot x b}"
  shows "tso_inv t \<and> owner_step (sc_view s) = Some (sc_view t)"
  using assms
  by (cases "owner (shared s)")
    (auto simp: drained_step_def sc_view_nil tso_inv_def owner_step_def cas_top_def Let_def split: if_splits)

lemma owner_sim:
  assumes inv: "tso_inv s" and step: "tso_owner_step SeqCst s = Some t"
  shows "tso_inv t \<and> (sc_view t = sc_view s \<or> owner_step (sc_view s) = Some (sc_view t))"
proof (cases "owner (shared s)")
  case (PushArray x b u)
  then show ?thesis
    using assms
    by (auto simp: tso_owner_step_def tso_inv_def grown_def set_owner_def own_view_def sc_view_def
        owner_step_def ensure_room_def Let_def split: if_splits)
next
  case (PushSlot x b)
  then show ?thesis
    using assms
    by (auto simp: tso_owner_step_def tso_inv_def grown_def set_owner_def sc_view_def Let_def)
next
  case (PushTop x b)
  then show ?thesis
    using assms
    by (auto simp: tso_owner_step_def tso_inv_def set_owner_def own_view_def sc_view_def owner_step_def Let_def)
next
  case (PopTop b)
  then show ?thesis
    using assms
    by (auto simp: tso_owner_step_def tso_inv_def set_owner_def own_view_def sc_view_def owner_step_def Let_def)
next
  case (PopSlot b u)
  then show ?thesis
    using assms
    by (auto simp: tso_owner_step_def tso_inv_def set_owner_def own_view_def sc_view_def owner_step_def Let_def
        split: if_splits)
qed (use drained_sim [OF inv] step in \<open>force simp: tso_owner_step_def Let_def\<close>)+

lemma drain_sim:
  assumes inv: "tso_inv s" and w: "pending s = w # ws"
  defines "t \<equiv> s\<lparr>pending := ws, shared := (shared s)\<lparr>deq := dcommit w (deq (shared s))\<rparr>\<rparr>"
  shows "tso_inv t \<and> owner_step (sc_view s) = Some (sc_view t)"
proof (cases "owner (shared s)")
  case (PushSlot x b)
  then show ?thesis
    using inv w
    by (auto simp: t_def tso_inv_def grown_def sc_view_def owner_step_def ensure_room_def Let_def)
next
  case (PushBottom x b)
  then show ?thesis
    using inv w
    by (auto simp: t_def tso_inv_def grown_def sc_view_def owner_step_def ensure_room_def Let_def)
qed (use inv w in \<open>auto simp: tso_inv_def\<close>)

lemma tso_deque_sim:
  assumes inv: "tso_inv s" and step: "tso_deque_step SeqCst act s = Some t"
  shows "tso_inv t \<and> (sc_view t = sc_view s \<or> (\<exists>a. deque_step a (sc_view s) = Some (sc_view t)))"
proof (cases act)
  case Drain
  with step obtain w ws where w: "pending s = w # ws" by (auto split: list.splits)
  have "owner_step (sc_view s) = Some (sc_view t)" "tso_inv t"
    using drain_sim [OF inv w] step Drain w by auto
  then show ?thesis by (auto intro: exI [of _ OwnerStep])
next
  case (DAct a)
  show ?thesis
  proof (cases a)
    case OwnerStep
    with DAct step owner_sim [OF inv] show ?thesis by (auto intro: exI [of _ OwnerStep])
  next
    case (CallPush x)
    with DAct step inv have "deque_step (CallPush x) (sc_view s) = Some (sc_view t)" "tso_inv t"
      by (auto simp: tso_call_push_def tso_inv_def set_owner_def own_view_def sc_view_def call_push_def
          split: if_splits)
    then show ?thesis by blast
  next
    case CallPop
    with DAct step inv have "deque_step CallPop (sc_view s) = Some (sc_view t)" "tso_inv t"
      by (auto simp: tso_call_pop_def tso_inv_def set_owner_def own_view_def sc_view_def call_pop_def
          split: if_splits)
    then show ?thesis by blast
  next
    case (CallSteal i)
    with DAct step obtain u where u: "call_steal i (shared s) = Some u" "t = s\<lparr>shared := u\<rparr>" by auto
    with tso_thief [of i s u] inv
    have "deque_step (CallSteal i) (sc_view s) = Some (sc_view t)" "tso_inv t"
      by (simp_all add: tso_inv_def sc_view_def thief_view)
    then show ?thesis by blast
  next
    case (ThiefStep i)
    with DAct step obtain u where u: "thief_step i (shared s) = Some u" "t = s\<lparr>shared := u\<rparr>" by auto
    with tso_thief [of i s u] inv
    have "deque_step (ThiefStep i) (sc_view s) = Some (sc_view t)" "tso_inv t"
      by (simp_all add: tso_inv_def sc_view_def thief_view)
    then show ?thesis by blast
  qed
qed

interpretation tso_deque: refinement tso_deque_init "tso_deque_step SeqCst" tso_inv sc_view deque_step
proof
  show "tso_inv tso_deque_init" by (simp add: tso_inv_def tso_deque_init_def init_sys_def)
qed (use tso_deque_sim in blast)+

lemma sc_view_init: "sc_view tso_deque_init = init_sys default_capacity"
  by (simp add: sc_view_nil tso_deque_init_def)

section \<open>Properties\<close>

lemma sc_view_sel: "events (sc_view s) = events (shared s)" "deq (sc_view s) = deq (shared s)"
  by (simp_all add: sc_view_def)

lemma tso_conserved:
  assumes "exec (tso_deque_step SeqCst) as tso_deque_init = Some s"
  shows "deque_reach (sc_view s) \<and> spec_step\<^sup>*\<^sup>* spec_init (abs_deque (sc_view s)) \<and>
    conserved (abs_deque (sc_view s)) \<and> log (abs_deque (sc_view s)) = events (shared s)"
proof -
  have r: "deque_reach (sc_view s)" using tso_deque.refines [OF assms] by (simp add: sc_view_init)
  from reach_spec [OF r] spec_run_conserved [OF reach_spec [OF r]] show ?thesis
    by (simp add: r conserved_def abs_deque_sel(3) sc_view_sel)
qed

text \<open>
  C7. The memory orders of the deque are strong enough for hardware with store buffers: every
  execution with buffered stores is an execution of the sequentially consistent machine in which
  a store happens when it leaves the buffer. So it is an execution of the atomic list with
  the same results, and no task is lost or handed out twice.
\<close>

theorem deque_on_tso:
  assumes "exec (tso_deque_step pop_order) as tso_deque_init = Some s"
  shows "deque_reach (sc_view s) \<and> events (sc_view s) = events (shared s) \<and> deq (sc_view s) = deq (shared s) \<and>
    spec_step\<^sup>*\<^sup>* spec_init (abs_deque (sc_view s)) \<and>
    pushed (events (shared s)) = handed_out (events (shared s)) + opt_mset (decided (abs_deque (sc_view s)))
      + mset (items_of (abs_deque (sc_view s)))"
  using tso_conserved [of as s] assms by (simp add: pop_order_def conserved_def sc_view_sel abs_deque_sel(3))

text \<open>A push without growth, with its slot drained just before the store to \<open>bottom_\<close>.\<close>

abbreviation tso_push :: "'a \<Rightarrow> 'a tso_daction list" where
  "tso_push x \<equiv> [DAct (CallPush x), DAct OwnerStep, DAct OwnerStep, DAct OwnerStep, Drain, DAct OwnerStep]"

lemma exec_tso_push:
  assumes "pending s = []" and "owner (shared s) = OwnerIdle"
    and "dbottom (deq (shared s)) - dtop (deq (shared s)) < capacity (darray (deq (shared s))) - 1"
  shows "exec (tso_deque_step ord) (tso_push x) s
    = Some (s\<lparr>shared := (shared s)\<lparr>deq := deque_push x (deq (shared s)), events := events (shared s) @ [Pushed x]\<rparr>\<rparr>)"
  using assms deque_sys_idle [OF assms(2)]
  by (simp add: tso_call_push_def tso_owner_step_def set_owner_def own_view_def drained_step_def owner_step_def
      deque_push_eq ensure_room_def Let_def)

text \<open>Two tasks, and the state in which both are stored.\<close>

definition two_tasks :: "nat work_stealing_deque" where
  "two_tasks = deque_push 6 (deque_push 5 (init_deque default_capacity))"

lemma two_tasks_sel:
  "dtop two_tasks = 0" "dbottom two_tasks = 2"
  "load_slot (darray two_tasks) 0 = Some 5" "load_slot (darray two_tasks) 1 = Some 6"
proof -
  let ?a = "new_circular_array default_capacity :: nat circular_array"
  have wf: "ca_wf ?a" "ca_wf (store_slot ?a 0 (Some 5))" by simp_all
  have "capacity (store_slot ?a 0 (Some 5)) = 1024" by (simp add: store_slot_def new_circular_array_def)
  then have eq: "two_tasks = \<lparr>dtop = 0, dbottom = 2,
      darray = store_slot (store_slot ?a 0 (Some 5)) 1 (Some 6), dhistory = []\<rparr>"
    by (simp add: two_tasks_def deque_push_eq init_deque_def ensure_room_def Let_def new_circular_array_def)
  show "dtop two_tasks = 0" "dbottom two_tasks = 2" by (simp_all add: eq)
  show "load_slot (darray two_tasks) 1 = Some 6" using load_store_same [OF wf(2)] by (simp add: eq)
  show "load_slot (darray two_tasks) 0 = Some 5"
    using load_store_other [OF wf(2), of 1 0] load_store_same [OF wf(1)]
      \<open>capacity (store_slot ?a 0 (Some 5)) = 1024\<close> by (simp add: eq)
qed

lemma exec_two_tasks:
  "exec (tso_deque_step ord) (tso_push 5 @ tso_push 6) tso_deque_init
   = Some \<lparr>shared = (init_sys default_capacity)\<lparr>deq := two_tasks, events := [Pushed 5, Pushed 6]\<rparr>, pending = []\<rparr>"
proof -
  let ?u = "\<lparr>shared = (init_sys default_capacity)\<lparr>deq := deque_push 5 (init_deque default_capacity), events := [Pushed 5]\<rparr>,
    pending = []\<rparr> :: nat tso_deque"
  have one: "exec (tso_deque_step ord) (tso_push 5) tso_deque_init = Some ?u"
    using exec_tso_push [of "tso_deque_init :: nat tso_deque" ord 5]
    by (simp add: tso_deque_init_def init_sys_def init_deque_def new_circular_array_def del: exec.simps)
  have "exec (tso_deque_step ord) (tso_push 6) ?u
      = Some \<lparr>shared = (init_sys default_capacity)\<lparr>deq := two_tasks, events := [Pushed 5, Pushed 6]\<rparr>, pending = []\<rparr>"
    using exec_tso_push [of ?u ord 6]
    by (simp add: two_tasks_def init_sys_def init_deque_def deque_push_eq ensure_room_def Let_def
        new_circular_array_def store_slot_def del: exec.simps)
  with one show ?thesis by (simp only: exec_append [of _ "tso_push 5"] option.case)
qed

text \<open>
  \<open>pop\<close> takes the second task while its store to \<open>bottom_\<close> is still in the buffer, and two
  thieves, who see the old \<open>bottom_\<close>, take both tasks.
\<close>

definition double_take :: "nat tso_daction list" where
  "double_take =
     [DAct CallPop, DAct OwnerStep, DAct OwnerStep, DAct OwnerStep,
      DAct (CallSteal 0), DAct (ThiefStep 0), DAct (ThiefStep 0), DAct (ThiefStep 0), DAct (ThiefStep 0),
      DAct (CallSteal 1), DAct (ThiefStep 1), DAct (ThiefStep 1), DAct (ThiefStep 1), DAct (ThiefStep 1)]"

lemma exec_double_take:
  "\<exists>s. exec (tso_deque_step Release) ((tso_push 5 @ tso_push 6) @ double_take) tso_deque_init = Some s \<and>
     events (shared s) = [Pushed 5, Pushed 6, Popped (Some 6), Stolen 0 (Some 5), Stolen 1 (Some 6)]"
  unfolding exec_append [of _ "tso_push 5 @ tso_push 6"] exec_two_tasks
  by (simp add: double_take_def tso_call_pop_def tso_owner_step_def set_owner_def own_view_def
      call_steal_def thief_step_def set_thief_def cas_top_def init_sys_def two_tasks_sel Let_def)

text \<open>
  C18. The order of the store to \<open>bottom_\<close> in \<open>pop\<close> is not only sufficient but needed: with
  store buffers a task can be handed out twice exactly if that store is weaker than \<open>seq_cst\<close>.
\<close>

theorem pop_order_needed:
  "(\<exists>as s. exec (tso_deque_step ord) as (tso_deque_init :: nat tso_deque) = Some s \<and>
      \<not> handed_out (events (shared s)) \<subseteq># pushed (events (shared s))) \<longleftrightarrow> ord = Release"
proof
  assume "ord = Release"
  moreover obtain s where s: "exec (tso_deque_step Release) ((tso_push 5 @ tso_push 6) @ double_take) tso_deque_init = Some s"
    "events (shared s) = [Pushed 5, Pushed 6, Popped (Some 6), Stolen 0 (Some 5), Stolen 1 (Some (6 :: nat))]"
    using exec_double_take by blast
  moreover have "\<not> handed_out (events (shared s)) \<subseteq># pushed (events (shared s))"
    using mset_subset_eq_count [of "handed_out (events (shared s))" "pushed (events (shared s))" 6] by (auto simp: s(2))
  ultimately show "\<exists>as s. exec (tso_deque_step ord) as (tso_deque_init :: nat tso_deque) = Some s \<and>
      \<not> handed_out (events (shared s)) \<subseteq># pushed (events (shared s))" by blast
next
  assume "\<exists>as s. exec (tso_deque_step ord) as (tso_deque_init :: nat tso_deque) = Some s \<and>
      \<not> handed_out (events (shared s)) \<subseteq># pushed (events (shared s))"
  then obtain as and s :: "nat tso_deque" where s: "exec (tso_deque_step ord) as tso_deque_init = Some s"
    "\<not> handed_out (events (shared s)) \<subseteq># pushed (events (shared s))" by blast
  show "ord = Release"
  proof (cases ord)
    case SeqCst
    then have "handed_out (events (shared s)) \<subseteq># pushed (events (shared s))"
      using tso_conserved [of as s] s(1) by (auto simp: conserved_def)
    with s(2) show ?thesis ..
  qed simp
qed

theorem deque_on_tso_witness:
  "\<exists>s. exec (tso_deque_step pop_order) (tso_push 5 @ tso_push 6) tso_deque_init = Some s \<and>
     deque_reach (sc_view s) \<and> events (shared s) = [Pushed 5, Pushed (6 :: nat)]"
  using exec_two_tasks [of pop_order] deque_on_tso [OF exec_two_tasks] by auto

end
