(* ===== verification/IO_Context.thy ===== *)
theory IO_Context
  imports Prelude
begin

text \<open>
  \<open>src/src/io_uring_ctx.cpp\<close>: the ring behind an \<open>io_context\<close>, the submission functions,
  buffer registration and \<open>stop\<close>. \<open>liburing\<close> and the kernel are not part of the repository:
  their functions are the fields of a record that every definition takes as an argument, and
  \<open>liburing_ok\<close> collects what their manual pages promise.
\<close>

section \<open>Data\<close>

text \<open>Addresses; \<open>0\<close> is the null pointer. A \<open>std::span\<close> is its data pointer and its size.\<close>

type_synonym address = nat

record span =
  span_data :: address
  span_size :: u64

text \<open>A call of one of the \<open>io_uring_prep\<close> functions, with the arguments the program passes.\<close>

datatype sqe_op =
    PrepRead int address u32 u64
  | PrepWrite int address u32 u64
  | PrepAccept int
  | PrepRecv int address u64 int
  | PrepSend int address u64 int
  | PrepReadFixed int address u32 u64 int
  | PrepWriteFixed int address u32 u64 int
  | PrepCancel address
  | PrepNop

text \<open>A prepared submission entry, and a completion entry.\<close>

record sqe =
  sqe_request :: sqe_op
  sqe_data :: address

record cqe =
  cqe_data :: address
  cqe_res :: int
  cqe_flags :: u32

record iovec =
  iov_base :: address
  iov_len :: u64

record io_result =
  res :: int
  res_flags :: u32

text \<open>
  \<open>liburing\<close> on a ring of type \<open>'r\<close>. \<open>lu_get_sqe\<close> gives a free slot, if there is one;
  \<open>lu_write_sqe\<close> fills it; \<open>lu_wait_cqe\<close> gives \<open>None\<close> while it blocks; \<open>lu_cqes\<close> are the
  completions that \<open>io_uring_for_each_cqe\<close> visits; \<open>lu_complete\<close> is the kernel completing a
  request with a result and flags.
\<close>

record 'r liburing =
  lu_queue_init :: "u32 \<Rightarrow> int \<times> 'r"
  lu_get_sqe :: "'r \<Rightarrow> nat option \<times> 'r"
  lu_write_sqe :: "nat \<Rightarrow> sqe \<Rightarrow> 'r \<Rightarrow> 'r"
  lu_submit :: "'r \<Rightarrow> int \<times> 'r"
  lu_wait_cqe :: "'r \<Rightarrow> (int \<times> 'r) option"
  lu_cqes :: "'r \<Rightarrow> cqe list"
  lu_cq_advance :: "nat \<Rightarrow> 'r \<Rightarrow> 'r"
  lu_register_buffers :: "iovec list \<Rightarrow> 'r \<Rightarrow> int \<times> 'r"
  lu_unregister_buffers :: "'r \<Rightarrow> int \<times> 'r"
  lu_queue_exit :: "'r \<Rightarrow> 'r"
  lu_complete :: "sqe \<Rightarrow> int \<Rightarrow> u32 \<Rightarrow> 'r \<Rightarrow> 'r option"

text \<open>
  \<open>io_context::ring_impl\<close>, and the heap cells that hold the callbacks of the operations in
  progress. The submission mutex is held for the whole of every submission, so a submission is
  one step and the mutex does not appear.
\<close>

record ('r, 'cb) io_context =
  ring :: 'r
  running :: bool
  heap :: "address \<Rightarrow> 'cb option"

text \<open>Undefined behaviour the code can run into.\<close>

datatype io_fault = NullSqe | DanglingCallback

text \<open>A \<open>std::system_error\<close> or \<open>std::error_code\<close> of the generic category.\<close>

datatype error_code = Errno int

section \<open>Operations\<close>

definition ring_ctor :: "'r liburing \<Rightarrow> u32 \<Rightarrow> error_code + ('r, 'cb) io_context" where
  "ring_ctor L queue_depth =
     (case lu_queue_init L queue_depth of
        (ret, r) \<Rightarrow>
          if ret < 0 then Inl (Errno (- ret))
          else Inr \<lparr>ring = r, running = False, heap = (\<lambda>_. None)\<rparr>)"

text \<open>The destructor hands back the ring; the cells of the callbacks are not touched.\<close>

definition ring_dtor :: "'r liburing \<Rightarrow> ('r, 'cb) io_context \<Rightarrow> ('r, 'cb) io_context" where
  "ring_dtor L c = c\<lparr>ring := lu_queue_exit L (ring c)\<rparr>"

definition get_sqe :: "'r liburing \<Rightarrow> 'r \<Rightarrow> nat option \<times> 'r" where
  "get_sqe L r =
     (case lu_get_sqe L r of
        (Some i, r1) \<Rightarrow> (Some i, r1)
      | (None, r1) \<Rightarrow> lu_get_sqe L (snd (lu_submit L r1)))"

text \<open>
  \<open>submit_with_cb\<close>: \<open>new\<close> has returned the address \<open>a\<close> for the callback. The prepared entry
  and its user data are written to the slot and the ring is submitted.
\<close>

definition submit_with_cb ::
  "'r liburing \<Rightarrow> nat \<Rightarrow> sqe_op \<Rightarrow> address \<Rightarrow> 'cb \<Rightarrow> ('r, 'cb) io_context \<Rightarrow> address \<times> ('r, 'cb) io_context" where
  "submit_with_cb L i req a cb c =
     (a, c\<lparr>heap := (heap c)(a \<mapsto> cb),
          ring := snd (lu_submit L (lu_write_sqe L i \<lparr>sqe_request = req, sqe_data = a\<rparr> (ring c)))\<rparr>)"

text \<open>
  What the seven submission functions share: take a slot, prepare it and submit. The
  \<open>io_uring_prep\<close> call writes through the pointer without a test, so no slot is a fault.
\<close>

definition submit_op ::
  "'r liburing \<Rightarrow> sqe_op \<Rightarrow> address \<Rightarrow> 'cb \<Rightarrow> ('r, 'cb) io_context
    \<Rightarrow> io_fault + address \<times> ('r, 'cb) io_context" where
  "submit_op L req a cb c =
     (case get_sqe L (ring c) of
        (None, _) \<Rightarrow> Inl NullSqe
      | (Some i, r) \<Rightarrow> Inr (submit_with_cb L i req a cb (c\<lparr>ring := r\<rparr>)))"

definition submit_read where
  "submit_read L fd buf offset = submit_op L (PrepRead fd (span_data buf) (ucast (span_size buf)) offset)"

definition submit_write where
  "submit_write L fd buf offset = submit_op L (PrepWrite fd (span_data buf) (ucast (span_size buf)) offset)"

definition submit_accept where
  "submit_accept L fd = submit_op L (PrepAccept fd)"

definition submit_recv where
  "submit_recv L fd buf flags = submit_op L (PrepRecv fd (span_data buf) (span_size buf) flags)"

definition submit_send where
  "submit_send L fd buf flags = submit_op L (PrepSend fd (span_data buf) (span_size buf) flags)"

definition submit_read_fixed where
  "submit_read_fixed L fd (buf_index :: u32) buf offset =
     submit_op L (PrepReadFixed fd (span_data buf) (ucast (span_size buf)) offset (sint buf_index))"

definition submit_write_fixed where
  "submit_write_fixed L fd (buf_index :: u32) buf offset =
     submit_op L (PrepWriteFixed fd (span_data buf) (ucast (span_size buf)) offset (sint buf_index))"

definition submit_cancel ::
  "'r liburing \<Rightarrow> address \<Rightarrow> ('r, 'cb) io_context \<Rightarrow> io_fault + ('r, 'cb) io_context" where
  "submit_cancel L ptr c =
     (case get_sqe L (ring c) of
        (None, _) \<Rightarrow> Inl NullSqe
      | (Some i, r) \<Rightarrow>
          Inr (c\<lparr>ring := snd (lu_submit L (lu_write_sqe L i \<lparr>sqe_request = PrepCancel ptr, sqe_data = 0\<rparr> r))\<rparr>))"

text \<open>
  \<open>io_context::stop\<close> clears \<open>running\<close> before it locks, and then wakes \<open>run\<close> up with an empty
  request. It tests the slot, unlike the submission functions.
\<close>

definition stop_store :: "('r, 'cb) io_context \<Rightarrow> ('r, 'cb) io_context" where
  "stop_store c = c\<lparr>running := False\<rparr>"

definition stop_nop :: "'r liburing \<Rightarrow> ('r, 'cb) io_context \<Rightarrow> ('r, 'cb) io_context" where
  "stop_nop L c =
     (case get_sqe L (ring c) of
        (None, r) \<Rightarrow> c\<lparr>ring := r\<rparr>
      | (Some i, r) \<Rightarrow>
          c\<lparr>ring := snd (lu_submit L (lu_write_sqe L i \<lparr>sqe_request = PrepNop, sqe_data = 0\<rparr> r))\<rparr>)"

definition stop :: "'r liburing \<Rightarrow> ('r, 'cb) io_context \<Rightarrow> ('r, 'cb) io_context" where
  "stop L c = stop_nop L (stop_store c)"

text \<open>The number of buffers is passed as an \<open>unsigned\<close>, so the library sees that many of them.\<close>

definition register_buffers ::
  "'r liburing \<Rightarrow> span list \<Rightarrow> ('r, 'cb) io_context \<Rightarrow> (error_code + unit) \<times> ('r, 'cb) io_context" where
  "register_buffers L buffers c =
     (let iovs = map (\<lambda>b. \<lparr>iov_base = span_data b, iov_len = span_size b\<rparr>) buffers;
          count = (word_of_nat (length iovs) :: u32) in
      case lu_register_buffers L (take (unat count) iovs) (ring c) of
        (ret, r) \<Rightarrow> (if ret < 0 then Inl (Errno (- ret)) else Inr (), c\<lparr>ring := r\<rparr>))"

definition unregister_buffers ::
  "'r liburing \<Rightarrow> ('r, 'cb) io_context \<Rightarrow> (error_code + unit) \<times> ('r, 'cb) io_context" where
  "unregister_buffers L c =
     (case lu_unregister_buffers L (ring c) of
        (ret, r) \<Rightarrow> (if ret < 0 then Inl (Errno (- ret)) else Inr (), c\<lparr>ring := r\<rparr>))"

end
