(* ===== verification/Io_Callback.thy ===== *)
theory Io_Callback
  imports IO_Context
begin

text \<open>
  \<open>detail::make_io_callback\<close> of \<open>include/async_runtime/io_context.hpp\<close>: the completion signal a
  receiver gets for the result of its request. Results are 32-bit; the negation of a
  negative one is exact because error numbers are small.
\<close>

datatype completion = SetValue io_result | SetError error_code | SetStopped

text \<open>\<open>ECANCELED\<close> is 125.\<close>

definition ECANCELED :: int where "ECANCELED = 125"

definition make_io_callback :: "io_result \<Rightarrow> completion" where
  "make_io_callback result =
     (if res result = - ECANCELED then SetStopped
      else if res result < 0 then SetError (Errno (- res result))
      else SetValue result)"

lemma make_io_callback_cases:
  "make_io_callback z = SetValue r \<longleftrightarrow> r = z \<and> 0 \<le> res z"
  "make_io_callback z = SetError (Errno e) \<longleftrightarrow> res z = - e \<and> 0 < e \<and> e \<noteq> ECANCELED"
  "make_io_callback z = SetStopped \<longleftrightarrow> res z = - ECANCELED"
  by (auto simp: make_io_callback_def ECANCELED_def)

lemma make_io_callback_value: "SetValue r = make_io_callback z \<Longrightarrow> r = z \<and> 0 \<le> res z"
  using make_io_callback_cases(1) [of z r] by simp

text \<open>
  The signal determines the result code: a value is passed on unchanged and is never
  negative, an error carries the positive error number, which is never \<open>ECANCELED\<close>, and \<open>stopped\<close>
  stands for \<open>-ECANCELED\<close>. In particular two results with the same signal have the same code.
\<close>

lemma io_callback_signal:
  "(\<forall>r. make_io_callback z = SetValue r \<longleftrightarrow> r = z \<and> 0 \<le> res z) \<and>
   (\<forall>e. make_io_callback z = SetError (Errno e) \<longleftrightarrow> res z = - e \<and> 0 < e \<and> e \<noteq> ECANCELED) \<and>
   (make_io_callback z = SetStopped \<longleftrightarrow> res z = - ECANCELED) \<and>
   (make_io_callback z = make_io_callback z' \<longrightarrow> res z = res z')"
  using make_io_callback_cases by (auto simp: make_io_callback_def split: if_splits)

end
