(* ===== verification/Stop_Helper.thy ===== *)
theory Stop_Helper
  imports Io_Callback
begin

text \<open>
  \<open>detail::stop_helper\<close> of \<open>include/async_runtime/io_context.hpp\<close>: one operation, with the thread
  in \<open>start\<close>, the thread that requests a stop, the completion by \<open>io_context::run\<close>, and the owner
  of the operation state, which may destroy it after the completion. Every atomic access is a
  step. The stop token is the one of the C++ library: a callback that is registered after the
  request runs at once in the registering thread, and the destructor of a callback waits
  while the callback runs in another thread.
\<close>

section \<open>The machine\<close>

datatype start_pc =
    NotStarted            \<comment> \<open>\<open>stop_token.stop_requested()\<close>\<close>
  | Emplace               \<comment> \<open>\<open>stop_cb.emplace(...)\<close>\<close>
  | InlineStore           \<comment> \<open>the callback inside \<open>emplace\<close>: \<open>stop_called.store(true)\<close>\<close>
  | InlineLoad            \<comment> \<open>the callback inside \<open>emplace\<close>: \<open>cb_ptr.load()\<close>\<close>
  | Submitting            \<comment> \<open>\<open>submit()\<close>\<close>
  | StorePtr address      \<comment> \<open>\<open>cb_ptr.store(ptr)\<close>\<close>
  | LoadStop address      \<comment> \<open>\<open>stop_called.load()\<close>\<close>
  | StartCancel address   \<comment> \<open>\<open>ctx->submit_cancel(ptr)\<close>\<close>
  | StartDone

datatype stop_pc =
    StopIdle
  | StoreCalled           \<comment> \<open>\<open>self->stop_called.store(true)\<close>\<close>
  | LoadPtr               \<comment> \<open>\<open>self->cb_ptr.load()\<close>\<close>
  | StopCancel address    \<comment> \<open>\<open>self->ctx->submit_cancel(ptr)\<close>\<close>
  | StopDone

text \<open>The request: not submitted, in the ring with a callback at an address, or completed.\<close>

datatype op_status = NotSubmitted | InFlight address | Finished address

record stop_op =
  start_at :: start_pc
  stop_at :: stop_pc
  stop_requested :: bool
  registered :: bool
  cb_ptr :: address
  stop_called :: bool
  status :: op_status
  alive :: bool
  cancels :: "address list"
  signals :: "completion list"
  bad_access :: bool

definition op_init :: stop_op where
  "op_init = \<lparr>start_at = NotStarted, stop_at = StopIdle, stop_requested = False, registered = False,
     cb_ptr = 0, stop_called = False, status = NotSubmitted, alive = True, cancels = [],
     signals = [], bad_access = False\<rparr>"

text \<open>An access to a member of the operation state.\<close>

definition touch :: "stop_op \<Rightarrow> stop_op" where
  "touch p = p\<lparr>bad_access := (bad_access p \<or> \<not> alive p)\<rparr>"

text \<open>
  \<open>stop_helper::start\<close>. \<open>possible\<close> is \<open>stop_token.stop_possible()\<close>, and \<open>a\<close> the address of the
  callback that \<open>submit()\<close> returns.
\<close>

definition start_step :: "bool \<Rightarrow> address \<Rightarrow> stop_op \<Rightarrow> stop_op option" where
  "start_step possible a p =
     (case start_at p of
        NotStarted \<Rightarrow>
          Some (if stop_requested p then p\<lparr>start_at := StartDone, signals := signals p @ [SetStopped]\<rparr>
                else p\<lparr>start_at := (if possible then Emplace else Submitting)\<rparr>)
      | Emplace \<Rightarrow>
          Some (if stop_requested p then p\<lparr>start_at := InlineStore\<rparr>
                else p\<lparr>start_at := Submitting, registered := True\<rparr>)
      | InlineStore \<Rightarrow> Some ((touch p)\<lparr>start_at := InlineLoad, stop_called := True\<rparr>)
      | InlineLoad \<Rightarrow>
          Some ((touch p)\<lparr>start_at := Submitting,
                  cancels := cancels p @ (if cb_ptr p = 0 then [] else [cb_ptr p])\<rparr>)
      | Submitting \<Rightarrow> (if a = 0 then None else Some (p\<lparr>start_at := StorePtr a, status := InFlight a\<rparr>))
      | StorePtr b \<Rightarrow> Some ((touch p)\<lparr>start_at := LoadStop b, cb_ptr := b\<rparr>)
      | LoadStop b \<Rightarrow> Some ((touch p)\<lparr>start_at := (if stop_called p then StartCancel b else StartDone)\<rparr>)
      | StartCancel b \<Rightarrow> Some ((touch p)\<lparr>start_at := StartDone, cancels := cancels p @ [b]\<rparr>)
      | StartDone \<Rightarrow> None)"

text \<open>A request to stop, by a thread of its own, and \<open>stop_callback_fn::operator()\<close> in that thread.\<close>

definition request_stop :: "stop_op \<Rightarrow> stop_op option" where
  "request_stop p =
     (if stop_requested p then None
      else Some (p\<lparr>stop_requested := True, stop_at := (if registered p then StoreCalled else StopDone)\<rparr>))"

definition stop_step :: "stop_op \<Rightarrow> stop_op option" where
  "stop_step p =
     (case stop_at p of
        StoreCalled \<Rightarrow> Some ((touch p)\<lparr>stop_at := LoadPtr, stop_called := True\<rparr>)
      | LoadPtr \<Rightarrow> Some ((touch p)\<lparr>stop_at := (if cb_ptr p = 0 then StopDone else StopCancel (cb_ptr p))\<rparr>)
      | StopCancel b \<Rightarrow> Some ((touch p)\<lparr>stop_at := StopDone, cancels := cancels p @ [b]\<rparr>)
      | _ \<Rightarrow> None)"

text \<open>\<open>run\<close> invokes the callback of the request, which signals the receiver.\<close>

definition complete :: "io_result \<Rightarrow> stop_op \<Rightarrow> stop_op option" where
  "complete z p =
     (case status p of
        InFlight b \<Rightarrow> Some (p\<lparr>status := Finished b, signals := signals p @ [make_io_callback z]\<rparr>)
      | _ \<Rightarrow> None)"

fun stop_running :: "stop_pc \<Rightarrow> bool" where
  "stop_running StopIdle = False"
| "stop_running StopDone = False"
| "stop_running _ = True"

text \<open>
  The owner destroys the operation state after the receiver has been signalled. The destructor
  of \<open>stop_cb\<close> waits for a callback that is running. With \<open>early\<close> the owner does not wait
  for \<open>start\<close> to return, as the sender protocol allows.
\<close>

definition destroy :: "bool \<Rightarrow> stop_op \<Rightarrow> stop_op option" where
  "destroy early p =
     (if alive p \<and> signals p \<noteq> [] \<and> \<not> stop_running (stop_at p) \<and> (early \<or> start_at p = StartDone)
      then Some (p\<lparr>alive := False, registered := False\<rparr>) else None)"

datatype stop_action = StartStep address | RequestStop | StopStep | CompleteOp io_result | DestroyOp

fun stop_machine :: "bool \<Rightarrow> bool \<Rightarrow> stop_action \<Rightarrow> stop_op \<Rightarrow> stop_op option" where
  "stop_machine possible early (StartStep a) p = start_step possible a p"
| "stop_machine possible early RequestStop p = request_stop p"
| "stop_machine possible early StopStep p = stop_step p"
| "stop_machine possible early (CompleteOp z) p = complete z p"
| "stop_machine possible early DestroyOp p = destroy early p"

lemmas stop_ops = start_step_def request_stop_def stop_step_def complete_def destroy_def touch_def

section \<open>Invariant\<close>

text \<open>
  Where the address of the callback is known, and that a stop that has reached the operation
  is seen by one of the two threads: either the callback of the token finds the pointer, or
  \<open>start\<close> finds the flag.
\<close>

definition submitted_at :: "stop_op \<Rightarrow> address option" where
  "submitted_at p = (case status p of NotSubmitted \<Rightarrow> None | InFlight b \<Rightarrow> Some b | Finished b \<Rightarrow> Some b)"

fun before_submit :: "start_pc \<Rightarrow> bool" where
  "before_submit NotStarted = True"
| "before_submit Emplace = True"
| "before_submit InlineStore = True"
| "before_submit InlineLoad = True"
| "before_submit Submitting = True"
| "before_submit _ = False"

text \<open>The address of the callback that a thread holds in a local variable.\<close>

fun start_holds :: "start_pc \<Rightarrow> address option" where
  "start_holds (StorePtr b) = Some b"
| "start_holds (LoadStop b) = Some b"
| "start_holds (StartCancel b) = Some b"
| "start_holds _ = None"

fun stop_holds :: "stop_pc \<Rightarrow> address option" where
  "stop_holds (StopCancel b) = Some b"
| "stop_holds _ = None"

fun ptr_stored :: "start_pc \<Rightarrow> bool" where
  "ptr_stored (LoadStop b) = True"
| "ptr_stored (StartCancel b) = True"
| "ptr_stored StartDone = True"
| "ptr_stored _ = False"

definition ptr_inv :: "stop_op \<Rightarrow> bool" where
  "ptr_inv p \<longleftrightarrow>
     (before_submit (start_at p) \<longrightarrow> submitted_at p = None \<and> signals p = []) \<and>
     (start_holds (start_at p) \<noteq> None \<longrightarrow> submitted_at p = start_holds (start_at p)) \<and>
     cb_ptr p = (if ptr_stored (start_at p) then (case submitted_at p of None \<Rightarrow> 0 | Some b \<Rightarrow> b) else 0) \<and>
     submitted_at p \<noteq> Some 0 \<and>
     (stop_holds (stop_at p) \<noteq> None \<longrightarrow> submitted_at p = stop_holds (stop_at p)) \<and>
     (\<forall>b \<in> set (cancels p). submitted_at p = Some b)"

definition signal_inv :: "stop_op \<Rightarrow> bool" where
  "signal_inv p \<longleftrightarrow>
     (case status p of
        NotSubmitted \<Rightarrow> signals p = [] \<or> signals p = [SetStopped] \<and> start_at p = StartDone
      | InFlight b \<Rightarrow> signals p = []
      | Finished b \<Rightarrow> length (signals p) = 1) \<and>
     (\<not> alive p \<longrightarrow> signals p \<noteq> [])"

text \<open>\<open>start\<close> has passed the registration and has submitted or will submit.\<close>

definition engaged :: "stop_op \<Rightarrow> bool" where
  "engaged p \<longleftrightarrow> start_at p = Submitting \<or> status p \<noteq> NotSubmitted"

definition seen_inv :: "stop_op \<Rightarrow> bool" where
  "seen_inv p \<longleftrightarrow>
     (\<not> stop_requested p \<longrightarrow> stop_at p = StopIdle) \<and>
     (start_at p = InlineLoad \<longrightarrow> stop_called p) \<and>
     (engaged p \<and> alive p \<longrightarrow> registered p \<or> stop_called p) \<and>
     (stop_requested p \<and> registered p \<longrightarrow> stop_at p = StoreCalled \<or> stop_called p) \<and>
     (start_at p = StartDone \<and> stop_called p \<and> status p \<noteq> NotSubmitted \<longrightarrow>
        cb_ptr p \<in> set (cancels p) \<or> stop_at p = LoadPtr \<or> stop_at p = StopCancel (cb_ptr p))"

lemmas stop_splits = if_splits option.splits op_status.splits

lemma ptr_start:
  assumes "ptr_inv p" and "start_step possible a p = Some p'"
  shows "ptr_inv p'"
  using assms
  by (cases "start_at p"; cases "status p"; clarsimp simp: ptr_inv_def stop_ops submitted_at_def split: if_splits)

lemma ptr_stop:
  assumes "ptr_inv p" and "stop_step p = Some p'"
  shows "ptr_inv p'"
  using assms
  by (cases "stop_at p"; cases "status p"; clarsimp simp: ptr_inv_def stop_ops submitted_at_def split: if_splits)

lemma ptr_complete:
  assumes "ptr_inv p" and "complete z p = Some p'"
  shows "ptr_inv p'"
  using assms
  by (cases "status p"; clarsimp simp: ptr_inv_def stop_ops submitted_at_def)

lemma ptr_request: "ptr_inv p \<Longrightarrow> request_stop p = Some p' \<Longrightarrow> ptr_inv p'"
  by (clarsimp simp: request_stop_def ptr_inv_def submitted_at_def split: if_splits)

lemma ptr_destroy: "ptr_inv p \<Longrightarrow> destroy early p = Some p' \<Longrightarrow> ptr_inv p'"
  by (clarsimp simp: destroy_def ptr_inv_def submitted_at_def split: if_splits)

lemma ptr_step: "ptr_inv p \<Longrightarrow> stop_machine possible early act p = Some p' \<Longrightarrow> ptr_inv p'"
  by (cases act; simp only: stop_machine.simps; elim ptr_start ptr_stop ptr_complete ptr_request ptr_destroy)

lemma signal_start:
  assumes "ptr_inv p" and "signal_inv p" and "start_step possible a p = Some p'"
  shows "signal_inv p'"
  using assms
  by (cases "start_at p"; cases "status p";
      clarsimp simp: ptr_inv_def signal_inv_def stop_ops submitted_at_def split: if_splits)

lemma signal_stop: "signal_inv p \<Longrightarrow> stop_step p = Some p' \<Longrightarrow> signal_inv p'"
  by (cases "stop_at p"; cases "status p"; clarsimp simp: signal_inv_def stop_ops)

lemma signal_complete: "signal_inv p \<Longrightarrow> complete z p = Some p' \<Longrightarrow> signal_inv p'"
  by (cases "status p"; clarsimp simp: signal_inv_def stop_ops)

lemma signal_request: "signal_inv p \<Longrightarrow> request_stop p = Some p' \<Longrightarrow> signal_inv p'"
  by (cases "status p"; clarsimp simp: request_stop_def signal_inv_def split: if_splits)

lemma signal_destroy: "signal_inv p \<Longrightarrow> destroy early p = Some p' \<Longrightarrow> signal_inv p'"
  by (cases "status p"; clarsimp simp: destroy_def signal_inv_def split: if_splits)

lemma signal_step: "ptr_inv p \<Longrightarrow> signal_inv p \<Longrightarrow> stop_machine possible early act p = Some p' \<Longrightarrow> signal_inv p'"
  by (cases act; simp only: stop_machine.simps)
    (rule signal_start signal_stop signal_complete signal_request signal_destroy; assumption)+

lemma seen_start:
  assumes "ptr_inv p" and "signal_inv p" and "seen_inv p" and "start_step True a p = Some p'"
  shows "seen_inv p'"
  using assms
  by (cases "start_at p"; cases "status p";
      clarsimp simp: ptr_inv_def signal_inv_def seen_inv_def engaged_def stop_ops submitted_at_def
        split: if_splits)

lemma seen_stop:
  assumes "ptr_inv p" and "seen_inv p" and "stop_step p = Some p'"
  shows "seen_inv p'"
  using assms
  by (cases "stop_at p"; cases "status p";
      clarsimp simp: ptr_inv_def seen_inv_def engaged_def stop_ops submitted_at_def split: if_splits)

lemma seen_complete: "seen_inv p \<Longrightarrow> complete z p = Some p' \<Longrightarrow> seen_inv p'"
  by (cases "status p"; clarsimp simp: seen_inv_def engaged_def complete_def)

lemma seen_request: "seen_inv p \<Longrightarrow> request_stop p = Some p' \<Longrightarrow> seen_inv p'"
  by (clarsimp simp: request_stop_def seen_inv_def engaged_def split: if_splits)

lemma seen_destroy: "seen_inv p \<Longrightarrow> destroy early p = Some p' \<Longrightarrow> seen_inv p'"
  by (clarsimp simp: destroy_def seen_inv_def engaged_def split: if_splits)

lemma seen_step:
  "ptr_inv p \<Longrightarrow> signal_inv p \<Longrightarrow> seen_inv p \<Longrightarrow> stop_machine True early act p = Some p' \<Longrightarrow> seen_inv p'"
  by (cases act; simp only: stop_machine.simps)
    (rule seen_start seen_stop seen_complete seen_request seen_destroy; assumption)+

definition op_inv :: "stop_op \<Rightarrow> bool" where
  "op_inv p \<longleftrightarrow> ptr_inv p \<and> signal_inv p"

interpretation stop_sys: invariant_system op_init "stop_machine possible early" op_inv for possible early
proof
  show "op_inv op_init"
    by (simp add: op_inv_def op_init_def ptr_inv_def signal_inv_def submitted_at_def)
  show "op_inv t" if "op_inv s" "stop_machine possible early act s = Some t" for s t act
    using that ptr_step signal_step unfolding op_inv_def by blast
qed

interpretation stop_possible: invariant_system op_init "stop_machine True early" "\<lambda>p. op_inv p \<and> seen_inv p" for early
proof
  show "op_inv op_init \<and> seen_inv op_init"
    using stop_sys.inv_init by (simp add: op_init_def seen_inv_def engaged_def)
  show "op_inv t \<and> seen_inv t" if "op_inv s \<and> seen_inv s" "stop_machine True early act s = Some t" for s t act
    using that stop_sys.inv_step [of s True early act t] seen_step [of s early act t] by (simp add: op_inv_def)
qed

section \<open>Properties\<close>

lemmas stop_eval = op_init_def start_step_def request_stop_def stop_step_def complete_def destroy_def touch_def



text \<open>
  The receiver is signalled at most once: exactly once if the request has completed, not at
  all while it is in flight, and with \<open>stopped\<close> if the stop came before the submission.
  Cancellations name only the callback of the operation itself.
\<close>

lemma one_signal:
  assumes "exec (stop_machine possible early) as op_init = Some p"
  shows "length (signals p) \<le> 1 \<and>
    (case status p of
       NotSubmitted \<Rightarrow> signals p = [] \<or> signals p = [SetStopped]
     | InFlight b \<Rightarrow> signals p = [] \<and> set (cancels p) \<subseteq> {b}
     | Finished b \<Rightarrow> length (signals p) = 1 \<and> set (cancels p) \<subseteq> {b})"
proof -
  have "ptr_inv p" "signal_inv p"
    using stop_sys.inv_exec [OF stop_sys.inv_init assms] by (simp_all add: op_inv_def)
  then show ?thesis
    by (cases "status p") (auto simp: ptr_inv_def signal_inv_def submitted_at_def)
qed

definition quiet_inv :: "stop_op \<Rightarrow> bool" where
  "quiet_inv p \<longleftrightarrow>
     \<not> bad_access p \<and>
     (alive p \<or> start_at p = StartDone \<and> \<not> stop_running (stop_at p) \<and> \<not> registered p)"

interpretation quiet: invariant_system op_init "stop_machine possible False" quiet_inv for possible
proof
  show "quiet_inv op_init" by (simp add: op_init_def quiet_inv_def)
  show "quiet_inv t" if "quiet_inv s" "stop_machine possible False act s = Some t" for s t act
  proof (cases act)
    case (StartStep a)
    then show ?thesis
      using that by (cases "start_at s"; clarsimp simp: quiet_inv_def stop_ops split: if_splits)
  next
    case StopStep
    then show ?thesis using that by (cases "stop_at s"; clarsimp simp: quiet_inv_def stop_ops)
  next
    case (CompleteOp z)
    then show ?thesis using that by (cases "status s"; clarsimp simp: quiet_inv_def stop_ops)
  qed (use that in \<open>clarsimp simp: quiet_inv_def stop_ops split: if_splits\<close>)+
qed




end
