(* ===== verification/Stop_Helper_TSO.thy ===== *)
theory Stop_Helper_TSO
  imports Stop_Helper
begin

text \<open>
  \<open>detail::stop_helper\<close> on hardware with store buffers. \<open>start\<close> stores \<open>cb_ptr\<close> and then loads
  \<open>stop_called\<close>, while the stop callback stores \<open>stop_called\<close> and then loads \<open>cb_ptr\<close>. On
  x86 a store with \<open>memory_order_release\<close> goes into the buffer of the thread, and a later load
  of another location may be served before the store reaches the memory; a store with
  \<open>memory_order_seq_cst\<close> drains the buffer. The machine takes the two orders as parameters; what
  the source uses are \<open>ptr_order\<close> and \<open>flag_order\<close>.
\<close>

section \<open>The machine\<close>

definition ptr_order :: mem_order where "ptr_order = Release"

definition flag_order :: mem_order where "flag_order = Release"

datatype buffered = PtrTo address | FlagSet

text \<open>The shared memory, and for each of the two threads its stores that have not reached it.\<close>

record tso_op =
  mem :: stop_op
  start_buf :: "buffered list"
  stop_buf :: "buffered list"

definition tso_init :: tso_op where
  "tso_init = \<lparr>mem = op_init, start_buf = [], stop_buf = []\<rparr>"

fun commit :: "buffered \<Rightarrow> stop_op \<Rightarrow> stop_op" where
  "commit (PtrTo b) p = p\<lparr>cb_ptr := b\<rparr>"
| "commit FlagSet p = p\<lparr>stop_called := True\<rparr>"

text \<open>A load sees the stores of its own thread, also those that are still in the buffer.\<close>

definition sees :: "buffered list \<Rightarrow> stop_op \<Rightarrow> stop_op" where
  "sees buf p = fold commit buf p"

text \<open>A store of one thread; \<open>None\<close> means that it waits for the buffer to drain.\<close>

definition issue :: "mem_order \<Rightarrow> buffered \<Rightarrow> buffered list \<Rightarrow> stop_op \<Rightarrow> (buffered list \<times> stop_op) option" where
  "issue ord w buf p =
     (case ord of
        Release \<Rightarrow> Some (buf @ [w], p)
      | SeqCst \<Rightarrow> (if buf = [] then Some ([], commit w p) else None))"

text \<open>
  \<open>stop_helper::start\<close>. \<open>submit()\<close> and \<open>submit_cancel\<close> lock a mutex, which drains the buffer.
\<close>

definition tso_start :: "mem_order \<Rightarrow> mem_order \<Rightarrow> bool \<Rightarrow> address \<Rightarrow> tso_op \<Rightarrow> tso_op option" where
  "tso_start ptr_ord flag_ord possible a s =
     (let p = mem s; buf = start_buf s in
      case start_at p of
        InlineStore \<Rightarrow>
          map_option (\<lambda>(buf', p'). s\<lparr>start_buf := buf', mem := (touch p')\<lparr>start_at := InlineLoad\<rparr>\<rparr>)
            (issue flag_ord FlagSet buf p)
      | InlineLoad \<Rightarrow>
          (if cb_ptr (sees buf p) = 0 then Some (s\<lparr>mem := (touch p)\<lparr>start_at := Submitting\<rparr>\<rparr>)
           else if buf = []
           then Some (s\<lparr>mem := (touch p)\<lparr>start_at := Submitting, cancels := cancels p @ [cb_ptr p]\<rparr>\<rparr>)
           else None)
      | StorePtr b \<Rightarrow>
          map_option (\<lambda>(buf', p'). s\<lparr>start_buf := buf', mem := (touch p')\<lparr>start_at := LoadStop b\<rparr>\<rparr>)
            (issue ptr_ord (PtrTo b) buf p)
      | LoadStop b \<Rightarrow>
          Some (s\<lparr>mem := (touch p)\<lparr>start_at := (if stop_called (sees buf p) then StartCancel b else StartDone)\<rparr>\<rparr>)
      | Submitting \<Rightarrow>
          (if buf = [] then map_option (\<lambda>p'. s\<lparr>mem := p'\<rparr>) (start_step possible a p) else None)
      | StartCancel b \<Rightarrow>
          (if buf = [] then map_option (\<lambda>p'. s\<lparr>mem := p'\<rparr>) (start_step possible a p) else None)
      | _ \<Rightarrow> map_option (\<lambda>p'. s\<lparr>mem := p'\<rparr>) (start_step possible a p))"

text \<open>\<open>stop_callback_fn::operator()\<close>.\<close>

definition tso_stop :: "mem_order \<Rightarrow> tso_op \<Rightarrow> tso_op option" where
  "tso_stop flag_ord s =
     (let p = mem s; buf = stop_buf s in
      case stop_at p of
        StoreCalled \<Rightarrow>
          map_option (\<lambda>(buf', p'). s\<lparr>stop_buf := buf', mem := (touch p')\<lparr>stop_at := LoadPtr\<rparr>\<rparr>)
            (issue flag_ord FlagSet buf p)
      | LoadPtr \<Rightarrow>
          (let ptr = cb_ptr (sees buf p) in
           Some (s\<lparr>mem := (touch p)\<lparr>stop_at := (if ptr = 0 then StopDone else StopCancel ptr)\<rparr>\<rparr>))
      | StopCancel b \<Rightarrow>
          (if buf = [] then map_option (\<lambda>p'. s\<lparr>mem := p'\<rparr>) (stop_step p) else None)
      | _ \<Rightarrow> None)"

datatype tso_action = Act stop_action | DrainStart | DrainStop

text \<open>
  The other steps are those of the sequentially consistent machine. The state is destroyed only
  when the stores to it have reached the memory.
\<close>

fun tso_machine :: "mem_order \<Rightarrow> mem_order \<Rightarrow> bool \<Rightarrow> bool \<Rightarrow> tso_action \<Rightarrow> tso_op \<Rightarrow> tso_op option" where
  "tso_machine ptr_ord flag_ord possible early (Act (StartStep a)) s = tso_start ptr_ord flag_ord possible a s"
| "tso_machine ptr_ord flag_ord possible early (Act StopStep) s = tso_stop flag_ord s"
| "tso_machine ptr_ord flag_ord possible early (Act RequestStop) s =
     map_option (\<lambda>p. s\<lparr>mem := p\<rparr>) (request_stop (mem s))"
| "tso_machine ptr_ord flag_ord possible early (Act (CompleteOp z)) s =
     map_option (\<lambda>p. s\<lparr>mem := p\<rparr>) (complete z (mem s))"
| "tso_machine ptr_ord flag_ord possible early (Act DestroyOp) s =
     (if start_buf s = [] \<and> stop_buf s = []
      then map_option (\<lambda>p. s\<lparr>mem := p\<rparr>) (destroy early (mem s)) else None)"
| "tso_machine ptr_ord flag_ord possible early DrainStart s =
     (case start_buf s of [] \<Rightarrow> None | w # ws \<Rightarrow> Some (s\<lparr>start_buf := ws, mem := commit w (mem s)\<rparr>))"
| "tso_machine ptr_ord flag_ord possible early DrainStop s =
     (case stop_buf s of [] \<Rightarrow> None | w # ws \<Rightarrow> Some (s\<lparr>stop_buf := ws, mem := commit w (mem s)\<rparr>))"

section \<open>With drained stores\<close>

text \<open>If both stores are \<open>SeqCst\<close> the buffers stay empty, and the machine is the one of \<open>Stop_Helper\<close>.\<close>

definition drained :: "tso_op \<Rightarrow> bool" where
  "drained s \<longleftrightarrow> start_buf s = [] \<and> stop_buf s = []"

lemma seq_cst_start:
  assumes "drained s" and "tso_start SeqCst SeqCst possible a s = Some t"
  shows "drained t \<and> start_step possible a (mem s) = Some (mem t)"
  using assms
  by (cases "start_at (mem s)")
    (auto simp: drained_def tso_start_def issue_def sees_def start_step_def touch_def Let_def split: if_splits)

lemma seq_cst_stop:
  assumes "drained s" and "tso_stop SeqCst s = Some t"
  shows "drained t \<and> stop_step (mem s) = Some (mem t)"
  using assms
  by (cases "stop_at (mem s)")
    (auto simp: drained_def tso_stop_def issue_def sees_def stop_step_def touch_def Let_def split: if_splits)

lemma seq_cst_step:
  assumes "drained s" and "tso_machine SeqCst SeqCst possible early act s = Some t"
  shows "drained t \<and> (\<exists>b. stop_machine possible early b (mem s) = Some (mem t))"
proof (cases act)
  case (Act b)
  then have "drained t \<and> stop_machine possible early b (mem s) = Some (mem t)"
    using assms seq_cst_start [OF assms(1)] seq_cst_stop [OF assms(1)]
    by (cases b) (auto simp: drained_def)
  then show ?thesis by blast
qed (use assms in \<open>auto simp: drained_def\<close>)

interpretation seq_cst: refinement tso_init "tso_machine SeqCst SeqCst possible early" drained mem "stop_machine possible early"
  for possible early
proof
  show "drained tso_init" by (simp add: drained_def tso_init_def)
qed (use seq_cst_step in blast)+

section \<open>Properties\<close>

text \<open>
  A stop that is lost: both threads are through, every store has reached the memory, the
  operation is in flight, and no cancellation was submitted.
\<close>

definition lost_stop :: "tso_op \<Rightarrow> bool" where
  "lost_stop s \<longleftrightarrow>
     drained s \<and> stop_requested (mem s) \<and> start_at (mem s) = StartDone \<and> stop_at (mem s) = StopDone \<and>
     (\<exists>b. status (mem s) = InFlight b) \<and> cancels (mem s) = []"

lemmas tso_eval = tso_init_def tso_start_def tso_stop_def issue_def sees_def drained_def lost_stop_def stop_eval

text \<open>The two threads are at their stores: the request is submitted, and the callback has been called.\<close>

definition at_stores :: "tso_action list" where
  "at_stores = [Act (StartStep 0), Act (StartStep 0), Act (StartStep 9), Act RequestStop]"

lemma release_ptr_loses:
  "\<exists>s. exec (tso_machine Release flag_ord True early)
      (at_stores @ [Act (StartStep 0), Act (StartStep 0), Act StopStep, Act StopStep, DrainStart]
        @ (if flag_ord = Release then [DrainStop] else [])) tso_init = Some s \<and> lost_stop s"
  by (cases flag_ord) (simp_all add: at_stores_def tso_eval)

lemma release_flag_loses:
  "\<exists>s. exec (tso_machine ptr_ord Release True early)
      (at_stores @ [Act StopStep, Act StopStep, Act (StartStep 0), Act (StartStep 0), DrainStop]
        @ (if ptr_ord = Release then [DrainStart] else [])) tso_init = Some s \<and> lost_stop s"
  by (cases ptr_ord) (simp_all add: at_stores_def tso_eval)

lemma seq_cst_keeps:
  assumes "exec (tso_machine SeqCst SeqCst True early) as tso_init = Some s"
  shows "\<not> lost_stop s"
proof
  assume lost: "lost_stop s"
  have "reach op_init (stop_machine True early) (mem s)"
    using seq_cst.refines [OF assms] by (simp add: tso_init_def)
  then have inv: "ptr_inv (mem s)" "signal_inv (mem s)" "seen_inv (mem s)"
    using stop_possible.inv_reach by (auto simp: op_inv_def)
  obtain b where b: "status (mem s) = InFlight b" using lost by (auto simp: lost_stop_def)
  then have "alive (mem s)" using inv(2) by (auto simp: signal_inv_def)
  with inv(3) lost b show False by (auto simp: seen_inv_def engaged_def lost_stop_def)
qed

text \<open>
  With the memory orders of the source a request to stop can be lost on hardware with store
  buffers. Both stores are \<open>release\<close>, so both threads can load before the store of the
  other one has reached the memory: the stop callback finds no pointer, \<open>start\<close> finds no flag, and
  although both have finished and all stores have arrived, the operation stays in flight and
  is never cancelled.
\<close>

lemma cancellation_lost_on_tso:
  "\<exists>s. exec (tso_machine ptr_order flag_order True early)
      (at_stores @ [Act (StartStep 0), Act (StartStep 0), Act StopStep, Act StopStep, DrainStart, DrainStop]) tso_init
      = Some s \<and> lost_stop s"
  using release_ptr_loses [of Release early] by (simp add: ptr_order_def flag_order_def)

lemma stop_lost_iff:
  "(\<exists>as s. exec (tso_machine ptr_ord flag_ord True early) as tso_init = Some s \<and> lost_stop s)
   \<longleftrightarrow> ptr_ord = Release \<or> flag_ord = Release"
proof
  assume "\<exists>as s. exec (tso_machine ptr_ord flag_ord True early) as tso_init = Some s \<and> lost_stop s"
  then show "ptr_ord = Release \<or> flag_ord = Release"
    using seq_cst_keeps [of early] by (cases ptr_ord; cases flag_ord) auto
next
  assume "ptr_ord = Release \<or> flag_ord = Release"
  then show "\<exists>as s. exec (tso_machine ptr_ord flag_ord True early) as tso_init = Some s \<and> lost_stop s"
    using release_ptr_loses [of flag_ord early] release_flag_loses [of ptr_ord early] by blast
qed

text \<open>
  C12. With the orders of the source a stop can be lost on hardware with store buffers. Which orders are enough: a stop can be
  lost exactly if one of the two stores is only a release. With \<open>seq_cst\<close> for both, every execution is one of the
  sequentially consistent machine, and no stop is lost.
\<close>

theorem cancellation_orders:
  "(\<exists>as s. exec (tso_machine ptr_order flag_order True early) as tso_init = Some s \<and> lost_stop s) \<and>
   ((\<exists>as s. exec (tso_machine ptr_ord flag_ord True early) as tso_init = Some s \<and> lost_stop s)
     \<longleftrightarrow> ptr_ord = Release \<or> flag_ord = Release)"
  using cancellation_lost_on_tso [of early] stop_lost_iff by blast

end
