(* ===== verification/Global_Queue.thy ===== *)
theory Global_Queue
  imports Containers
begin

text \<open>
  The class \<open>global_task_queue\<close> of \<open>src/src/thread_pool.cpp\<close>: a \<open>std::deque\<close> of task pointers
  behind a mutex. Every operation takes the lock for its whole body, so each is one atomic
  operation on the list of tasks.
\<close>

record 'a global_task_queue =
  tasks :: "'a list"

definition gq_init :: "'a global_task_queue" where
  "gq_init = \<lparr>tasks = []\<rparr>"

definition gq_push :: "'a \<Rightarrow> 'a global_task_queue \<Rightarrow> 'a global_task_queue" where
  "gq_push task q = q\<lparr>tasks := tasks q @ [task]\<rparr>"

definition gq_pop_nonblocking :: "'a global_task_queue \<Rightarrow> 'a option \<times> 'a global_task_queue" where
  "gq_pop_nonblocking q =
     (case tasks q of
        [] \<Rightarrow> (None, q)
      | task # rest \<Rightarrow> (Some task, q\<lparr>tasks := rest\<rparr>))"

definition gq_empty_relaxed :: "'a global_task_queue \<Rightarrow> bool" where
  "gq_empty_relaxed q = (case tasks q of [] \<Rightarrow> True | _ \<Rightarrow> False)"

text \<open>The destructor: the pointers passed to \<open>delete\<close>.\<close>

definition gq_dtor :: "'a global_task_queue \<Rightarrow> 'a list" where
  "gq_dtor q = tasks q"

lemma gq_pop_result:
  "gq_pop_nonblocking q = (Some x, q') \<Longrightarrow> tasks q = x # tasks q'"
  "gq_pop_nonblocking q = (None, q') \<Longrightarrow> q' = q \<and> tasks q = []"
  by (auto simp: gq_pop_nonblocking_def split: list.splits)

lemma gq_empty_iff: "gq_empty_relaxed q \<longleftrightarrow> tasks q = []"
  by (simp add: gq_empty_relaxed_def split: list.splits)

lemma tasks_push [simp]: "tasks (gq_push x q) = tasks q @ [x]"
  by (simp add: gq_push_def)

lemma tasks_init [simp]: "tasks gq_init = []"
  by (simp add: gq_init_def)

interpretation global_queue: fifo_container "\<lambda>_. True" tasks gq_push gq_pop_nonblocking gq_empty_relaxed
  by unfold_locales (auto simp: gq_empty_iff dest: gq_pop_result)

text \<open>
  The global queue is first-in first-out: tasks pushed on an empty queue are returned by
  as many \<open>pop_nonblocking\<close> calls in the order of the pushes, after which the queue is empty.
\<close>

lemma global_queue_fifo:
  "fst (take_n gq_pop_nonblocking (length xs) (fold gq_push xs gq_init)) = xs
   \<and> gq_empty_relaxed (snd (take_n gq_pop_nonblocking (length xs) (fold gq_push xs gq_init)))"
proof -
  let ?q = "fold gq_push xs gq_init"
  have "tasks ?q = xs" using global_queue.items_fold_put [where q = gq_init and xs = xs] by simp
  then show ?thesis
    using global_queue.take_n_all [where q = ?q and n = "length xs"] global_queue.fifo_order [where q = gq_init and xs = xs]
    by (cases "take_n gq_pop_nonblocking (length xs) ?q") (simp add: gq_empty_iff)
qed

end
