(* ===== verification/Steal_Order.thy ===== *)
theory Steal_Order
  imports Work_Stealing_Deque
begin

text \<open>
  \<open>thread_pool::impl::steal_from_others\<close> of \<open>src/src/thread_pool.cpp\<close>: a 32-bit xorshift
  generator chooses where a worker starts to look for work, and a loop probes the deques of
  the other workers once around.
\<close>

section \<open>The generator\<close>

text \<open>\<open>static thread_local std::uint32_t rng_state = worker_id + 1\<close>.\<close>

definition rng_seed :: "nat \<Rightarrow> u32" where
  "rng_seed worker_id = word_of_nat worker_id + 1"

definition xorshift :: "u32 \<Rightarrow> u32" where
  "xorshift r =
     (let r1 = r XOR push_bit 13 r;
          r2 = r1 XOR drop_bit 17 r1
      in r2 XOR push_bit 5 r2)"

definition start_index :: "u32 \<Rightarrow> nat \<Rightarrow> nat" where
  "start_index r num_workers = unat r mod num_workers"

section \<open>The probing loop\<close>

definition probe_target :: "nat \<Rightarrow> nat \<Rightarrow> nat \<Rightarrow> nat" where
  "probe_target start num_workers i = (start + i) mod num_workers"

text \<open>The iterations from \<open>i\<close> on; the result is the task and the deques afterwards.\<close>

function probe_loop ::
  "nat \<Rightarrow> nat \<Rightarrow> nat \<Rightarrow> 'a work_stealing_deque list \<Rightarrow> 'a option \<times> 'a work_stealing_deque list" where
  "probe_loop worker_id start i deques =
     (if i < length deques
      then
        (let target = probe_target start (length deques) i in
         if target = worker_id then probe_loop worker_id start (i + 1) deques
         else
           (case deque_steal (deques ! target) of
              (Some task, q) \<Rightarrow> (Some task, deques[target := q])
            | (None, q) \<Rightarrow> probe_loop worker_id start (i + 1) (deques[target := q])))
      else (None, deques))"
  by pat_completeness auto
termination
  by (relation "measure (\<lambda>(w, s, i, ds). length ds - i)") auto

declare probe_loop.simps [simp del]

definition steal_from_others ::
  "nat \<Rightarrow> u32 \<Rightarrow> 'a work_stealing_deque list \<Rightarrow> 'a option \<times> u32 \<times> 'a work_stealing_deque list" where
  "steal_from_others worker_id rng deques =
     (let num_workers = length deques in
      if num_workers \<le> 1 then (None, rng, deques)
      else
        (let rng' = xorshift rng;
             start = start_index rng' num_workers;
             (r, deques') = probe_loop worker_id start 0 deques
         in (r, rng', deques')))"

section \<open>The generator never sticks\<close>

lemma push_bit_fixpoint:
  fixes x :: u32
  assumes "x = push_bit k x" and "0 < k"
  shows "x = 0"
proof (rule bit_eqI)
  fix n
  show "bit x n \<longleftrightarrow> bit 0 n"
  proof (induction n rule: less_induct)
    case (less n)
    have "bit x n \<longleftrightarrow> n < 32 \<and> k \<le> n \<and> bit x (n - k)"
      by (subst assms(1)) (auto simp: bit_push_bit_iff)
    then show ?case using less.IH [of "n - k"] assms(2) by auto
  qed
qed

lemma drop_bit_fixpoint:
  fixes x :: u32
  assumes "x = drop_bit k x" and "0 < k"
  shows "x = 0"
proof (rule bit_eqI)
  fix n
  have "bit x (n + m * k) \<longleftrightarrow> bit x n" for m
  proof (induction m)
    case (Suc m)
    have "bit x (n + m * k) \<longleftrightarrow> bit x (k + (n + m * k))"
      by (subst assms(1)) (simp add: bit_drop_bit_eq)
    with Suc show ?case by (simp add: algebra_simps)
  qed simp
  from this [of 32] show "bit x n \<longleftrightarrow> bit 0 n"
    using assms(2) bit_imp_le_length [of x "n + 32 * k"] by auto
qed

lemma xor_swap: "a XOR b = c XOR d \<Longrightarrow> a XOR c = b XOR d" for a b c d :: u32
  by (auto simp: bit_eq_iff bit_xor_iff)

lemma xor_zero_eq: "x XOR y = 0 \<Longrightarrow> x = y" for x y :: u32
  by (auto simp: bit_eq_iff bit_xor_iff)

lemma xor_push_bit_inject:
  fixes x y :: u32
  assumes "x XOR push_bit k x = y XOR push_bit k y" and "0 < k"
  shows "x = y"
proof -
  have "x XOR y = push_bit k x XOR push_bit k y" by (rule xor_swap [OF assms(1)])
  also have "\<dots> = push_bit k (x XOR y)" by simp
  finally have "x XOR y = push_bit k (x XOR y)" .
  then show ?thesis using assms(2) push_bit_fixpoint xor_zero_eq by blast
qed

lemma xor_drop_bit_inject:
  fixes x y :: u32
  assumes "x XOR drop_bit k x = y XOR drop_bit k y" and "0 < k"
  shows "x = y"
proof -
  have "x XOR y = drop_bit k x XOR drop_bit k y" by (rule xor_swap [OF assms(1)])
  also have "\<dots> = drop_bit k (x XOR y)" by simp
  finally have "x XOR y = drop_bit k (x XOR y)" .
  then show ?thesis using assms(2) drop_bit_fixpoint xor_zero_eq by blast
qed

lemma inj_xorshift: "inj xorshift"
proof (rule injI)
  fix x y assume "xorshift x = xorshift y"
  then have "(x XOR push_bit 13 x) XOR drop_bit 17 (x XOR push_bit 13 x)
      = (y XOR push_bit 13 y) XOR drop_bit 17 (y XOR push_bit 13 y)"
    unfolding xorshift_def Let_def by (rule xor_push_bit_inject) simp
  then have "x XOR push_bit 13 x = y XOR push_bit 13 y" by (rule xor_drop_bit_inject) simp
  then show "x = y" by (rule xor_push_bit_inject) simp
qed

lemma xorshift_zero [simp]: "xorshift 0 = 0"
  by (simp add: xorshift_def)

lemma xorshift_nonzero: "xorshift r = 0 \<longleftrightarrow> r = 0"
  using injD [OF inj_xorshift, of r 0] by auto

lemma rng_seed_nonzero:
  assumes "worker_id < 2 ^ 32 - 1"
  shows "rng_seed worker_id \<noteq> 0"
proof -
  have "unat (rng_seed worker_id) = worker_id + 1"
    using assms by (simp add: rng_seed_def unat_word_ariths unat_of_nat)
  then show ?thesis by (metis add_is_0 one_neq_zero unat_0)
qed

text \<open>
  One step of the generator is a permutation of the 32-bit values that fixes only
  zero as image of zero: distinct states stay distinct, and a nonzero state never becomes
  zero, so a worker (whose seed is \<open>worker_id + 1\<close>) never gets stuck on one start index
  because of a zero state.
\<close>

lemma xorshift_permutes:
  "bij xorshift \<and> (xorshift r = 0 \<longleftrightarrow> r = 0) \<and> (worker_id < 2 ^ 32 - 1 \<longrightarrow> rng_seed worker_id \<noteq> 0)"
proof -
  have "surj xorshift"
    using inj_xorshift by (rule finite_UNIV_inj_surj [rotated]) simp
  then show ?thesis using inj_xorshift xorshift_nonzero rng_seed_nonzero by (simp add: bij_def)
qed

section \<open>The probing loop visits every other worker once\<close>

lemma inj_on_probe_target: "inj_on (probe_target start n) {..<n}"
proof (rule linorder_inj_onI)
  fix i j :: nat assume ij: "i < j" "i \<in> {..<n}" "j \<in> {..<n}"
  show "probe_target start n i \<noteq> probe_target start n j"
  proof
    assume "probe_target start n i = probe_target start n j"
    then have "n dvd (start + j) - (start + i)"
      using ij mod_eq_dvd_iff_nat [of "start + i" "start + j" n] by (simp add: probe_target_def)
    then have "n dvd j - i" by simp
    then have "n \<le> j - i" using ij(1) by (auto dest: dvd_imp_le)
    then show False using ij by auto
  qed
qed auto

lemma start_index_less: "0 < n \<Longrightarrow> start_index r n < n"
  by (simp add: start_index_def)

lemma probe_target_less: "0 < n \<Longrightarrow> probe_target start n i < n"
  by (simp add: probe_target_def)

lemma probe_target_image: "0 < n \<Longrightarrow> probe_target start n ` {..<n} = {..<n}"
  by (rule endo_inj_surj) (auto simp: inj_on_probe_target probe_target_less)

lemma probe_target_surj:
  assumes "t < n" obtains i where "i < n" and "probe_target start n i = t"
  using assms probe_target_image [of n start] by (metis gr_implies_not0 imageE lessThan_iff neq0_conv)

lemma probe_loop_end: "length ds \<le> i \<Longrightarrow> probe_loop w start i ds = (None, ds)"
  by (subst probe_loop.simps) simp

lemma probe_loop_hit:
  assumes "i < length ds" and "t = probe_target start (length ds) i" and "t \<noteq> w"
    and "deque_steal (ds ! t) = (Some x, q)"
  shows "probe_loop w start i ds = (Some x, ds[t := q])"
  using assms by (subst probe_loop.simps) (simp add: Let_def)

lemma probe_loop_miss:
  assumes "i < length ds" and "t = probe_target start (length ds) i"
    and "t = w \<or> deque_wf (ds ! t) \<and> deque_steal (ds ! t) = (None, q)"
  shows "probe_loop w start i ds = probe_loop w start (i + 1) ds"
proof -
  have "t \<noteq> w \<Longrightarrow> ds[t := q] = ds"
    using assms(3) deque_steal_result(2) [of "ds ! t" q] by auto
  with assms show ?thesis by (subst probe_loop.simps) (auto simp: Let_def)
qed

definition probe_result ::
  "nat \<Rightarrow> nat \<Rightarrow> nat \<Rightarrow> 'a work_stealing_deque list \<Rightarrow> 'a option \<times> 'a work_stealing_deque list \<Rightarrow> bool" where
  "probe_result w start i ds res \<longleftrightarrow>
     (case res of
        (None, ds') \<Rightarrow> ds' = ds \<and>
          (\<forall>j. i \<le> j \<and> j < length ds \<and> probe_target start (length ds) j \<noteq> w \<longrightarrow>
             contents (ds ! probe_target start (length ds) j) = [])
      | (Some x, ds') \<Rightarrow> \<exists>t < length ds. t \<noteq> w \<and>
          (\<exists>q. ds' = ds[t := q] \<and> deque_wf q \<and> contents (ds ! t) = x # contents q))"

lemma probe_result_miss:
  assumes "probe_result w start (i + 1) ds res"
    and "probe_target start (length ds) i \<noteq> w \<Longrightarrow> contents (ds ! probe_target start (length ds) i) = []"
  shows "probe_result w start i ds res"
proof -
  have "i \<le> j \<longleftrightarrow> j = i \<or> i + 1 \<le> j" for j by auto
  with assms show ?thesis by (auto simp: probe_result_def split: prod.splits option.splits)
qed

lemma probe_loop_result:
  assumes "\<forall>q \<in> set ds. deque_wf q"
  shows "probe_result w start i ds (probe_loop w start i ds)"
proof (induction "length ds - i" arbitrary: i)
  case 0
  then show ?case by (auto simp: probe_loop_end probe_result_def)
next
  case (Suc k)
  let ?t = "probe_target start (length ds) i"
  from Suc.hyps(2) have i: "i < length ds" and k: "k = length ds - (i + 1)" by auto
  have t: "?t < length ds" using i by (intro probe_target_less) linarith
  with assms have wf: "deque_wf (ds ! ?t)" by simp
  obtain r q where st: "deque_steal (ds ! ?t) = (r, q)" by (cases "deque_steal (ds ! ?t)")
  show ?case
  proof (cases "?t = w \<or> r = None")
    case True
    with st wf have "?t = w \<or> deque_wf (ds ! ?t) \<and> deque_steal (ds ! ?t) = (None, q)" by auto
    from probe_loop_miss [OF i refl this] Suc.hyps(1) [OF k]
    have "probe_result w start (i + 1) ds (probe_loop w start i ds)" by simp
    then show ?thesis
      by (rule probe_result_miss) (use True st deque_steal_result(2) [OF wf] in auto)
  next
    case False
    then obtain x where "r = Some x" "?t \<noteq> w" by auto
    with probe_loop_hit [OF i refl] st t deque_steal_result(1) [OF wf] show ?thesis
      by (auto simp: probe_result_def)
  qed
qed

text \<open>
  C37. A round of stealing looks at every other worker. For well-formed deques and more than
  one worker, the probed indices are a permutation of all indices; the result is null only if
  the deques of all other workers are empty, and then nothing has changed; otherwise it is the
  oldest task of one other worker's deque, which is the only deque that changes. The worker's
  own deque is never touched.
\<close>

theorem steal_from_others_complete:
  assumes "\<forall>q \<in> set ds. deque_wf q" and "1 < length ds" and "w < length ds"
    and "steal_from_others w rng ds = (r, rng', ds')"
  shows "bij_betw (probe_target (start_index rng' (length ds)) (length ds)) {..<length ds} {..<length ds}
    \<and> rng' = xorshift rng \<and> ds' ! w = ds ! w
    \<and> (case r of
         None \<Rightarrow> ds' = ds \<and> (\<forall>t < length ds. t \<noteq> w \<longrightarrow> contents (ds ! t) = [])
       | Some x \<Rightarrow> \<exists>t < length ds. t \<noteq> w \<and> (\<exists>q. ds' = ds[t := q] \<and> deque_wf q \<and> contents (ds ! t) = x # contents q))"
proof -
  let ?n = "length ds" and ?start = "start_index rng' (length ds)"
  have res: "rng' = xorshift rng" "probe_loop w ?start 0 ds = (r, ds')"
    using assms(2,4) by (auto simp: steal_from_others_def Let_def split: prod.splits)
  have "0 < ?n" using assms(2) by linarith
  then have bij: "bij_betw (probe_target ?start ?n) {..<?n} {..<?n}"
    by (simp only: bij_betw_def inj_on_probe_target probe_target_image simp_thms)
  have spec: "probe_result w ?start 0 ds (r, ds')"
    using probe_loop_result [OF assms(1), of w ?start 0] res(2) by simp
  show ?thesis
  proof (cases r)
    case None
    have "contents (ds ! t) = []" if "t < ?n" "t \<noteq> w" for t
      using probe_target_surj [OF that(1), of ?start] spec None that(2)
      by (auto simp: probe_result_def)
    with None spec res bij show ?thesis by (auto simp: probe_result_def)
  next
    case (Some x)
    with spec res bij show ?thesis by (auto simp: probe_result_def)
  qed
qed

theorem steal_from_others_complete_witness:
  "\<exists>rng' q. steal_from_others 0 (rng_seed 0) [init_deque 2, fold deque_push [4, 5 :: nat] (init_deque 2)]
      = (Some 4, rng', [init_deque 2, q]) \<and> contents q = [5]"
proof -
  define d where "d = fold deque_push [4, 5 :: nat] (init_deque 2)"
  let ?ds = "[init_deque 2, d]"
  obtain r rng' ds' where st: "steal_from_others 0 (rng_seed 0) ?ds = (r, rng', ds')"
    by (cases "steal_from_others 0 (rng_seed 0) ?ds")
  have d: "contents d = [4, 5]" and wf: "\<forall>q \<in> set ?ds. deque_wf q"
    using deque_of_list [of 2 "[4, 5 :: nat]"] deque_wf_init [of 2] by (simp_all add: d_def)
  note complete = steal_from_others_complete [OF wf _ _ st, simplified]
  have "r \<noteq> None"
  proof
    assume "r = None"
    with complete have "contents (?ds ! 1) = []" by fastforce
    with d show False by simp
  qed
  then obtain x where r: "r = Some x" by auto
  with complete obtain t q where
    "t < 2" "t \<noteq> 0" "ds' = ?ds[t := q]" "contents (?ds ! t) = x # contents q"
    by (auto simp: numeral_2_eq_2)
  with d have "ds' = [init_deque 2, q]" "x = 4" "contents q = [5]" by (auto simp: less_2_cases_iff)
  with st r show ?thesis unfolding d_def by blast
qed

end
