(* ===== verification/Thread_Pool.thy ===== *)
theory Thread_Pool
  imports Global_Queue Steal_Order
begin

text \<open>
  \<open>thread_pool::impl\<close> of \<open>src/src/thread_pool.cpp\<close>: the worker loop, \<open>enqueue\<close>, the sleeping
  protocol with its mutex and condition variable, and the destructor, as one machine in which
  every thread moves in atomic steps. An operation of a deque or of the global queue is one
  step; \<open>Pool_Fine\<close> cuts the operations of the deques into their accesses and shows that this machine
  has all the behaviour of that one (a steal may lose its race and \<open>empty\<close> be mistaken, which is a choice
  of the step). The scan over the deques in \<open>steal_from_others\<close> and in \<open>has_local_work\<close> is one step per
  deque, and the three loads of the wait predicate are separate steps.

  Tasks are opaque. A running task may enqueue further tasks at any time and eventually
  returns. Threads outside the pool are numbered clients.
\<close>

section \<open>State\<close>

text \<open>Where a round of stealing was started: first in the loop body, or in spin \<open>n\<close>.\<close>

datatype steal_ctx = First | Spin nat

datatype 'a worker_pc =
    Fetch                          \<comment> \<open>\<open>local_queue->pop()\<close>\<close>
  | FetchGlobal                    \<comment> \<open>\<open>global_queue.pop_nonblocking()\<close>\<close>
  | StealEntry steal_ctx           \<comment> \<open>entry of \<open>steal_from_others\<close>\<close>
  | Probe steal_ctx nat nat        \<comment> \<open>its loop: start index, iteration\<close>
  | Run 'a                         \<comment> \<open>inside the task\<close>
  | RunNotify 'a                   \<comment> \<open>inside the task, in \<open>enqueue\<close>, before the load of \<open>sleeping_workers\<close>\<close>
  | RunLock 'a                     \<comment> \<open>inside the task, in \<open>enqueue\<close>, before the lock\<close>
  | StopCheck                      \<comment> \<open>the load of \<open>stop\<close> after the search\<close>
  | SpinGlobal nat                 \<comment> \<open>head of the spin loop\<close>
  | Lock                           \<comment> \<open>before \<open>unique_lock lock{mutex}\<close>\<close>
  | Locked                         \<comment> \<open>mutex held: load of \<open>stop\<close>\<close>
  | CheckGlobal                    \<comment> \<open>mutex held: \<open>global_queue.empty_relaxed()\<close>\<close>
  | CheckDeque nat                 \<comment> \<open>mutex held: \<open>has_local_work()\<close> at a deque\<close>
  | IncSleeping                    \<comment> \<open>mutex held: \<open>sleeping_workers.fetch_add\<close>\<close>
  | PredStop                       \<comment> \<open>mutex held: wait predicate, load of \<open>stop\<close>\<close>
  | PredGlobal                     \<comment> \<open>mutex held: wait predicate, global queue\<close>
  | PredDeque nat                  \<comment> \<open>mutex held: wait predicate, at a deque\<close>
  | Blocked                        \<comment> \<open>in \<open>cv.wait\<close>, mutex released\<close>
  | Woken                          \<comment> \<open>in \<open>cv.wait\<close>, notified, before the lock\<close>
  | DecSleeping                    \<comment> \<open>mutex held: \<open>sleeping_workers.fetch_sub\<close>\<close>
  | Exited                         \<comment> \<open>the worker loop has returned\<close>

datatype client_pc = ClientIdle | ClientNotify | ClientLock

datatype destroy_pc = NotDestroyed | DestroyLock | DestroyJoin | Destroyed

record 'a pool =
  gqueue :: "'a global_task_queue"
  deques :: "'a work_stealing_deque list"
  workers :: "'a worker_pc list"
  rngs :: "u32 list"
  stop_flag :: bool
  sleeping :: int
  mutex_owner :: "nat option"
  clients :: "client_pc list"
  destroyer :: destroy_pc
  submitted :: "'a list"
  finished :: "'a list"

text \<open>
  The constructor \<open>thread_pool(thread_count)\<close>: at least one worker. \<open>submitted\<close> and
  \<open>finished\<close> record the tasks passed to \<open>enqueue\<close> and the tasks that have returned; \<open>m\<close> is the
  number of threads outside the pool.
\<close>

definition pool_ctor :: "nat \<Rightarrow> nat \<Rightarrow> 'a pool" where
  "pool_ctor thread_count m =
     (let n = (if thread_count = 0 then 1 else thread_count) in
      \<lparr>gqueue = gq_init, deques = replicate n (init_deque default_capacity),
       workers = replicate n Fetch, rngs = map rng_seed [0..<n], stop_flag = False, sleeping = 0,
       mutex_owner = None, clients = replicate m ClientIdle, destroyer = NotDestroyed,
       submitted = [], finished = []\<rparr>)"

section \<open>Operations\<close>

definition has_local_work :: "'a pool \<Rightarrow> bool" where
  "has_local_work p = (\<exists>q \<in> set (deques p). \<not> deque_empty q)"

definition pool_empty :: "'a pool \<Rightarrow> bool" where
  "pool_empty p = (gq_empty_relaxed (gqueue p) \<and> \<not> has_local_work p)"

text \<open>The push of \<open>enqueue\<close>: into the thread's own deque, or into the global queue.\<close>

definition push_local :: "nat \<Rightarrow> 'a \<Rightarrow> 'a pool \<Rightarrow> 'a pool" where
  "push_local i x p =
     p\<lparr>deques := (deques p)[i := deque_push x (deques p ! i)], submitted := submitted p @ [x]\<rparr>"

definition push_global :: "'a \<Rightarrow> 'a pool \<Rightarrow> 'a pool" where
  "push_global x p = p\<lparr>gqueue := gq_push x (gqueue p), submitted := submitted p @ [x]\<rparr>"

definition set_worker :: "nat \<Rightarrow> 'a worker_pc \<Rightarrow> 'a pool \<Rightarrow> 'a pool" where
  "set_worker i pc p = p\<lparr>workers := (workers p)[i := pc]\<rparr>"

definition set_client :: "nat \<Rightarrow> client_pc \<Rightarrow> 'a pool \<Rightarrow> 'a pool" where
  "set_client j pc p = p\<lparr>clients := (clients p)[j := pc]\<rparr>"

text \<open>
  \<open>cv.notify_one()\<close>: wakes one blocked worker, which one is the choice \<open>w\<close> of the step, and
  does nothing if no worker is blocked. \<open>cv.notify_all()\<close> wakes them all.
\<close>

definition notify_one :: "nat \<Rightarrow> 'a pool \<Rightarrow> 'a pool option" where
  "notify_one w p =
     (if Blocked \<in> set (workers p)
      then (if w < length (workers p) \<and> workers p ! w = Blocked then Some (set_worker w Woken p) else None)
      else Some p)"

definition notify_all :: "'a pool \<Rightarrow> 'a pool" where
  "notify_all p = p\<lparr>workers := map (\<lambda>pc. if pc = Blocked then Woken else pc) (workers p)\<rparr>"

definition steal_failed :: "steal_ctx \<Rightarrow> 'a worker_pc" where
  "steal_failed c = (case c of First \<Rightarrow> StopCheck | Spin n \<Rightarrow> SpinGlobal (n + 1))"

text \<open>The three ways to look for a task, each giving the next program counter.\<close>

definition fetch_local :: "nat \<Rightarrow> 'a pool \<Rightarrow> 'a pool" where
  "fetch_local i p =
     (case deque_pop (deques p ! i) of
        (r, q) \<Rightarrow>
          set_worker i (case r of Some x \<Rightarrow> Run x | None \<Rightarrow> FetchGlobal) (p\<lparr>deques := (deques p)[i := q]\<rparr>))"

definition fetch_global :: "nat \<Rightarrow> 'a worker_pc \<Rightarrow> 'a pool \<Rightarrow> 'a pool" where
  "fetch_global i other p =
     (case gq_pop_nonblocking (gqueue p) of
        (r, g) \<Rightarrow> set_worker i (case r of Some x \<Rightarrow> Run x | None \<Rightarrow> other) (p\<lparr>gqueue := g\<rparr>))"

definition steal_entry :: "nat \<Rightarrow> steal_ctx \<Rightarrow> 'a pool \<Rightarrow> 'a pool" where
  "steal_entry i c p =
     (let n = length (deques p) in
      if n \<le> 1 then set_worker i (steal_failed c) p
      else
        (let r = xorshift (rngs p ! i) in
         set_worker i (Probe c (start_index r n) 0) (p\<lparr>rngs := (rngs p)[i := r]\<rparr>)))"

definition probe :: "nat \<Rightarrow> bool \<Rightarrow> steal_ctx \<Rightarrow> nat \<Rightarrow> nat \<Rightarrow> 'a pool \<Rightarrow> 'a pool" where
  "probe i lost c start k p =
     (let n = length (deques p) in
      if k < n
      then
        (let t = probe_target start n k in
         if t = i \<or> lost then set_worker i (Probe c start (k + 1)) p
         else
           (case deque_steal (deques p ! t) of
              (r, q) \<Rightarrow>
                set_worker i (case r of Some x \<Rightarrow> Run x | None \<Rightarrow> Probe c start (k + 1))
                  (p\<lparr>deques := (deques p)[t := q]\<rparr>)))
      else set_worker i (steal_failed c) p)"

text \<open>
  One step of worker \<open>i\<close> in \<open>worker_loop\<close>. An operation of a deque is one step. \<open>lost\<close> says that
  another thread changes the deque between the accesses of this one, so that a steal fails, or \<open>empty\<close> in
  \<open>has_local_work\<close> gives the wrong answer; it has no meaning elsewhere. \<open>None\<close>: the worker cannot
  move (it waits for the mutex or for a notification, is inside a task, or has exited).
\<close>

definition worker_step :: "nat \<Rightarrow> bool \<Rightarrow> 'a pool \<Rightarrow> 'a pool option" where
  "worker_step i lost p =
     (if i < length (workers p) then
        (case workers p ! i of
           Fetch \<Rightarrow> Some (fetch_local i p)
         | FetchGlobal \<Rightarrow> Some (fetch_global i (StealEntry First) p)
         | StealEntry c \<Rightarrow> Some (steal_entry i c p)
         | Probe c start k \<Rightarrow> Some (probe i lost c start k p)
         | StopCheck \<Rightarrow> Some (set_worker i (if stop_flag p then Exited else SpinGlobal 0) p)
         | SpinGlobal n \<Rightarrow>
             Some (if n < 32 then fetch_global i (StealEntry (Spin n)) p else set_worker i Lock p)
         | Lock \<Rightarrow>
             (if mutex_owner p = None then Some (set_worker i Locked (p\<lparr>mutex_owner := Some i\<rparr>)) else None)
         | Locked \<Rightarrow>
             Some (if stop_flag p then set_worker i Exited (p\<lparr>mutex_owner := None\<rparr>)
                   else set_worker i CheckGlobal p)
         | CheckGlobal \<Rightarrow>
             Some (if gq_empty_relaxed (gqueue p) then set_worker i (CheckDeque 0) p
                   else set_worker i Fetch (p\<lparr>mutex_owner := None\<rparr>))
         | CheckDeque k \<Rightarrow>
             Some (if k < length (deques p)
                   then (if deque_empty (deques p ! k) \<noteq> lost then set_worker i (CheckDeque (k + 1)) p
                         else set_worker i Fetch (p\<lparr>mutex_owner := None\<rparr>))
                   else set_worker i IncSleeping p)
         | IncSleeping \<Rightarrow> Some (set_worker i PredStop (p\<lparr>sleeping := sleeping p + 1\<rparr>))
         | PredStop \<Rightarrow> Some (set_worker i (if stop_flag p then DecSleeping else PredGlobal) p)
         | PredGlobal \<Rightarrow>
             Some (set_worker i (if gq_empty_relaxed (gqueue p) then PredDeque 0 else DecSleeping) p)
         | PredDeque k \<Rightarrow>
             Some (if k < length (deques p)
                   then set_worker i (if deque_empty (deques p ! k) \<noteq> lost then PredDeque (k + 1) else DecSleeping) p
                   else set_worker i Blocked (p\<lparr>mutex_owner := None\<rparr>))
         | Woken \<Rightarrow>
             (if mutex_owner p = None then Some (set_worker i PredStop (p\<lparr>mutex_owner := Some i\<rparr>)) else None)
         | DecSleeping \<Rightarrow>
             Some (set_worker i Fetch (p\<lparr>sleeping := sleeping p - 1, mutex_owner := None\<rparr>))
         | _ \<Rightarrow> None)
      else None)"

text \<open>Steps of the task that worker \<open>i\<close> runs: enqueue a task, go on in \<open>enqueue\<close>, return.\<close>

definition task_enqueue :: "nat \<Rightarrow> 'a \<Rightarrow> 'a pool \<Rightarrow> 'a pool option" where
  "task_enqueue i x p =
     (if i < length (workers p) then
        (case workers p ! i of
           Run t \<Rightarrow> Some (set_worker i (RunNotify t) (push_local i x p))
         | _ \<Rightarrow> None)
      else None)"

definition task_step :: "nat \<Rightarrow> nat \<Rightarrow> 'a pool \<Rightarrow> 'a pool option" where
  "task_step i w p =
     (if i < length (workers p) then
        (case workers p ! i of
           RunNotify t \<Rightarrow> Some (set_worker i (if sleeping p > 0 then RunLock t else Run t) p)
         | RunLock t \<Rightarrow>
             (if mutex_owner p = None then map_option (set_worker i (Run t)) (notify_one w p) else None)
         | Run t \<Rightarrow> Some (set_worker i Fetch (p\<lparr>finished := finished p @ [t]\<rparr>))
         | _ \<Rightarrow> None)
      else None)"

text \<open>
  \<open>thread_pool::enqueue\<close> called by a thread outside the pool. The pool must not be used once
  its destructor runs.
\<close>

definition client_enqueue :: "nat \<Rightarrow> 'a \<Rightarrow> 'a pool \<Rightarrow> 'a pool option" where
  "client_enqueue j x p =
     (if destroyer p = NotDestroyed \<and> j < length (clients p) \<and> clients p ! j = ClientIdle
      then Some (set_client j ClientNotify (push_global x p)) else None)"

definition client_step :: "nat \<Rightarrow> nat \<Rightarrow> 'a pool \<Rightarrow> 'a pool option" where
  "client_step j w p =
     (if j < length (clients p) then
        (case clients p ! j of
           ClientIdle \<Rightarrow> None
         | ClientNotify \<Rightarrow> Some (set_client j (if sleeping p > 0 then ClientLock else ClientIdle) p)
         | ClientLock \<Rightarrow>
             (if mutex_owner p = None then map_option (set_client j ClientIdle) (notify_one w p) else None))
      else None)"

definition spurious_wake :: "nat \<Rightarrow> 'a pool \<Rightarrow> 'a pool option" where
  "spurious_wake i p =
     (if i < length (workers p) \<and> workers p ! i = Blocked then Some (set_worker i Woken p) else None)"

text \<open>
  The destructor: set \<open>stop\<close>, notify under the mutex, join. No call of a client may be in
  progress when it starts.
\<close>

definition destroy_step :: "'a pool \<Rightarrow> 'a pool option" where
  "destroy_step p =
     (case destroyer p of
        NotDestroyed \<Rightarrow>
          (if list_all (\<lambda>pc. pc = ClientIdle) (clients p)
           then Some (p\<lparr>stop_flag := True, destroyer := DestroyLock\<rparr>) else None)
      | DestroyLock \<Rightarrow>
          (if mutex_owner p = None then Some (notify_all p\<lparr>destroyer := DestroyJoin\<rparr>) else None)
      | DestroyJoin \<Rightarrow>
          (if list_all (\<lambda>pc. pc = Exited) (workers p) then Some (p\<lparr>destroyer := Destroyed\<rparr>) else None)
      | Destroyed \<Rightarrow> None)"

datatype 'a pool_action =
    ClientEnqueue nat 'a | ClientStep nat nat | WorkerStep nat bool | TaskEnqueue nat 'a
  | TaskStep nat nat | SpuriousWake nat | DestroyStep

fun pool_step :: "'a pool_action \<Rightarrow> 'a pool \<Rightarrow> 'a pool option" where
  "pool_step (ClientEnqueue j x) p = client_enqueue j x p"
| "pool_step (ClientStep j w) p = client_step j w p"
| "pool_step (WorkerStep i lost) p = worker_step i lost p"
| "pool_step (TaskEnqueue i x) p = task_enqueue i x p"
| "pool_step (TaskStep i w) p = task_step i w p"
| "pool_step (SpuriousWake i) p = spurious_wake i p"
| "pool_step DestroyStep p = destroy_step p"

section \<open>Invariants\<close>

lemmas pool_ops [step_defs] =
  set_worker_def set_client_def push_local_def push_global_def notify_all_def
  fetch_local_def fetch_global_def steal_entry_def probe_def

text \<open>Sizes, and well-formed deques.\<close>

definition shape_inv :: "'a pool \<Rightarrow> bool" where
  "shape_inv p \<longleftrightarrow>
     0 < length (workers p) \<and> length (deques p) = length (workers p) \<and>
     length (rngs p) = length (workers p) \<and> (\<forall>q \<in> set (deques p). deque_wf q)"

lemma shape_deque: "shape_inv p \<Longrightarrow> i < length (workers p) \<Longrightarrow> deque_wf (deques p ! i)"
  by (simp add: shape_inv_def)

lemma shape_set_worker [simp]: "shape_inv (set_worker i pc p) = shape_inv p"
  by (simp add: shape_inv_def set_worker_def)

lemma shape_set_client [simp]: "shape_inv (set_client j pc p) = shape_inv p"
  by (simp add: shape_inv_def set_client_def)

lemma shape_frame [simp]:
  "shape_inv (p\<lparr>gqueue := g\<rparr>) = shape_inv p" "shape_inv (p\<lparr>mutex_owner := m\<rparr>) = shape_inv p"
  "shape_inv (p\<lparr>sleeping := z\<rparr>) = shape_inv p" "shape_inv (p\<lparr>submitted := xs\<rparr>) = shape_inv p"
  "shape_inv (p\<lparr>finished := xs\<rparr>) = shape_inv p" "shape_inv (p\<lparr>stop_flag := b\<rparr>) = shape_inv p"
  "shape_inv (p\<lparr>destroyer := d\<rparr>) = shape_inv p"
  "length (rs) = length (rngs p) \<Longrightarrow> shape_inv (p\<lparr>rngs := rs\<rparr>) = shape_inv p"
  by (simp_all add: shape_inv_def)

lemma shape_set_deque: "shape_inv p \<Longrightarrow> deque_wf q \<Longrightarrow> shape_inv (p\<lparr>deques := (deques p)[i := q]\<rparr>)"
  by (auto simp: shape_inv_def dest!: set_update_subset_insert [THEN subsetD])

lemma shape_notify_one: "notify_one w p = Some p' \<Longrightarrow> shape_inv p' = shape_inv p"
  by (auto simp: notify_one_def split: if_splits)

lemma shape_push_local: "shape_inv p \<Longrightarrow> i < length (workers p) \<Longrightarrow> shape_inv (push_local i x p)"
  using shape_set_deque [of p "deque_push x (deques p ! i)" i]
  by (simp add: push_local_def deque_push_spec shape_deque)

lemma shape_push_global [simp]: "shape_inv (push_global x p) = shape_inv p"
  by (simp add: push_global_def)

lemma shape_notify_all [simp]: "shape_inv (notify_all p) = shape_inv p"
  by (simp add: shape_inv_def notify_all_def)

lemma shape_fetch_local: "shape_inv p \<Longrightarrow> i < length (workers p) \<Longrightarrow> shape_inv (fetch_local i p)"
  by (auto simp: fetch_local_def split: prod.splits
      intro!: shape_set_deque dest: deque_wf_pop [OF shape_deque])

lemma shape_fetch_global: "shape_inv p \<Longrightarrow> shape_inv (fetch_global i other p)"
  by (auto simp: fetch_global_def split: prod.splits)

lemma shape_steal_entry: "shape_inv p \<Longrightarrow> shape_inv (steal_entry i c p)"
  by (auto simp: steal_entry_def Let_def)

lemma shape_probe: "shape_inv p \<Longrightarrow> shape_inv (probe i lost c start k p)"
proof -
  assume inv: "shape_inv p"
  have "deque_wf q" if "deque_steal (deques p ! probe_target start (length (deques p)) k) = (r, q)"
    "k < length (deques p)" for r q
    using deque_wf_steal [of "deques p ! probe_target start (length (deques p)) k"] inv that
      probe_target_less [of "length (deques p)" start k]
    by (auto simp: shape_inv_def)
  with inv show ?thesis
    by (auto simp: probe_def Let_def split: prod.splits intro!: shape_set_deque)
qed

lemmas shape_rules = shape_fetch_local shape_fetch_global shape_steal_entry shape_probe
  shape_push_local shape_notify_one

lemma shape_worker_step: "shape_inv p \<Longrightarrow> worker_step i lost p = Some p' \<Longrightarrow> shape_inv p'"
  by (auto simp: worker_step_def shape_rules split: if_splits worker_pc.splits)

lemma shape_step: "shape_inv p \<Longrightarrow> pool_step a p = Some p' \<Longrightarrow> shape_inv p'"
  by (cases a)
    (auto simp: shape_rules client_enqueue_def client_step_def task_enqueue_def task_step_def
      spurious_wake_def destroy_step_def
      split: if_splits client_pc.splits worker_pc.splits destroy_pc.splits
      intro: shape_worker_step dest: shape_notify_one)

lemma shape_ctor: "shape_inv (pool_ctor n m)"
  by (auto simp: shape_inv_def pool_ctor_def Let_def deque_wf_init)

text \<open>
  The mutex is held exactly by a worker whose program counter is inside the critical section,
  and \<open>sleeping_workers\<close> counts the workers between its increment and its decrement.
\<close>

fun holds_mutex :: "'a worker_pc \<Rightarrow> bool" where
  "holds_mutex Locked = True"
| "holds_mutex CheckGlobal = True"
| "holds_mutex (CheckDeque k) = True"
| "holds_mutex IncSleeping = True"
| "holds_mutex PredStop = True"
| "holds_mutex PredGlobal = True"
| "holds_mutex (PredDeque k) = True"
| "holds_mutex DecSleeping = True"
| "holds_mutex _ = False"

fun counted :: "'a worker_pc \<Rightarrow> bool" where
  "counted PredStop = True"
| "counted PredGlobal = True"
| "counted (PredDeque k) = True"
| "counted Blocked = True"
| "counted Woken = True"
| "counted DecSleeping = True"
| "counted _ = False"

definition lock_inv :: "'a pool \<Rightarrow> bool" where
  "lock_inv p \<longleftrightarrow>
     (\<forall>i < length (workers p). holds_mutex (workers p ! i) \<longleftrightarrow> mutex_owner p = Some i) \<and>
     (\<forall>i. mutex_owner p = Some i \<longrightarrow> i < length (workers p)) \<and>
     sleeping p = int (length (filter counted (workers p)))"

text \<open>
  A change of one program counter: who may hold the mutex afterwards, and how the counter
  moves.
\<close>

lemma lock_inv_set_worker:
  assumes "lock_inv p" and "i < length (workers p)"
    and "workers p' = (workers p)[i := pc]"
    and "mutex_owner p' = (if holds_mutex pc then Some i
           else if holds_mutex (workers p ! i) then None else mutex_owner p)"
    and "holds_mutex pc \<Longrightarrow> \<not> holds_mutex (workers p ! i) \<Longrightarrow> mutex_owner p = None"
    and "sleeping p' = sleeping p - of_bool (counted (workers p ! i)) + of_bool (counted pc)"
  shows "lock_inv p'"
  using assms filter_length_update [OF assms(2), of counted pc]
  by (auto simp: lock_inv_def nth_list_update split: if_splits)

lemma lock_inv_ctor: "lock_inv (pool_ctor n m)"
  by (auto simp: lock_inv_def pool_ctor_def Let_def filter_empty_conv)

lemma lock_inv_cong:
  "lock_inv p \<Longrightarrow> workers p' = workers p \<Longrightarrow> mutex_owner p' = mutex_owner p \<Longrightarrow> sleeping p' = sleeping p \<Longrightarrow>
    lock_inv p'"
  by (simp add: lock_inv_def)

text \<open>What a step of a worker does to its program counter, the mutex and the counter.\<close>

definition moves :: "nat \<Rightarrow> 'a pool \<Rightarrow> 'a pool \<Rightarrow> bool" where
  "moves i p p' \<longleftrightarrow> (\<exists>pc.
     workers p' = (workers p)[i := pc] \<and>
     mutex_owner p' = (if holds_mutex pc then Some i
         else if holds_mutex (workers p ! i) then None else mutex_owner p) \<and>
     (holds_mutex pc \<longrightarrow> \<not> holds_mutex (workers p ! i) \<longrightarrow> mutex_owner p = None) \<and>
     sleeping p' = sleeping p - of_bool (counted (workers p ! i)) + of_bool (counted pc))"

lemma moves_set_worker:
  assumes "workers q = workers p"
    and "mutex_owner q = (if holds_mutex pc then Some i
         else if holds_mutex (workers p ! i) then None else mutex_owner p)"
    and "holds_mutex pc \<Longrightarrow> \<not> holds_mutex (workers p ! i) \<Longrightarrow> mutex_owner p = None"
    and "sleeping q = sleeping p - of_bool (counted (workers p ! i)) + of_bool (counted pc)"
  shows "moves i p (set_worker i pc q)"
  unfolding moves_def using assms by (intro exI [of _ pc]) (simp add: set_worker_def)

lemma control_of_found [simp]:
  "holds_mutex (case r of Some x \<Rightarrow> Run x | None \<Rightarrow> pc) = (r = None \<and> holds_mutex pc)"
  "counted (case r of Some x \<Rightarrow> Run x | None \<Rightarrow> pc) = (r = None \<and> counted pc)"
  "\<not> holds_mutex (steal_failed c)" "\<not> counted (steal_failed c)"
  by (simp_all add: steal_failed_def split: option.splits steal_ctx.splits)

lemma moves_fetch_local: "workers p ! i = Fetch \<Longrightarrow> moves i p (fetch_local i p)"
  by (auto simp: fetch_local_def split: prod.splits intro!: moves_set_worker)

lemma moves_fetch_global:
  "\<not> holds_mutex (workers p ! i) \<Longrightarrow> \<not> counted (workers p ! i) \<Longrightarrow> \<not> holds_mutex other \<Longrightarrow>
    \<not> counted other \<Longrightarrow> moves i p (fetch_global i other p)"
  by (auto simp: fetch_global_def split: prod.splits intro!: moves_set_worker)

lemma moves_steal_entry: "workers p ! i = StealEntry c \<Longrightarrow> moves i p (steal_entry i c p)"
  by (auto simp: steal_entry_def Let_def intro!: moves_set_worker)

lemma moves_probe: "workers p ! i = Probe c start k \<Longrightarrow> moves i p (probe i lost c start k p)"
  by (auto simp: probe_def Let_def split: prod.splits intro!: moves_set_worker)

lemma worker_step_moves:
  assumes "worker_step i lost p = Some p'" and "lock_inv p"
  shows "i < length (workers p) \<and> moves i p p'"
proof -
  have i: "i < length (workers p)"
    using assms(1) by (simp add: worker_step_def split: if_splits)
  then have own: "holds_mutex (workers p ! i) \<longleftrightarrow> mutex_owner p = Some i"
    using assms(2) by (simp add: lock_inv_def)
  have "moves i p p'"
    using assms(1) own i
    by (cases "workers p ! i")
      (auto simp: worker_step_def moves_fetch_local moves_fetch_global moves_steal_entry moves_probe
        split: if_splits intro!: moves_set_worker)
  with i show ?thesis ..
qed

lemma lock_inv_moves: "moves i p p' \<Longrightarrow> i < length (workers p) \<Longrightarrow> lock_inv p \<Longrightarrow> lock_inv p'"
  unfolding moves_def by (elim exE conjE) (rule lock_inv_set_worker; simp)

lemma lock_inv_worker: "worker_step i lost p = Some p' \<Longrightarrow> lock_inv p \<Longrightarrow> lock_inv p'"
  using worker_step_moves [of i lost p p'] lock_inv_moves [of i p p'] by simp

lemma lock_inv_notify_one: "notify_one w p = Some p' \<Longrightarrow> lock_inv p \<Longrightarrow> lock_inv p'"
  by (auto simp: notify_one_def split: if_splits
      intro!: lock_inv_moves [of w p] moves_set_worker)

lemma notify_one_frame:
  "notify_one w p = Some p' \<Longrightarrow>
    length (workers p') = length (workers p) \<and> deques p' = deques p \<and> gqueue p' = gqueue p \<and>
    stop_flag p' = stop_flag p \<and> mutex_owner p' = mutex_owner p \<and> sleeping p' = sleeping p \<and>
    clients p' = clients p \<and> destroyer p' = destroyer p \<and> submitted p' = submitted p \<and>
    finished p' = finished p \<and> rngs p' = rngs p \<and>
    (\<forall>i. workers p ! i \<noteq> Blocked \<longrightarrow> workers p' ! i = workers p ! i)"
  by (auto simp: notify_one_def set_worker_def nth_list_update split: if_splits)

lemma lock_inv_task_enqueue: "task_enqueue i x p = Some p' \<Longrightarrow> lock_inv p \<Longrightarrow> lock_inv p'"
  by (auto simp: task_enqueue_def push_local_def split: if_splits worker_pc.splits
      intro!: lock_inv_moves [of i p] moves_set_worker)

lemma lock_inv_run:
  "lock_inv p \<Longrightarrow> i < length (workers p) \<Longrightarrow> workers p ! i = RunLock t \<Longrightarrow> lock_inv (set_worker i (Run t) p)"
  by (rule lock_inv_moves [of i p]) (auto intro!: moves_set_worker)

lemma lock_inv_task_step:
  assumes "task_step i w p = Some p'" and "lock_inv p"
  shows "lock_inv p'"
proof (cases "\<exists>t. workers p ! i = RunLock t")
  case True
  then obtain t q where "notify_one w p = Some q" "p' = set_worker i (Run t) q"
    "workers p ! i = RunLock t" "i < length (workers p)"
    using assms(1) by (auto simp: task_step_def split: if_splits)
  then show ?thesis
    using assms(2) lock_inv_notify_one notify_one_frame [of w p q] by (auto intro!: lock_inv_run)
next
  case False
  then show ?thesis
    using assms
    by (auto simp: task_step_def split: if_splits worker_pc.splits
        intro!: lock_inv_moves [of i p] moves_set_worker)
qed

lemma lock_inv_notify_all: "lock_inv p \<Longrightarrow> lock_inv (notify_all p\<lparr>destroyer := d\<rparr>)"
proof -
  have "holds_mutex (if pc = Blocked then Woken else pc) = holds_mutex pc"
    "counted (if pc = Blocked then Woken else pc) = counted pc" for pc :: "'a worker_pc"
    by auto
  then show "lock_inv p \<Longrightarrow> lock_inv (notify_all p\<lparr>destroyer := d\<rparr>)"
    by (simp add: lock_inv_def notify_all_def filter_map comp_def)
qed

lemma lock_inv_client_step: "client_step j w p = Some p' \<Longrightarrow> lock_inv p \<Longrightarrow> lock_inv p'"
  by (auto simp: client_step_def set_client_def split: if_splits client_pc.splits
      intro: lock_inv_cong dest: lock_inv_notify_one)

lemma lock_step: "lock_inv p \<Longrightarrow> pool_step a p = Some p' \<Longrightarrow> lock_inv p'"
proof (cases a)
  case (ClientEnqueue j x)
  then show "lock_inv p \<Longrightarrow> pool_step a p = Some p' \<Longrightarrow> lock_inv p'"
    by (auto simp: client_enqueue_def set_client_def push_global_def split: if_splits
        intro: lock_inv_cong)
next
  case (SpuriousWake i)
  then show "lock_inv p \<Longrightarrow> pool_step a p = Some p' \<Longrightarrow> lock_inv p'"
    by (auto simp: spurious_wake_def split: if_splits intro!: lock_inv_moves [of i p] moves_set_worker)
next
  case DestroyStep
  then show "lock_inv p \<Longrightarrow> pool_step a p = Some p' \<Longrightarrow> lock_inv p'"
    by (auto simp: destroy_step_def lock_inv_notify_all split: if_splits destroy_pc.splits
        intro: lock_inv_cong)
qed (simp_all add: lock_inv_client_step lock_inv_worker lock_inv_task_enqueue lock_inv_task_step)

end
