(* ===== verification/Pool_Tasks.thy ===== *)
theory Pool_Tasks
  imports Thread_Pool
begin

text \<open>
  Every task handed to \<open>thread_pool::enqueue\<close> is in exactly one place: in a queue, running, or
  finished. The invariant \<open>balance\<close> and its preservation by every step of the pool.
\<close>

section \<open>Where the tasks are\<close>

fun running_of :: "'a worker_pc \<Rightarrow> 'a list" where
  "running_of (Run t) = [t]"
| "running_of (RunNotify t) = [t]"
| "running_of (RunLock t) = [t]"
| "running_of _ = []"

definition in_flight :: "'a pool \<Rightarrow> 'a list" where
  "in_flight p = concat (map running_of (workers p))"

definition queued :: "'a pool \<Rightarrow> 'a list" where
  "queued p = tasks (gqueue p) @ concat (map contents (deques p))"

definition balance :: "'a pool \<Rightarrow> bool" where
  "balance p \<longleftrightarrow> mset (submitted p) = mset (finished p) + mset (in_flight p) + mset (queued p)"

lemma in_flight_set_worker:
  "i < length (workers p) \<Longrightarrow>
    mset (in_flight (set_worker i pc p)) + mset (running_of (workers p ! i))
      = mset (in_flight p) + mset (running_of pc)"
  by (simp add: in_flight_def set_worker_def mset_concat_update del: mset_concat)

lemma in_flight_idle:
  "i < length (workers p) \<Longrightarrow> running_of (workers p ! i) = [] \<Longrightarrow>
    mset (in_flight (set_worker i pc p)) = mset (in_flight p) + mset (running_of pc)"
  using in_flight_set_worker [of i p pc] by simp

lemma in_flight_same:
  "i < length (workers p) \<Longrightarrow> running_of pc = running_of (workers p ! i) \<Longrightarrow>
    mset (in_flight (set_worker i pc p)) = mset (in_flight p)"
  using in_flight_set_worker [of i p pc] by simp

lemma in_flight_frame [simp]:
  "in_flight (p\<lparr>gqueue := g\<rparr>) = in_flight p" "in_flight (p\<lparr>deques := ds\<rparr>) = in_flight p"
  "in_flight (p\<lparr>rngs := rs\<rparr>) = in_flight p" "in_flight (p\<lparr>mutex_owner := m\<rparr>) = in_flight p"
  "in_flight (p\<lparr>sleeping := z\<rparr>) = in_flight p" "in_flight (p\<lparr>finished := xs\<rparr>) = in_flight p"
  "in_flight (p\<lparr>submitted := xs\<rparr>) = in_flight p" "in_flight (p\<lparr>stop_flag := b\<rparr>) = in_flight p"
  "in_flight (p\<lparr>destroyer := d\<rparr>) = in_flight p" "in_flight (set_client j c p) = in_flight p"
  by (simp_all add: in_flight_def set_client_def)

lemma queued_frame [simp]:
  "queued (set_worker i pc p) = queued p" "queued (p\<lparr>rngs := rs\<rparr>) = queued p"
  "queued (p\<lparr>mutex_owner := m\<rparr>) = queued p" "queued (p\<lparr>sleeping := z\<rparr>) = queued p"
  "queued (p\<lparr>finished := xs\<rparr>) = queued p" "queued (p\<lparr>submitted := xs\<rparr>) = queued p"
  "queued (p\<lparr>stop_flag := b\<rparr>) = queued p" "queued (p\<lparr>destroyer := d\<rparr>) = queued p"
  "queued (set_client j c p) = queued p"
  by (simp_all add: queued_def set_worker_def set_client_def)

lemma log_frame [simp]:
  "submitted (set_worker i pc p) = submitted p" "finished (set_worker i pc p) = finished p"
  "submitted (set_client j c p) = submitted p" "finished (set_client j c p) = finished p"
  by (simp_all add: set_worker_def set_client_def)

lemma queued_set_deque:
  "i < length (deques p) \<Longrightarrow>
    mset (queued (p\<lparr>deques := (deques p)[i := q]\<rparr>)) + mset (contents (deques p ! i))
      = mset (queued p) + mset (contents q)"
  by (simp add: queued_def mset_concat_update del: mset_concat)

lemma queued_take_deque:
  "i < length (deques p) \<Longrightarrow> mset (contents (deques p ! i)) = opt_mset r + mset (contents q) \<Longrightarrow>
    mset (queued p) = opt_mset r + mset (queued (p\<lparr>deques := (deques p)[i := q]\<rparr>))"
  using queued_set_deque [of i p q] by (simp add: add.commute)

lemma queued_take_global:
  "gq_pop_nonblocking (gqueue p) = (r, g) \<Longrightarrow> mset (queued p) = opt_mset r + mset (queued (p\<lparr>gqueue := g\<rparr>))"
  using global_queue.mset_take [of "gqueue p" r g] by (simp add: queued_def)

lemma running_of_found [simp]:
  "running_of pc = [] \<Longrightarrow> mset (running_of (case r of Some x \<Rightarrow> Run x | None \<Rightarrow> pc)) = opt_mset r"
  "running_of (steal_failed c) = []"
  by (simp_all add: steal_failed_def split: option.splits steal_ctx.splits)

text \<open>No step of a search for a task loses or duplicates one.\<close>

definition same_tasks :: "'a pool \<Rightarrow> 'a pool \<Rightarrow> bool" where
  "same_tasks p p' \<longleftrightarrow>
     submitted p' = submitted p \<and> finished p' = finished p \<and>
     mset (in_flight p') + mset (queued p') = mset (in_flight p) + mset (queued p)"

lemma balance_same: "balance p \<Longrightarrow> same_tasks p p' \<Longrightarrow> balance p'"
  by (simp add: balance_def same_tasks_def add.assoc)

lemma same_tasks_set_worker:
  "i < length (workers p) \<Longrightarrow> running_of pc = running_of (workers p ! i) \<Longrightarrow> workers q = workers p \<Longrightarrow>
    submitted q = submitted p \<Longrightarrow> finished q = finished p \<Longrightarrow> queued q = queued p \<Longrightarrow>
    same_tasks p (set_worker i pc q)"
  using in_flight_same [of i q pc] by (simp add: same_tasks_def in_flight_def)

lemma same_tasks_found:
  assumes "i < length (workers p)" and "running_of (workers p ! i) = []" and "running_of other = []"
    and "workers q = workers p" and "submitted q = submitted p" and "finished q = finished p"
    and "mset (queued p) = opt_mset r + mset (queued q)"
  shows "same_tasks p (set_worker i (case r of Some x \<Rightarrow> Run x | None \<Rightarrow> other) q)"
  using assms in_flight_idle [of i q] by (simp add: same_tasks_def in_flight_def)

lemma same_tasks_fetch_local:
  assumes "shape_inv p" and "i < length (workers p)" and "workers p ! i = Fetch"
  shows "same_tasks p (fetch_local i p)"
proof -
  obtain r q where pop: "deque_pop (deques p ! i) = (r, q)" by fastforce
  have "mset (queued p) = opt_mset r + mset (queued (p\<lparr>deques := (deques p)[i := q]\<rparr>))"
    using owner_view.mset_take [OF shape_deque pop] assms
    by (intro queued_take_deque) (simp_all add: shape_inv_def)
  with pop assms show ?thesis
    by (simp add: fetch_local_def same_tasks_found)
qed

lemma same_tasks_fetch_global:
  assumes "i < length (workers p)" and "running_of (workers p ! i) = []" and "running_of other = []"
  shows "same_tasks p (fetch_global i other p)"
  using assms by (auto simp: fetch_global_def split: prod.splits intro!: same_tasks_found queued_take_global)

lemma same_tasks_steal_entry:
  "i < length (workers p) \<Longrightarrow> workers p ! i = StealEntry c \<Longrightarrow> same_tasks p (steal_entry i c p)"
  by (simp add: steal_entry_def Let_def same_tasks_set_worker)

lemma same_tasks_probe:
  assumes inv: "shape_inv p" and i: "i < length (workers p)" "workers p ! i = Probe c start k"
  shows "same_tasks p (probe i lost c start k p)"
proof (cases "k < length (deques p)")
  case True
  let ?t = "probe_target start (length (deques p)) k"
  obtain r q where steal: "deque_steal (deques p ! ?t) = (r, q)" by fastforce
  have t: "?t < length (deques p)" using True by (intro probe_target_less) auto
  then have wf: "deque_wf (deques p ! ?t)" using inv by (simp add: shape_inv_def)
  have "mset (queued p) = opt_mset r + mset (queued (p\<lparr>deques := (deques p)[?t := q]\<rparr>))"
    using thief_view.mset_take [OF wf steal] t by (intro queued_take_deque) simp_all
  with True steal i show ?thesis
    by (simp add: probe_def Let_def same_tasks_found same_tasks_set_worker)
qed (use i in \<open>simp add: probe_def same_tasks_set_worker\<close>)

lemma same_tasks_worker:
  assumes "worker_step i lost p = Some p'" and "shape_inv p"
  shows "same_tasks p p'"
proof -
  have i: "i < length (workers p)"
    using assms(1) by (simp add: worker_step_def split: if_splits)
  with assms show ?thesis
    by (cases "workers p ! i")
      (auto simp: worker_step_def same_tasks_fetch_local same_tasks_fetch_global
        same_tasks_steal_entry same_tasks_probe split: if_splits intro!: same_tasks_set_worker)
qed

lemma same_tasks_notify_one: "notify_one w p = Some p' \<Longrightarrow> same_tasks p p'"
  by (auto simp: notify_one_def split: if_splits intro!: same_tasks_set_worker)
    (simp add: same_tasks_def)

lemma same_tasks_trans: "same_tasks p q \<Longrightarrow> same_tasks q r \<Longrightarrow> same_tasks p r"
  by (simp add: same_tasks_def)

lemma queued_push_local:
  assumes "shape_inv p" and "i < length (workers p)"
  shows "mset (queued (push_local i x p)) = mset (queued p) + {#x#}"
proof -
  have "i < length (deques p)" using assms by (simp add: shape_inv_def)
  then have "mset (queued (push_local i x p)) + mset (contents (deques p ! i))
      = mset (queued p) + mset (contents (deque_push x (deques p ! i)))"
    using queued_set_deque [of i p] by (simp add: push_local_def)
  then show ?thesis
    using deque_push_spec [OF shape_deque [OF assms], of x] by (simp add: add.commute)
qed

lemma balance_task_enqueue:
  assumes "task_enqueue i x p = Some p'" and "shape_inv p" and "balance p"
  shows "balance p'"
proof -
  obtain t where i: "i < length (workers p)" "workers p ! i = Run t"
    and p': "p' = set_worker i (RunNotify t) (push_local i x p)"
    using assms(1) by (auto simp: task_enqueue_def split: if_splits worker_pc.splits)
  have "mset (in_flight p') = mset (in_flight p)"
    using in_flight_same [of i "push_local i x p" "RunNotify t"] i
    by (simp add: p' push_local_def in_flight_def)
  then show ?thesis
    using assms(3) queued_push_local [OF assms(2) i(1), of x]
    by (simp add: balance_def p') (simp add: push_local_def)
qed

lemma balance_return:
  assumes "i < length (workers p)" and "workers p ! i = Run t" and "balance p"
  shows "balance (set_worker i Fetch (p\<lparr>finished := finished p @ [t]\<rparr>))"
  using assms in_flight_set_worker [of i "p\<lparr>finished := finished p @ [t]\<rparr>" Fetch]
  by (simp add: balance_def)

lemma balance_task_step:
  assumes "task_step i w p = Some p'" and "balance p"
  shows "balance p'"
proof (cases "\<exists>t. workers p ! i = RunLock t")
  case True
  then obtain t q where q: "notify_one w p = Some q" "p' = set_worker i (Run t) q"
    "workers p ! i = RunLock t" "i < length (workers p)"
    using assms(1) by (auto simp: task_step_def split: if_splits)
  have "same_tasks q p'"
    using q notify_one_frame [OF q(1)] by (auto intro!: same_tasks_set_worker)
  then show ?thesis
    using assms(2) same_tasks_notify_one [OF q(1)] balance_same by blast
next
  case False
  then show ?thesis
    using assms
    by (auto simp: task_step_def split: if_splits worker_pc.splits
        intro: balance_return balance_same [OF _ same_tasks_set_worker])
qed

lemma balance_client_step: "client_step j w p = Some p' \<Longrightarrow> balance p \<Longrightarrow> balance p'"
  using balance_same [OF _ same_tasks_notify_one]
  by (auto simp: client_step_def split: if_splits client_pc.splits) (simp_all add: balance_def)

lemma in_flight_notify_all [simp]: "in_flight (notify_all p) = in_flight p"
  by (auto simp: in_flight_def notify_all_def comp_def intro!: arg_cong [of _ _ concat])

lemma notify_all_frame [simp]:
  "queued (notify_all p) = queued p" "submitted (notify_all p) = submitted p"
  "finished (notify_all p) = finished p" "deques (notify_all p) = deques p"
  "gqueue (notify_all p) = gqueue p" "clients (notify_all p) = clients p"
  "stop_flag (notify_all p) = stop_flag p" "length (workers (notify_all p)) = length (workers p)"
  by (simp_all add: notify_all_def queued_def)

lemma balance_step: "balance p \<Longrightarrow> shape_inv p \<Longrightarrow> pool_step a p = Some p' \<Longrightarrow> balance p'"
proof (cases a)
  case (ClientEnqueue j x)
  then show "balance p \<Longrightarrow> pool_step a p = Some p' \<Longrightarrow> balance p'"
    by (auto simp: client_enqueue_def balance_def push_global_def queued_def in_flight_def
        set_client_def split: if_splits)
next
  case (SpuriousWake i)
  then show "balance p \<Longrightarrow> pool_step a p = Some p' \<Longrightarrow> balance p'"
    by (auto simp: spurious_wake_def split: if_splits intro!: balance_same [of p] same_tasks_set_worker)
next
  case DestroyStep
  then show "balance p \<Longrightarrow> pool_step a p = Some p' \<Longrightarrow> balance p'"
    by (auto simp: destroy_step_def balance_def split: if_splits destroy_pc.splits)
qed (auto simp: balance_client_step balance_task_enqueue balance_task_step
      intro: balance_same same_tasks_worker)

lemma balance_ctor: "balance (pool_ctor n m)"
  by (auto simp: balance_def pool_ctor_def in_flight_def queued_def Let_def contents_init)

end
