(* ===== verification/Pool_Sleep.thy ===== *)
theory Pool_Sleep
  imports Pool_Tasks
begin

text \<open>
  The sleeping protocol and the destructor of \<open>thread_pool::impl\<close>: no wake-up is lost, and the
  destructor finds no sleeper behind. The invariants of the pool are put together here, and
  the properties of the pool are stated.
\<close>

section \<open>Idle workers have empty deques\<close>

text \<open>A worker that has looked into its own deque without success keeps it empty until it runs a task.\<close>

fun owns_tasks :: "'a worker_pc \<Rightarrow> bool" where
  "owns_tasks Fetch = True"
| "owns_tasks (Run t) = True"
| "owns_tasks (RunNotify t) = True"
| "owns_tasks (RunLock t) = True"
| "owns_tasks _ = False"

definition idle_inv :: "'a pool \<Rightarrow> bool" where
  "idle_inv p \<longleftrightarrow> (\<forall>i < length (workers p). \<not> owns_tasks (workers p ! i) \<longrightarrow> contents (deques p ! i) = [])"

lemma idle_inv_update:
  assumes "idle_inv p" and "workers p' = (workers p)[i := pc]"
    and "\<And>j. contents (deques p ! j) = [] \<Longrightarrow> j \<noteq> i \<Longrightarrow> contents (deques p' ! j) = []"
    and "i < length (workers p) \<Longrightarrow> \<not> owns_tasks pc \<Longrightarrow> contents (deques p' ! i) = []"
  shows "idle_inv p'"
  using assms by (auto simp: idle_inv_def nth_update_cases split: if_splits)

lemma idle_inv_set_worker:
  assumes "idle_inv p" and "workers q = workers p" and "deques q = deques p"
    and "owns_tasks pc \<or> \<not> owns_tasks (workers p ! i)"
  shows "idle_inv (set_worker i pc q)"
  using assms by (auto simp: idle_inv_def set_worker_def nth_update_cases split: if_splits)

lemma idle_fetch_local:
  assumes "idle_inv p" and "shape_inv p" and "i < length (workers p)"
  shows "idle_inv (fetch_local i p)"
proof -
  obtain r q where pop: "deque_pop (deques p ! i) = (r, q)" by fastforce
  then have "contents q = []" if "r = None"
    using deque_pop_result(2) [OF shape_deque] that assms by auto
  then show ?thesis
    using pop assms
    by (auto simp: fetch_local_def set_worker_def shape_inv_def split: option.splits
        intro!: idle_inv_update [OF assms(1)])
qed

lemma idle_fetch_global:
  "idle_inv p \<Longrightarrow> \<not> owns_tasks (workers p ! i) \<Longrightarrow> idle_inv (fetch_global i other p)"
  by (auto simp: fetch_global_def split: prod.splits intro!: idle_inv_set_worker)

lemma idle_steal_entry:
  "idle_inv p \<Longrightarrow> \<not> owns_tasks (workers p ! i) \<Longrightarrow> idle_inv (steal_entry i c p)"
  by (auto simp: steal_entry_def Let_def intro!: idle_inv_set_worker)

lemma idle_probe:
  assumes "idle_inv p" and "shape_inv p" and "i < length (workers p)" and "\<not> owns_tasks (workers p ! i)"
  shows "idle_inv (probe i lost c start k p)"
proof (cases "k < length (deques p)")
  case True
  let ?t = "probe_target start (length (deques p)) k"
  obtain r q where steal: "deque_steal (deques p ! ?t) = (r, q)" by fastforce
  have t: "?t < length (deques p)" using True by (intro probe_target_less) auto
  then have wf: "deque_wf (deques p ! ?t)" using assms(2) by (simp add: shape_inv_def)
  have "contents q = []" if "contents (deques p ! ?t) = []"
    using thief_view.mset_take [OF wf steal] that by (cases r) simp_all
  moreover have "contents (deques p ! i) = []" using assms by (simp add: idle_inv_def)
  ultimately have "idle_inv (set_worker i pc (p\<lparr>deques := (deques p)[?t := q]\<rparr>))" if "?t \<noteq> i" for pc
    using t that by (auto simp: set_worker_def nth_list_update intro!: idle_inv_update [OF assms(1)])
  with True steal assms show ?thesis
    by (simp add: probe_def Let_def idle_inv_set_worker)
qed (use assms in \<open>simp add: probe_def idle_inv_set_worker\<close>)

lemma idle_worker:
  assumes "worker_step i lost p = Some p'" and "shape_inv p" and "idle_inv p"
  shows "idle_inv p'"
proof -
  have i: "i < length (workers p)"
    using assms(1) by (simp add: worker_step_def split: if_splits)
  with assms show ?thesis
    by (cases "workers p ! i")
      (auto simp: worker_step_def idle_fetch_local idle_fetch_global idle_steal_entry idle_probe
        split: if_splits intro!: idle_inv_set_worker)
qed

lemma idle_notify_one: "notify_one w p = Some p' \<Longrightarrow> idle_inv p \<Longrightarrow> idle_inv p'"
  by (auto simp: notify_one_def split: if_splits intro!: idle_inv_set_worker)

lemma idle_task_enqueue:
  "task_enqueue i x p = Some p' \<Longrightarrow> idle_inv p \<Longrightarrow> idle_inv p'"
  by (auto simp: task_enqueue_def push_local_def set_worker_def split: if_splits worker_pc.splits
      intro!: idle_inv_update [of p])

lemma idle_task_step:
  assumes "task_step i w p = Some p'" and "idle_inv p"
  shows "idle_inv p'"
proof (cases "\<exists>t. workers p ! i = RunLock t")
  case True
  then obtain t q where "notify_one w p = Some q" "p' = set_worker i (Run t) q"
    using assms(1) by (auto simp: task_step_def split: if_splits)
  then show ?thesis
    using assms(2) idle_inv_set_worker [OF idle_notify_one [of w p q]] by simp
next
  case False
  then show ?thesis
    using assms
    by (cases "workers p ! i") (auto simp: task_step_def split: if_splits intro!: idle_inv_set_worker)
qed

lemma idle_set_client [simp]: "idle_inv (set_client j c p) = idle_inv p"
  by (simp add: idle_inv_def set_client_def)

lemma idle_client_step: "client_step j w p = Some p' \<Longrightarrow> idle_inv p \<Longrightarrow> idle_inv p'"
  by (cases "clients p ! j") (auto simp: client_step_def idle_notify_one split: if_splits)

lemma idle_step: "idle_inv p \<Longrightarrow> shape_inv p \<Longrightarrow> pool_step a p = Some p' \<Longrightarrow> idle_inv p'"
proof (cases a)
  case (ClientEnqueue j x)
  then show "idle_inv p \<Longrightarrow> pool_step a p = Some p' \<Longrightarrow> idle_inv p'"
    by (auto simp: client_enqueue_def push_global_def set_client_def idle_inv_def split: if_splits)
next
  case (SpuriousWake i)
  then show "idle_inv p \<Longrightarrow> pool_step a p = Some p' \<Longrightarrow> idle_inv p'"
    by (auto simp: spurious_wake_def idle_inv_set_worker split: if_splits)
next
  case DestroyStep
  then show "idle_inv p \<Longrightarrow> pool_step a p = Some p' \<Longrightarrow> idle_inv p'"
    by (auto simp: destroy_step_def idle_inv_def notify_all_def split: if_splits destroy_pc.splits)
qed (simp_all add: idle_worker idle_client_step idle_task_enqueue idle_task_step)

lemma idle_ctor: "idle_inv (pool_ctor n m)"
  by (auto simp: idle_inv_def pool_ctor_def Let_def)

section \<open>No wake-up is lost\<close>

text \<open>
  A worker \<open>dozes\<close> from the moment it has found the global queue empty in the wait predicate
  until it is notified. If all workers doze and the global queue holds a task, then the
  thread that has put it there has not finished \<open>enqueue\<close>.
\<close>

fun dozes :: "'a worker_pc \<Rightarrow> bool" where
  "dozes Blocked = True"
| "dozes (PredDeque k) = True"
| "dozes _ = False"

definition wake_inv :: "'a pool \<Rightarrow> bool" where
  "wake_inv p \<longleftrightarrow>
     (list_all dozes (workers p) \<longrightarrow> tasks (gqueue p) \<noteq> [] \<longrightarrow> \<not> list_all (\<lambda>c. c = ClientIdle) (clients p))"

lemma list_all_update_bad: "i < length xs \<Longrightarrow> \<not> P y \<Longrightarrow> \<not> list_all P (xs[i := y])"
  by (auto simp: list_all_length intro!: exI [of _ i])

lemma list_all_update_same:
  "P (xs ! i) = P y \<Longrightarrow> list_all P (xs[i := y]) = list_all P xs"
  by (auto simp: list_all_length nth_update_cases split: if_splits) 

lemma wake_awake: "i < length (workers p) \<Longrightarrow> \<not> dozes (workers p ! i) \<Longrightarrow> wake_inv p"
  by (auto simp: wake_inv_def list_all_length)

lemma wake_set_awake: "i < length (workers q) \<Longrightarrow> \<not> dozes pc \<Longrightarrow> wake_inv (set_worker i pc q)"
  by (rule wake_awake [of i]) (simp_all add: set_worker_def)

lemma dozes_found [simp]:
  "dozes (case r of Some x \<Rightarrow> Run x | None \<Rightarrow> pc) = (r = None \<and> dozes pc)"
  "\<not> dozes (steal_failed c)"
  by (simp_all add: steal_failed_def split: option.splits steal_ctx.splits)

lemma wake_search:
  "i < length (workers p) \<Longrightarrow> wake_inv (fetch_local i p)"
  "i < length (workers p) \<Longrightarrow> \<not> dozes other \<Longrightarrow> wake_inv (fetch_global i other p)"
  "i < length (workers p) \<Longrightarrow> wake_inv (steal_entry i c p)"
  "i < length (workers p) \<Longrightarrow> wake_inv (probe i lost c start k p)"
  by (simp_all add: fetch_local_def fetch_global_def steal_entry_def probe_def Let_def wake_set_awake
      split: prod.splits)

lemma wake_keeps_dozing:
  "wake_inv p \<Longrightarrow> dozes (workers p ! i) \<Longrightarrow> dozes pc \<Longrightarrow> workers q = workers p \<Longrightarrow> gqueue q = gqueue p \<Longrightarrow>
    clients q = clients p \<Longrightarrow> wake_inv (set_worker i pc q)"
  by (simp add: wake_inv_def set_worker_def list_all_update_same)

lemma wake_worker:
  assumes "worker_step i lost p = Some p'" and "wake_inv p"
  shows "wake_inv p'"
proof -
  have i: "i < length (workers p)"
    using assms(1) by (simp add: worker_step_def split: if_splits)
  have "wake_inv (set_worker i (PredDeque 0) p)" if "gq_empty_relaxed (gqueue p)"
    using that by (simp add: wake_inv_def gq_empty_iff set_worker_def)
  with assms i show ?thesis
    by (cases "workers p ! i")
      (auto simp: worker_step_def wake_search wake_set_awake wake_keeps_dozing split: if_splits)
qed

lemma counted_dozes: "dozes pc \<Longrightarrow> counted pc"
  by (cases pc) simp_all

lemma all_doze_sleeping:
  assumes "lock_inv p" and "shape_inv p" and "list_all dozes (workers p)"
  shows "0 < sleeping p"
proof -
  have "filter counted (workers p) = workers p"
    using assms(3) by (auto simp: list_all_iff counted_dozes intro!: filter_True)
  then show ?thesis using assms(1,2) by (simp add: lock_inv_def shape_inv_def)
qed

lemma notify_one_wakes:
  assumes "notify_one w p = Some p'" and "lock_inv p" and "shape_inv p" and "mutex_owner p = None"
  shows "\<not> list_all dozes (workers p')"
proof (cases "Blocked \<in> set (workers p)")
  case True
  then show ?thesis
    using assms(1) by (auto simp: notify_one_def set_worker_def list_all_update_bad split: if_splits)
next
  case False
  have "0 < length (workers p)" using assms(3) by (simp add: shape_inv_def)
  moreover from this have "\<not> holds_mutex (workers p ! 0)" using assms(2,4) by (simp add: lock_inv_def)
  moreover have "workers p ! 0 \<noteq> Blocked" using False calculation(1) nth_mem by metis
  ultimately have "\<not> dozes (workers p ! 0)" by (cases "workers p ! 0") simp_all
  then show ?thesis
    using False assms(1) \<open>0 < length (workers p)\<close> by (auto simp: notify_one_def list_all_length)
qed

lemma wake_notify:
  "notify_one w p = Some p' \<Longrightarrow> lock_inv p \<Longrightarrow> shape_inv p \<Longrightarrow> mutex_owner p = None \<Longrightarrow>
    workers q = workers p' \<Longrightarrow> wake_inv q"
  using notify_one_wakes [of w p p'] by (simp add: wake_inv_def)

lemma wake_client_step:
  assumes "client_step j w p = Some p'" and "lock_inv p" and "shape_inv p" and "wake_inv p"
  shows "wake_inv p'"
proof (cases "clients p ! j")
  case ClientIdle
  then show ?thesis using assms by (simp add: client_step_def split: if_splits)
next
  case ClientNotify
  then have "p' = set_client j (if sleeping p > 0 then ClientLock else ClientIdle) p"
    and j: "j < length (clients p)"
    using assms(1) by (auto simp: client_step_def split: if_splits)
  then show ?thesis
    using all_doze_sleeping [OF assms(2,3)] list_all_update_bad [OF j, of "\<lambda>c. c = ClientIdle" ClientLock]
    by (auto simp: wake_inv_def set_client_def)
next
  case ClientLock
  then obtain q where "notify_one w p = Some q" "p' = set_client j ClientIdle q" "mutex_owner p = None"
    using assms(1) by (auto simp: client_step_def split: if_splits)
  then show ?thesis
    using assms(2,3) wake_notify [of w p q p'] by (simp add: set_client_def)
qed

lemma wake_task_step:
  assumes "task_step i w p = Some p'" and "wake_inv p"
  shows "wake_inv p'"
proof (cases "\<exists>t. workers p ! i = RunLock t")
  case True
  then obtain t q where q: "notify_one w p = Some q" "p' = set_worker i (Run t) q" "i < length (workers p)"
    using assms(1) by (auto simp: task_step_def split: if_splits)
  then show ?thesis using notify_one_frame [OF q(1)] by (auto intro!: wake_set_awake)
next
  case False
  then show ?thesis
    using assms by (cases "workers p ! i") (auto simp: task_step_def wake_set_awake split: if_splits)
qed

lemma wake_client_enqueue: "client_enqueue j x p = Some p' \<Longrightarrow> wake_inv p'"
  by (auto simp: client_enqueue_def wake_inv_def set_client_def push_global_def list_all_update_bad
      split: if_splits)

lemma wake_destroy: "destroy_step p = Some p' \<Longrightarrow> wake_inv p \<Longrightarrow> shape_inv p \<Longrightarrow> lock_inv p \<Longrightarrow> wake_inv p'"
proof (cases "destroyer p")
  case DestroyLock
  assume step: "destroy_step p = Some p'" and inv: "wake_inv p" "shape_inv p" "lock_inv p"
  have "0 < length (workers p)" using inv(2) by (simp add: shape_inv_def)
  moreover have "\<not> holds_mutex (workers p ! 0)"
    using step DestroyLock inv(3) calculation by (auto simp: destroy_step_def lock_inv_def split: if_splits)
  ultimately have "\<not> dozes (workers p' ! 0)"
    using step DestroyLock
    by (cases "workers p ! 0") (auto simp: destroy_step_def notify_all_def split: if_splits)
  then show "wake_inv p'"
    using step DestroyLock \<open>0 < length (workers p)\<close>
    by (intro wake_awake [of 0]) (auto simp: destroy_step_def notify_all_def split: if_splits)
qed (auto simp: destroy_step_def wake_inv_def split: if_splits)

lemma wake_step:
  assumes "wake_inv p" and "lock_inv p" and "shape_inv p" and "pool_step a p = Some p'"
  shows "wake_inv p'"
  using assms
  by (cases a)
    (auto simp: wake_worker wake_client_enqueue wake_client_step wake_task_step wake_destroy
      task_enqueue_def spurious_wake_def push_local_def wake_set_awake
      split: if_splits worker_pc.splits)

lemma wake_ctor: "wake_inv (pool_ctor n m)"
  by (simp add: wake_inv_def pool_ctor_def Let_def)

section \<open>The destructor\<close>

text \<open>
  Program counters that no worker has once the destructor has notified: the states that go to
  sleep, and sleep itself.
\<close>

fun sleep_bound :: "'a worker_pc \<Rightarrow> bool" where
  "sleep_bound CheckGlobal = True"
| "sleep_bound (CheckDeque k) = True"
| "sleep_bound IncSleeping = True"
| "sleep_bound PredGlobal = True"
| "sleep_bound (PredDeque k) = True"
| "sleep_bound Blocked = True"
| "sleep_bound _ = False"

definition destroy_inv :: "'a pool \<Rightarrow> bool" where
  "destroy_inv p \<longleftrightarrow>
     (stop_flag p \<longleftrightarrow> destroyer p \<noteq> NotDestroyed) \<and>
     (stop_flag p \<or> (\<forall>pc \<in> set (workers p). pc \<noteq> Exited)) \<and>
     (destroyer p \<in> {DestroyJoin, Destroyed} \<longrightarrow> (\<forall>pc \<in> set (workers p). \<not> sleep_bound pc)) \<and>
     (destroyer p = Destroyed \<longrightarrow> (\<forall>pc \<in> set (workers p). pc = Exited)) \<and>
     (stop_flag p \<longrightarrow> list_all (\<lambda>c. c = ClientIdle) (clients p))"

lemma destroy_set_worker:
  assumes "destroy_inv p" and "workers q = workers p" and "stop_flag q = stop_flag p"
    and "destroyer q = destroyer p" and "clients q = clients p"
    and "pc = Exited \<Longrightarrow> stop_flag p" and "sleep_bound pc \<Longrightarrow> sleep_bound (workers p ! i) \<or> \<not> stop_flag p"
    and "workers p ! i \<noteq> Exited" and "i < length (workers p)"
  shows "destroy_inv (set_worker i pc q)"
proof -
  have "workers p ! i \<in> set (workers p)" using assms(9) by simp
  with assms show ?thesis
    by (auto simp: destroy_inv_def set_worker_def dest!: set_update_subset_insert [THEN subsetD])
qed

lemma sleep_bound_found [simp]:
  "sleep_bound (case r of Some x \<Rightarrow> Run x | None \<Rightarrow> pc) = (r = None \<and> sleep_bound pc)"
  "(case r of Some x \<Rightarrow> Run x | None \<Rightarrow> pc) = Exited \<longleftrightarrow> r = None \<and> pc = Exited"
  "\<not> sleep_bound (steal_failed c)" "steal_failed c \<noteq> Exited"
  by (auto simp add: steal_failed_def split: option.splits steal_ctx.splits)

lemma destroy_search:
  assumes "destroy_inv p" and "i < length (workers p)" and "workers p ! i \<noteq> Exited"
  shows "destroy_inv (fetch_local i p)"
    "\<not> sleep_bound other \<Longrightarrow> other \<noteq> Exited \<Longrightarrow> destroy_inv (fetch_global i other p)"
    "destroy_inv (steal_entry i c p)" "destroy_inv (probe i lost c start k p)"
  using assms
  by (auto simp: fetch_local_def fetch_global_def steal_entry_def probe_def Let_def
      split: prod.splits intro!: destroy_set_worker [OF assms(1)])

lemma destroy_worker:
  assumes "worker_step i lost p = Some p'" and "destroy_inv p"
  shows "destroy_inv p'"
proof -
  have i: "i < length (workers p)"
    using assms(1) by (simp add: worker_step_def split: if_splits)
  with assms show ?thesis
    by (cases "workers p ! i")
      (auto simp: worker_step_def destroy_search split: if_splits intro!: destroy_set_worker [OF assms(2)])
qed

lemma destroy_notify_one: "notify_one w p = Some p' \<Longrightarrow> destroy_inv p \<Longrightarrow> destroy_inv p'"
  by (auto simp: notify_one_def split: if_splits intro!: destroy_set_worker [of p])

lemma destroy_set_client:
  "destroy_inv p \<Longrightarrow> \<not> stop_flag p \<Longrightarrow> destroy_inv (set_client j c p)"
  by (simp add: destroy_inv_def set_client_def)

lemma destroy_client_step:
  assumes "client_step j w p = Some p'" and "destroy_inv p"
  shows "destroy_inv p'"
proof -
  have "\<not> stop_flag p"
    using assms by (auto simp: client_step_def destroy_inv_def list_all_length split: if_splits)
  with assms show ?thesis
    by (cases "clients p ! j")
      (auto simp: client_step_def destroy_set_client destroy_notify_one notify_one_frame split: if_splits)
qed

lemma destroy_task_step:
  assumes "task_step i w p = Some p'" and "destroy_inv p"
  shows "destroy_inv p'"
proof (cases "\<exists>t. workers p ! i = RunLock t")
  case True
  then obtain t q where q: "notify_one w p = Some q" "p' = set_worker i (Run t) q" "i < length (workers p)"
    "workers p ! i = RunLock t"
    using assms(1) by (auto simp: task_step_def split: if_splits)
  then show ?thesis
    using notify_one_frame [OF q(1)] destroy_set_worker [OF destroy_notify_one [OF q(1) assms(2)], of q "Run t" i]
    by simp
next
  case False
  then show ?thesis
    using assms
    by (cases "workers p ! i")
      (auto simp: task_step_def split: if_splits intro!: destroy_set_worker [OF assms(2)])
qed

lemma destroy_destroy_step:
  assumes "destroy_step p = Some p'" and "destroy_inv p" and "lock_inv p"
  shows "destroy_inv p'"
proof (cases "destroyer p")
  case DestroyLock
  then have free: "mutex_owner p = None" and p': "p' = notify_all p\<lparr>destroyer := DestroyJoin\<rparr>"
    using assms(1) by (auto simp: destroy_step_def split: if_splits)
  have "\<not> sleep_bound pc" if "pc \<in> set (workers p)" "pc \<noteq> Blocked" for pc
  proof -
    have "\<not> holds_mutex pc" using that assms(3) free by (auto simp: lock_inv_def in_set_conv_nth)
    then show ?thesis using that(2) by (cases pc) simp_all
  qed
  then show ?thesis
    using assms(2) DestroyLock by (auto simp: p' destroy_inv_def notify_all_def)
next
  case NotDestroyed
  then show ?thesis using assms by (auto simp: destroy_step_def destroy_inv_def split: if_splits)
next
  case DestroyJoin
  then show ?thesis using assms by (auto simp: destroy_step_def destroy_inv_def list_all_iff split: if_splits)
next
  case Destroyed
  then show ?thesis using assms by (simp add: destroy_step_def)
qed

lemma destroy_pool_step:
  assumes "destroy_inv p" and "lock_inv p" and "pool_step a p = Some p'"
  shows "destroy_inv p'"
proof (cases a)
  case (ClientEnqueue j x)
  then show ?thesis
    using assms
    by (auto simp: client_enqueue_def destroy_inv_def push_global_def set_client_def split: if_splits)
next
  case (TaskEnqueue i x)
  then show ?thesis
    using assms
    by (auto simp: task_enqueue_def push_local_def split: if_splits worker_pc.splits
        intro!: destroy_set_worker [OF assms(1)])
next
  case (SpuriousWake i)
  then show ?thesis
    using assms
    by (auto simp: spurious_wake_def split: if_splits intro!: destroy_set_worker [OF assms(1)])
qed (use assms in \<open>simp_all add: destroy_worker destroy_client_step destroy_task_step destroy_destroy_step\<close>)

lemma destroy_ctor: "destroy_inv (pool_ctor n m)"
  by (auto simp: destroy_inv_def pool_ctor_def Let_def list_all_iff)

section \<open>The invariant of the pool\<close>

definition pool_inv :: "'a pool \<Rightarrow> bool" where
  "pool_inv p \<longleftrightarrow>
     shape_inv p \<and> lock_inv p \<and> balance p \<and> idle_inv p \<and> wake_inv p \<and> destroy_inv p"

interpretation pool: invariant_system "pool_ctor n m" pool_step pool_inv for n m
proof (rule invariant_system.intro)
  show "pool_inv (pool_ctor n m)"
    by (simp add: pool_inv_def shape_ctor lock_inv_ctor balance_ctor idle_ctor wake_ctor destroy_ctor)
  show "pool_inv p'" if "pool_inv p" and "pool_step a p = Some p'" for a and p p' :: "'a pool"
    using that shape_step [of p a p'] lock_step [of p a p'] balance_step [of p a p']
      idle_step [of p a p'] wake_step [of p a p'] destroy_pool_step [of p a p']
    by (simp add: pool_inv_def)
qed

lemmas pool_inv_exec = pool.inv_exec [OF pool.inv_init]

lemma pool_empty_iff: "pool_empty p \<longleftrightarrow> queued p = []"
  by (auto simp: pool_empty_def has_local_work_def queued_def gq_empty_iff deque_empty_iff)

end
