(* ===== verification/Pool_Properties.thy ===== *)
theory Pool_Properties
  imports Pool_Sleep
begin

text \<open>
  The properties of \<open>thread_pool\<close>: tasks are neither lost nor duplicated, the mutex and the
  counter of sleepers, no lost wake-up, termination and outcome of the destructor, and what
  \<open>enqueue\<close> does when it is called from a worker of another pool.
\<close>

section \<open>Which workers can move\<close>

lemma worker_stuck:
  assumes "worker_step i lost p = None" and "i < length (workers p)" and "mutex_owner p = None"
  shows "running_of (workers p ! i) \<noteq> [] \<or> workers p ! i = Blocked \<or> workers p ! i = Exited"
  using assms by (cases "workers p ! i") (auto simp: worker_step_def split: if_splits)

lemma holder_moves:
  assumes "lock_inv p" and "mutex_owner p = Some i"
  shows "worker_step i lost p \<noteq> None"
proof -
  have "i < length (workers p)" "holds_mutex (workers p ! i)"
    using assms by (auto simp: lock_inv_def)
  then show ?thesis by (cases "workers p ! i") (auto simp: worker_step_def)
qed

lemma all_stuck:
  assumes "pool_inv p" and "\<And>i. worker_step i False p = None" and "in_flight p = []"
  shows "pc \<in> set (workers p) \<Longrightarrow> pc = Blocked \<or> pc = Exited"
proof -
  have free: "mutex_owner p = None"
  proof (rule ccontr)
    assume "mutex_owner p \<noteq> None"
    then obtain i where "mutex_owner p = Some i" by blast
    then show False using assms(1,2) holder_moves [of p i False] by (simp add: pool_inv_def)
  qed
  have none: "running_of pc = []" if "pc \<in> set (workers p)" for pc
    using assms(3) that by (simp add: in_flight_def)
  show "pc \<in> set (workers p) \<Longrightarrow> pc = Blocked \<or> pc = Exited"
    using worker_stuck [OF assms(2) _ free] none by (metis in_set_conv_nth)
qed

lemma idle_deques_empty:
  assumes "pool_inv p" and "\<And>pc. pc \<in> set (workers p) \<Longrightarrow> \<not> owns_tasks pc" and "q \<in> set (deques p)"
  shows "contents q = []"
proof -
  obtain i where "i < length (workers p)" "q = deques p ! i"
    using assms(1,3) by (auto simp: in_set_conv_nth pool_inv_def shape_inv_def)
  then show ?thesis using assms(1,2) by (simp add: pool_inv_def idle_inv_def)
qed

section \<open>Evaluation\<close>

lemma init_deque_eval [simp]:
  "deque_pop (init_deque c) = (None, init_deque c)" "deque_steal (init_deque c) = (None, init_deque c)"
  "deque_empty (init_deque c)"
  by (simp_all add: deque_pop_cases deque_steal_cases deque_empty_def init_deque_def)

lemma pool_ctor_one:
  "pool_ctor (Suc 0) m =
     \<lparr>gqueue = gq_init, deques = [init_deque default_capacity], workers = [Fetch],
      rngs = [rng_seed 0], stop_flag = False, sleeping = 0,
      mutex_owner = None, clients = replicate m ClientIdle, destroyer = NotDestroyed,
      submitted = [], finished = []\<rparr>"
  by (simp add: pool_ctor_def Let_def)

lemma replicate_numeral_Cons: "replicate (numeral k) x = x # replicate (pred_numeral k) x"
  by (simp add: numeral_eq_Suc)

lemmas pool_eval = replicate_numeral_Cons
  pool_ctor_one client_enqueue_def client_step_def worker_step_def task_enqueue_def task_step_def
  destroy_step_def notify_one_def notify_all_def fetch_local_def fetch_global_def steal_entry_def
  probe_def steal_failed_def set_worker_def set_client_def push_global_def gq_push_def gq_init_def
  gq_pop_nonblocking_def gq_empty_relaxed_def Let_def

lemma run_one_task:
  "exec pool_step
     [ClientEnqueue 0 x, ClientStep 0 0, WorkerStep 0 False, WorkerStep 0 False, TaskStep 0 0]
     (pool_ctor 1 1)
   = Some ((pool_ctor 1 1)\<lparr>submitted := [x], finished := [x]\<rparr>)"
  by (simp add: pool_eval)

text \<open>The only worker of a pool without work goes to sleep.\<close>

lemma run_to_sleep:
  "exec pool_step (replicate 79 (WorkerStep 0 False)) (pool_ctor 1 1 :: 'a pool)
   = Some ((pool_ctor 1 1)\<lparr>workers := [Blocked], sleeping := 1\<rparr>)"
  by (simp add: pool_eval)

section \<open>Properties\<close>

text \<open>
  In every execution of the pool, with any number of workers and clients and any
  interleaving, each task passed to \<open>enqueue\<close> is exactly once among the finished tasks, the
  running tasks and the tasks in the queues: no task is lost and none is executed twice.
\<close>

lemma pool_conserves_tasks:
  assumes "exec pool_step as (pool_ctor n m) = Some p"
  shows "mset (submitted p) = mset (finished p) + mset (in_flight p) + mset (queued p)"
  using pool_inv_exec [OF assms] by (simp add: pool_inv_def balance_def)

text \<open>
  The mutex of the pool protects its critical sections: two workers are never inside at
  the same time, and \<open>sleeping_workers\<close> is the number of workers between its increment and its
  decrement, so it stays between 0 and the number of workers.
\<close>

lemma pool_mutual_exclusion:
  assumes "exec pool_step as (pool_ctor n m) = Some p"
  shows "(\<forall>i < length (workers p). \<forall>j < length (workers p).
           holds_mutex (workers p ! i) \<longrightarrow> holds_mutex (workers p ! j) \<longrightarrow> i = j) \<and>
         sleeping p = int (length (filter counted (workers p))) \<and>
         0 \<le> sleeping p \<and> sleeping p \<le> int (length (workers p))"
  using pool_inv_exec [OF assms] by (auto simp: pool_inv_def lock_inv_def)

text \<open>When nothing can move any more, everybody sleeps.\<close>

lemma stuck_asleep:
  assumes inv: "pool_inv p"
    and "\<forall>i. worker_step i False p = None" and "in_flight p = []"
    and "list_all (\<lambda>c. c = ClientIdle) (clients p)" and "destroyer p = NotDestroyed"
  shows "list_all (\<lambda>pc. pc = Blocked) (workers p) \<and> pool_empty p"
proof -
  have "\<forall>pc \<in> set (workers p). pc = Blocked"
    using all_stuck [OF inv _ assms(3)] assms(2,5) inv by (fastforce simp: pool_inv_def destroy_inv_def)
  moreover from this have "tasks (gqueue p) = []"
    using inv assms(4) by (auto simp: pool_inv_def wake_inv_def list_all_iff)
  moreover have "contents q = []" if "q \<in> set (deques p)" for q
    by (rule idle_deques_empty [OF inv _ that]) (use calculation(1) in auto)
  ultimately show ?thesis by (auto simp: list_all_iff pool_empty_iff queued_def)
qed

text \<open>
  No wake-up is lost and the pool does not deadlock: if no worker can move, no task is
  running, every call of \<open>enqueue\<close> has returned and the pool is not being destroyed, then all
  workers sleep and the pool holds no task, neither in the global queue nor in any deque.
\<close>

lemma no_lost_wakeup:
  assumes "exec pool_step as (pool_ctor n m) = Some p"
    and "\<forall>i. worker_step i False p = None" and "in_flight p = []"
    and "list_all (\<lambda>c. c = ClientIdle) (clients p)" and "destroyer p = NotDestroyed"
  shows "list_all (\<lambda>pc. pc = Blocked) (workers p) \<and> pool_empty p"
  using stuck_asleep [OF pool_inv_exec [OF assms(1)] assms(2-5)] .

section \<open>Shutdown\<close>

text \<open>
  A measure of the work that is left once the destructor has notified the workers, with \<open>n\<close>
  deques: a bound on the steps of a worker before it has exited, and a weight for each task
  that is still in a queue.
\<close>

fun exit_rank :: "nat \<Rightarrow> 'a worker_pc \<Rightarrow> nat" where
  "exit_rank n Exited = 0"
| "exit_rank n Locked = 1"
| "exit_rank n StopCheck = 1"
| "exit_rank n Lock = 2"
| "exit_rank n (SpinGlobal k) = 3 + (32 - k) * (n + 4)"
| "exit_rank n (StealEntry (Spin k)) = 3 + (31 - k) * (n + 4) + (n + 3)"
| "exit_rank n (Probe (Spin k) start j) = 3 + (31 - k) * (n + 4) + (n - j + 1)"
| "exit_rank n (Probe First start j) = 2 + (n - j)"
| "exit_rank n (StealEntry First) = n + 3"
| "exit_rank n FetchGlobal = n + 4"
| "exit_rank n Fetch = n + 5"
| "exit_rank n (Run t) = n + 6"
| "exit_rank n (RunLock t) = n + 7"
| "exit_rank n (RunNotify t) = n + 8"
| "exit_rank n DecSleeping = n + 6"
| "exit_rank n PredStop = n + 7"
| "exit_rank n Woken = n + 8"
| "exit_rank n _ = 0"

definition shutdown_rank :: "'a pool \<Rightarrow> nat" where
  "shutdown_rank p =
     (let n = length (deques p) in
      sum_list (map (exit_rank n) (workers p)) + (n + 7) * length (queued p))"

lemma shutdown_set_worker:
  assumes "i < length (workers p)" and "workers q = workers p" and "length (deques q) = length (deques p)"
    and "queued q = queued p" and "exit_rank (length (deques p)) pc < exit_rank (length (deques p)) (workers p ! i)"
  shows "shutdown_rank (set_worker i pc q) < shutdown_rank p"
  using assms sum_list_map_update [of i "workers p" "exit_rank (length (deques p))" pc]
  by (simp add: shutdown_rank_def Let_def) (simp add: set_worker_def)

lemma shutdown_found:
  assumes "i < length (workers p)" and "workers q = workers p" and "length (deques q) = length (deques p)"
    and "mset (queued p) = opt_mset r + mset (queued q)"
    and "exit_rank (length (deques p)) other < exit_rank (length (deques p)) (workers p ! i)"
  shows "shutdown_rank (set_worker i (case r of Some x \<Rightarrow> Run x | None \<Rightarrow> other) q) < shutdown_rank p"
proof -
  let ?n = "length (deques p)" and ?pc = "case r of Some x \<Rightarrow> Run x | None \<Rightarrow> other"
  have "length (queued p) = length (queued q) + (if r = None then 0 else 1)"
    using arg_cong [OF assms(4), of size] by (cases r) simp_all
  then have "(?n + 7) * length (queued p) = (?n + 7) * length (queued q) + (if r = None then 0 else ?n + 7)"
    by (simp add: algebra_simps)
  moreover have "exit_rank ?n ?pc < exit_rank ?n (workers p ! i) + (if r = None then 0 else ?n + 7)"
    using assms(5) by (cases r) simp_all
  ultimately show ?thesis
    using assms(1-3) sum_list_map_update [of i "workers p" "exit_rank ?n" ?pc]
    by (cases r; simp add: shutdown_rank_def Let_def; simp add: set_worker_def)
qed

text \<open>After the notification of the destructor, every step of a worker or of a task decreases the rank.\<close>

definition stopping :: "'a pool \<Rightarrow> bool" where
  "stopping p \<longleftrightarrow> pool_inv p \<and> destroyer p = DestroyJoin"

lemma stopping_pc:
  "stopping p \<Longrightarrow> i < length (workers p) \<Longrightarrow> \<not> sleep_bound (workers p ! i) \<and> stop_flag p"
  by (auto simp: stopping_def pool_inv_def destroy_inv_def)

lemma exit_rank_steal_failed:
  "exit_rank n (steal_failed c) < exit_rank n (StealEntry c)"
  "exit_rank n (steal_failed c) < exit_rank n (Probe c start k)"
  by (auto simp: steal_failed_def split: steal_ctx.splits)

lemma exit_rank_probe:
  "exit_rank n (Probe c start 0) < exit_rank n (StealEntry c)"
  "k < n \<Longrightarrow> exit_rank n (Probe c start (k + 1)) < exit_rank n (Probe c start k)"
  by (cases c; simp)+

lemma rank_fetch_local:
  assumes "pool_inv p" and "i < length (workers p)" and "workers p ! i = Fetch"
  shows "shutdown_rank (fetch_local i p) < shutdown_rank p"
proof -
  have wf: "shape_inv p" using assms(1) by (simp add: pool_inv_def)
  obtain r q where pop: "deque_pop (deques p ! i) = (r, q)" by fastforce
  have "mset (queued p) = opt_mset r + mset (queued (p\<lparr>deques := (deques p)[i := q]\<rparr>))"
    using owner_view.mset_take [OF shape_deque [OF wf assms(2)] pop] assms wf
    by (intro queued_take_deque) (simp_all add: shape_inv_def)
  with pop assms show ?thesis by (simp add: fetch_local_def shutdown_found)
qed

lemma rank_fetch_global:
  assumes "i < length (workers p)"
    and "exit_rank (length (deques p)) other < exit_rank (length (deques p)) (workers p ! i)"
  shows "shutdown_rank (fetch_global i other p) < shutdown_rank p"
  using assms by (auto simp: fetch_global_def split: prod.splits intro!: shutdown_found queued_take_global)

lemma rank_steal_entry:
  assumes "i < length (workers p)" and "workers p ! i = StealEntry c"
  shows "shutdown_rank (steal_entry i c p) < shutdown_rank p"
  using assms exit_rank_steal_failed(1) exit_rank_probe(1)
  by (auto simp: steal_entry_def Let_def intro!: shutdown_set_worker)

lemma rank_probe:
  assumes "pool_inv p" and "i < length (workers p)" and pc: "workers p ! i = Probe c start k"
  shows "shutdown_rank (probe i lost c start k p) < shutdown_rank p"
proof (cases "k < length (deques p)")
  case True
  let ?t = "probe_target start (length (deques p)) k"
  obtain r q where steal: "deque_steal (deques p ! ?t) = (r, q)" by fastforce
  have t: "?t < length (deques p)" using True by (intro probe_target_less) auto
  then have wf: "deque_wf (deques p ! ?t)" using assms(1) by (simp add: pool_inv_def shape_inv_def)
  have "mset (queued p) = opt_mset r + mset (queued (p\<lparr>deques := (deques p)[?t := q]\<rparr>))"
    using thief_view.mset_take [OF wf steal] t by (intro queued_take_deque) simp_all
  then have "shutdown_rank (set_worker i (case r of Some x \<Rightarrow> Run x | None \<Rightarrow> Probe c start (k + 1))
      (p\<lparr>deques := (deques p)[?t := q]\<rparr>)) < shutdown_rank p"
    using assms(2) pc exit_rank_probe(2) [OF True, of c start] by (intro shutdown_found) simp_all
  moreover have "shutdown_rank (set_worker i (Probe c start (k + 1)) p) < shutdown_rank p"
    using assms(2) pc exit_rank_probe(2) [OF True, of c start] by (intro shutdown_set_worker) simp_all
  ultimately show ?thesis
    using True steal by (simp add: probe_def Let_def)
next
  case False
  have "shutdown_rank (set_worker i (steal_failed c) p) < shutdown_rank p"
    by (rule shutdown_set_worker) (simp_all add: assms(2) pc exit_rank_steal_failed)
  then show ?thesis using False by (simp add: probe_def)
qed

lemma rank_worker:
  assumes "worker_step i lost p = Some p'" and "stopping p"
  shows "shutdown_rank p' < shutdown_rank p"
proof -
  have i: "i < length (workers p)"
    using assms(1) by (simp add: worker_step_def split: if_splits)
  note pc = stopping_pc [OF assms(2) i]
  have inv: "pool_inv p" using assms(2) by (simp add: stopping_def)
  have spin: "3 + ((31 - k) * (n + 4) + n) < (32 - k) * (n + 4)" if "k < 32" for n k :: nat
  proof -
    have "32 - k = Suc (31 - k)" using that by simp
    then show ?thesis by simp
  qed
  show ?thesis
    using assms(1) i pc
    by (cases "workers p ! i")
      (auto simp: worker_step_def rank_fetch_local [OF inv] rank_steal_entry rank_probe [OF inv] spin
        split: if_splits intro!: rank_fetch_global shutdown_set_worker)
qed

lemma rank_task:
  assumes "task_step i w p = Some p'" and "stopping p"
  shows "shutdown_rank p' < shutdown_rank p"
proof -
  have i: "i < length (workers p)"
    using assms(1) by (simp add: task_step_def split: if_splits)
  have "Blocked \<notin> set (workers p)"
    using assms(2) by (auto simp: stopping_def pool_inv_def destroy_inv_def)
  then have "notify_one w p = Some p" by (simp add: notify_one_def)
  then show ?thesis
    using assms(1) i
    by (cases "workers p ! i")
      (auto simp: task_step_def split: if_splits intro!: shutdown_set_worker)
qed

lemma notify_one_destroyer: "notify_one w p = Some p' \<Longrightarrow> destroyer p' = destroyer p"
  by (simp add: notify_one_frame)

lemma stopping_step:
  assumes "stopping p" and "a \<in> range (case_prod WorkerStep) \<union> range (case_prod TaskStep)"
    and "pool_step a p = Some p'"
  shows "stopping p' \<and> shutdown_rank p' < shutdown_rank p"
proof -
  have "destroyer p' = destroyer p"
    using assms(2,3)
    by (auto simp: worker_step_def task_step_def step_defs Let_def
        split: if_splits worker_pc.splits prod.splits dest!: notify_one_destroyer)
  then have "stopping p'" using assms(1,3) pool.inv_step [of p a p'] by (simp add: stopping_def)
  moreover have "shutdown_rank p' < shutdown_rank p" using assms rank_worker rank_task by auto
  ultimately show ?thesis ..
qed

lemma stopping_awake: "stopping p \<Longrightarrow> Blocked \<notin> set (workers p)"
  by (auto simp: stopping_def pool_inv_def destroy_inv_def)

lemma stopping_join:
  assumes "stopping p" and "\<forall>i. worker_step i False p = None" and "in_flight p = []"
  shows "list_all (\<lambda>pc. pc = Exited) (workers p) \<and> destroy_step p = Some (p\<lparr>destroyer := Destroyed\<rparr>)"
  using all_stuck [of p] assms stopping_awake [OF assms(1)]
  by (fastforce simp: stopping_def destroy_step_def list_all_iff)

text \<open>
  The destructor terminates once it has notified the workers, provided the tasks return
  and do not enqueue new tasks for ever: any sequence of steps of workers and tasks is at most
  \<open>shutdown_rank\<close> long, no worker is asleep, and when nobody can move any more, all workers
  have left their loop, so that the join succeeds.
\<close>

lemma shutdown_terminates:
  assumes "exec pool_step as (pool_ctor n m) = Some p" and "destroyer p = DestroyJoin"
    and "exec pool_step bs p = Some q"
    and "set bs \<subseteq> range (case_prod WorkerStep) \<union> range (case_prod TaskStep)"
  shows "length bs \<le> shutdown_rank p \<and> Blocked \<notin> set (workers q) \<and>
    ((\<forall>i. worker_step i False q = None) \<and> in_flight q = [] \<longrightarrow>
       destroy_step q = Some (q\<lparr>destroyer := Destroyed\<rparr>))"
proof -
  have inv: "pool_inv p" and "stopping p"
    using pool_inv_exec [OF assms(1)] assms(2) by (simp_all add: stopping_def)
  have "stopping q \<and> length bs + shutdown_rank q \<le> shutdown_rank p"
    by (rule exec_rank [where I = stopping and rank = shutdown_rank, OF stopping_step])
      (fact assms \<open>stopping p\<close> | assumption)+
  then have rank: "length bs + shutdown_rank q \<le> shutdown_rank p" and q: "stopping q" by simp_all
  then show ?thesis using stopping_awake [OF q] stopping_join [OF q] by simp
qed

lemma run_shutdown:
  "exec pool_step [DestroyStep, DestroyStep] (pool_ctor 1 1)
   = Some ((pool_ctor 1 1)\<lparr>stop_flag := True, destroyer := DestroyJoin\<rparr>)"
  "exec pool_step (replicate 4 (WorkerStep 0 False))
     ((pool_ctor 1 1)\<lparr>stop_flag := True, destroyer := DestroyJoin\<rparr>)
   = Some ((pool_ctor 1 1)\<lparr>workers := [Exited], stop_flag := True, destroyer := DestroyJoin\<rparr>)"
  by (simp_all add: pool_eval)

lemma destroyed_outcome:
  assumes inv: "pool_inv p" and "destroyer p = Destroyed"
  shows "list_all (\<lambda>pc. pc = Exited) (workers p) \<and> in_flight p = [] \<and>
    (\<forall>q \<in> set (deques p). contents q = []) \<and>
    mset (submitted p) = mset (finished p) + mset (gq_dtor (gqueue p))"
proof -
  have exited: "\<forall>pc \<in> set (workers p). pc = Exited"
    using inv assms(2) by (auto simp: pool_inv_def destroy_inv_def)
  then have "in_flight p = []" by (auto simp: in_flight_def)
  moreover have deques: "\<forall>q \<in> set (deques p). contents q = []"
    using idle_deques_empty [OF inv] exited by fastforce
  then have "queued p = tasks (gqueue p)" by (simp add: queued_def)
  ultimately show ?thesis
    using inv exited deques by (simp add: pool_inv_def balance_def list_all_iff gq_dtor_def)
qed

text \<open>
  When the destructor has returned, no task is running, all deques are empty, and every
  task that was submitted has been executed, except for those in the global queue, which the
  destructor of the queue deletes without running them.
\<close>

lemma destructor_outcome:
  assumes "exec pool_step as (pool_ctor n m) = Some p" and "destroyer p = Destroyed"
  shows "list_all (\<lambda>pc. pc = Exited) (workers p) \<and> in_flight p = [] \<and>
    (\<forall>q \<in> set (deques p). contents q = []) \<and>
    mset (submitted p) = mset (finished p) + mset (gq_dtor (gqueue p))"
  using destroyed_outcome [OF pool_inv_exec [OF assms(1)] assms(2)] .

lemma run_drop:
  "exec pool_step
     ([WorkerStep 0 False, WorkerStep 0 False, WorkerStep 0 False, ClientEnqueue 0 x, ClientStep 0 0,
       DestroyStep, WorkerStep 0 False, DestroyStep, DestroyStep])
     (pool_ctor 1 1)
   = Some ((pool_ctor 1 1)\<lparr>gqueue := \<lparr>tasks = [x]\<rparr>, workers := [Exited], stop_flag := True,
             destroyer := Destroyed, submitted := [x]\<rparr>)"
  by (simp add: pool_eval)

lemma run_taken:
  "exec pool_step [ClientEnqueue 0 x, WorkerStep 0 False, WorkerStep 0 False] (pool_ctor 1 1)
   = Some ((pool_ctor 1 1)\<lparr>workers := [Run x], clients := [ClientNotify], submitted := [x]\<rparr>)"
  by (simp add: pool_eval)

text \<open>
  \<open>thread_pool::wait\<close> returns when the queues are empty, that is, exactly when every
  submitted task has been taken by a worker, if its scan over the queues is taken at one moment;
  \<open>Pool_Wait\<close> interleaves the scan with the other threads.
  Tasks may still be running: the last part is an execution after which \<open>wait\<close> returns although the only task has not finished.
\<close>

lemma wait_condition:
  assumes "exec pool_step as (pool_ctor n m) = Some p"
  shows "(pool_empty p \<longleftrightarrow> mset (submitted p) = mset (finished p) + mset (in_flight p)) \<and>
    (\<exists>bs q. exec pool_step bs (pool_ctor 1 1) = Some q \<and> pool_empty q \<and>
       submitted q = [x] \<and> finished q = [])"
proof
  have "balance p" using pool_inv_exec [OF assms] by (simp add: pool_inv_def)
  then show "pool_empty p \<longleftrightarrow> mset (submitted p) = mset (finished p) + mset (in_flight p)"
    by (auto simp: pool_empty_iff balance_def)
  show "\<exists>bs q. exec pool_step bs (pool_ctor 1 1) = Some q \<and> pool_empty q \<and>
       submitted q = [x] \<and> finished q = []"
    by (rule exI, rule exI, rule conjI, rule run_taken)
      (simp add: pool_empty_def has_local_work_def pool_eval)
qed

end
