(* ===== verification/Pool_Types.thy ===== *)
theory Pool_Types
  imports Pool_Properties
begin

text \<open>
  The types of the pool's variables beyond those of HOL: ranges of the indices in program counters,
  sizes of the arrays, the nonzero states of the generators.
\<close>

section \<open>Type invariant\<close>

definition ctx_type :: "steal_ctx \<Rightarrow> bool" where
  "ctx_type c = (case c of First \<Rightarrow> True | Spin k \<Rightarrow> k < 32)"

definition pc_type :: "nat \<Rightarrow> 'a worker_pc \<Rightarrow> bool" where
  "pc_type n pc =
     (case pc of
        StealEntry c \<Rightarrow> ctx_type c
      | Probe c start k \<Rightarrow> ctx_type c \<and> start < n \<and> k \<le> n
      | SpinGlobal k \<Rightarrow> k \<le> 32
      | CheckDeque k \<Rightarrow> k \<le> n
      | PredDeque k \<Rightarrow> k \<le> n
      | _ \<Rightarrow> True)"

definition pool_type :: "nat \<Rightarrow> nat \<Rightarrow> 'a pool \<Rightarrow> bool" where
  "pool_type n m p \<longleftrightarrow>
     0 < n \<and> length (workers p) = n \<and> length (deques p) = n \<and> length (rngs p) = n \<and> length (clients p) = m \<and>
     list_all deque_wf (deques p) \<and> list_all (\<lambda>r. r \<noteq> 0) (rngs p) \<and> list_all (pc_type n) (workers p)"

lemma pc_type_simps [simp]:
  "pc_type n Fetch" "pc_type n FetchGlobal" "pc_type n (StealEntry c) = ctx_type c"
  "pc_type n (Probe c start k) = (ctx_type c \<and> start < n \<and> k \<le> n)" "pc_type n (Run x)" "pc_type n (RunNotify x)"
  "pc_type n (RunLock x)" "pc_type n StopCheck" "pc_type n (SpinGlobal j) = (j \<le> 32)" "pc_type n Lock" "pc_type n Locked"
  "pc_type n CheckGlobal" "pc_type n (CheckDeque k) = (k \<le> n)" "pc_type n IncSleeping" "pc_type n PredStop"
  "pc_type n PredGlobal" "pc_type n (PredDeque k) = (k \<le> n)" "pc_type n Blocked" "pc_type n Woken"
  "pc_type n DecSleeping" "pc_type n Exited" "ctx_type First" "ctx_type (Spin j) = (j < 32)"
  "ctx_type c \<Longrightarrow> pc_type n (steal_failed c)"
  by (simp_all add: pc_type_def ctx_type_def steal_failed_def split: steal_ctx.splits)

lemma list_all_update: "list_all P xs \<Longrightarrow> P x \<Longrightarrow> list_all P (xs[i := x])"
  by (auto simp: list_all_iff dest!: set_update_subset_insert [THEN subsetD])

section \<open>Preservation\<close>

text \<open>The shape is that of the pool's invariant; what remains are generators and program counters.\<close>

lemma pool_type_shape: "pool_type n m p \<Longrightarrow> shape_inv p"
  by (simp add: pool_type_def shape_inv_def list_all_iff)

lemma type_set_worker: "pool_type n m p \<Longrightarrow> pc_type n pc \<Longrightarrow> pool_type n m (set_worker i pc p)"
  by (simp add: pool_type_def set_worker_def list_all_update)

lemma type_set_client: "pool_type n m p \<Longrightarrow> pool_type n m (set_client j pc p)"
  by (simp add: pool_type_def set_client_def)

lemma type_set_deque: "pool_type n m p \<Longrightarrow> deque_wf q \<Longrightarrow> pool_type n m (p\<lparr>deques := (deques p)[i := q]\<rparr>)"
  by (simp add: pool_type_def list_all_update)

lemma type_set_rng: "pool_type n m p \<Longrightarrow> r \<noteq> 0 \<Longrightarrow> pool_type n m (p\<lparr>rngs := (rngs p)[i := r]\<rparr>)"
  by (simp add: pool_type_def list_all_update)

lemma type_frame [simp]:
  "pool_type n m (p\<lparr>gqueue := g\<rparr>) = pool_type n m p" "pool_type n m (p\<lparr>mutex_owner := o'\<rparr>) = pool_type n m p"
  "pool_type n m (p\<lparr>sleeping := z\<rparr>) = pool_type n m p" "pool_type n m (p\<lparr>submitted := xs\<rparr>) = pool_type n m p"
  "pool_type n m (p\<lparr>finished := xs\<rparr>) = pool_type n m p" "pool_type n m (p\<lparr>stop_flag := b\<rparr>) = pool_type n m p"
  "pool_type n m (p\<lparr>destroyer := d\<rparr>) = pool_type n m p"
  by (simp_all add: pool_type_def)

lemma type_push_global [simp]: "pool_type n m (push_global x p) = pool_type n m p"
  by (simp add: push_global_def)

lemma type_push_local: "pool_type n m p \<Longrightarrow> i < n \<Longrightarrow> pool_type n m (push_local i x p)"
  using type_set_deque [of n m p "deque_push x (deques p ! i)" i]
  by (simp add: push_local_def deque_push_spec shape_deque pool_type_shape) (simp add: pool_type_def deque_push_spec list_all_length)

lemma type_notify_one: "notify_one w p = Some p' \<Longrightarrow> pool_type n m p \<Longrightarrow> pool_type n m p'"
  by (auto simp: notify_one_def type_set_worker split: if_splits)

lemma type_notify_all: "pool_type n m p \<Longrightarrow> pool_type n m (notify_all p)"
  by (auto simp: pool_type_def notify_all_def list_all_iff)

lemma type_fetch_local: "pool_type n m p \<Longrightarrow> i < length (workers p) \<Longrightarrow> pool_type n m (fetch_local i p)"
  by (auto simp: fetch_local_def split: prod.splits option.splits
      intro!: type_set_worker type_set_deque dest: deque_wf_pop [OF shape_deque [OF pool_type_shape]])

lemma type_fetch_global: "pool_type n m p \<Longrightarrow> pc_type n other \<Longrightarrow> pool_type n m (fetch_global i other p)"
  by (auto simp: fetch_global_def split: prod.splits option.splits intro!: type_set_worker)

lemma type_steal_entry:
  assumes "pool_type n m p" and "ctx_type c" and "i < length (workers p)"
  shows "pool_type n m (steal_entry i c p)"
proof -
  have "rngs p ! i \<noteq> 0" using assms by (auto simp: pool_type_def list_all_length)
  then have "xorshift (rngs p ! i) \<noteq> 0" by (simp add: xorshift_nonzero)
  moreover have "start_index r (length (deques p)) < n" for r
    using assms(1) start_index_less [of "length (deques p)" r] by (simp add: pool_type_def)
  ultimately show ?thesis using assms by (auto simp: steal_entry_def Let_def intro!: type_set_worker type_set_rng)
qed

lemma type_probe:
  assumes ty: "pool_type n m p" and pc: "ctx_type c" "start < n" "k \<le> n"
  shows "pool_type n m (probe i lost c start k p)"
proof -
  have n: "length (deques p) = n" using ty by (simp add: pool_type_def)
  have "deque_wf q" if "deque_steal (deques p ! probe_target start n k) = (r, q)" "k < n" for r q
    using deque_wf_steal [of "deques p ! probe_target start n k"] ty that probe_target_less [of n start k]
    by (auto simp: pool_type_def list_all_length)
  with ty pc n show ?thesis
    by (auto simp: probe_def Let_def split: prod.splits option.splits intro!: type_set_worker type_set_deque)
qed

lemma type_worker_step:
  assumes "pool_type n m p" and "worker_step i lost p = Some p'"
  shows "pool_type n m p'"
proof -
  have i: "i < length (workers p)" using assms(2) by (auto simp: worker_step_def split: if_splits)
  then have "pc_type n (workers p ! i)" "length (deques p) = n" using assms(1) by (auto simp: pool_type_def list_all_length)
  then show ?thesis
    using assms i
    by (cases "workers p ! i")
      (auto simp: worker_step_def type_fetch_local type_fetch_global type_steal_entry type_probe type_set_worker split: if_splits)
qed

lemma type_step: "pool_type n m p \<Longrightarrow> pool_step a p = Some p' \<Longrightarrow> pool_type n m p'"
  by (cases a)
    (auto simp: client_enqueue_def client_step_def task_enqueue_def task_step_def spurious_wake_def destroy_step_def
      split: if_splits client_pc.splits worker_pc.splits destroy_pc.splits
      intro: type_worker_step intro!: type_set_worker type_set_client type_notify_all type_push_local
      dest: type_notify_one simp: pool_type_def [THEN iffD1, THEN conjunct2, THEN conjunct1])

lemma type_ctor:
  assumes "n < 2 ^ 32"
  shows "pool_type (if n = 0 then 1 else n) m (pool_ctor n m)"
proof -
  have "rng_seed i \<noteq> 0" if "i < (if n = 0 then 1 else n)" for i
    using that assms by (intro rng_seed_nonzero) (simp split: if_splits)
  then show ?thesis by (auto simp: pool_type_def pool_ctor_def Let_def deque_wf_init list_all_iff)
qed

lemma type_system:
  "n < 2 ^ 32 \<Longrightarrow> invariant_system (pool_ctor n m) pool_step (pool_type (if n = 0 then 1 else n) m)"
  by unfold_locales (rule type_ctor, assumption, rule type_step)

section \<open>Property\<close>

text \<open>
  C28. Types of the pool: the numbers of workers, deques and generators stay what the constructor made them, all
  deques are well-formed, no generator is ever in state zero, and every index that a worker keeps between two
  accesses is in its range: start and iteration of a probe, the spin count, the position in \<open>has_local_work\<close>.
\<close>

theorem pool_well_typed:
  assumes "n < 2 ^ 32" and "exec pool_step as (pool_ctor n m) = Some p"
  shows "pool_type (if n = 0 then 1 else n) m p"
  using invariant_system.inv_exec [OF type_system invariant_system.inv_init [OF type_system]] assms by blast

theorem pool_well_typed_witness:
  "\<exists>p. exec pool_step (replicate 4 (WorkerStep 1 False)) (pool_ctor 2 1 :: bool pool) = Some p \<and>
     workers p = [Fetch, Probe First 0 1] \<and> pool_type 2 1 p"
proof -
  obtain p :: "bool pool" where p: "exec pool_step (replicate 4 (WorkerStep 1 False)) (pool_ctor 2 1) = Some p"
    "workers p = [Fetch, Probe First 0 1]"
    by (simp add: pool_eval pool_ctor_def upt_rec rng_seed_def xorshift_def start_index_def probe_target_def flip: numeral_2_eq_2)
  with pool_well_typed [OF _ p(1)] show ?thesis by simp
qed

end
