(* ===== verification/Pool_Fine.thy ===== *)
theory Pool_Fine
  imports Deque_Concurrent Pool_Properties
begin

text \<open>
  The pool of \<open>Thread_Pool\<close> with the deques of \<open>Deque_Concurrent\<close>: every access of a worker to a deque is a step
  of its own, in \<open>pop\<close> and \<open>push\<close> on the own deque, in \<open>steal\<close> on the deques of others, and in \<open>empty\<close>, which
  \<open>has_local_work\<close> calls. The machine is simulated by the one of \<open>Thread_Pool\<close>, so what holds there holds here.
\<close>

section \<open>The machine\<close>

text \<open>
  The pool with its memory, the calls in progress on each deque, and for each worker the value of
  \<open>bottom_\<close> that a call of \<open>empty\<close> has loaded.
\<close>

record 'a fine =
  ctl :: "'a pool"
  dqs :: "'a deque_sys list"
  regs :: "int option list"

definition fine_ctor :: "nat \<Rightarrow> nat \<Rightarrow> 'a fine" where
  "fine_ctor n m =
     (let p = pool_ctor n m in
      \<lparr>ctl = p, dqs = map (\<lambda>_. init_sys default_capacity) (deques p), regs = map (\<lambda>_. None) (deques p)\<rparr>)"

definition put_deque :: "nat \<Rightarrow> 'a deque_sys \<Rightarrow> 'a fine \<Rightarrow> 'a fine" where
  "put_deque i s f = f\<lparr>dqs := (dqs f)[i := s], ctl := (ctl f)\<lparr>deques := (deques (ctl f))[i := deq s]\<rparr>\<rparr>"

definition at_pc :: "nat \<Rightarrow> 'a worker_pc \<Rightarrow> 'a fine \<Rightarrow> 'a fine" where
  "at_pc i pc f = f\<lparr>ctl := set_worker i pc (ctl f)\<rparr>"

text \<open>The result of the call that has just returned.\<close>

definition returned :: "'a deque_sys \<Rightarrow> 'a option" where
  "returned s = (case last (events s) of Popped r \<Rightarrow> r | Stolen i r \<Rightarrow> r | Pushed x \<Rightarrow> Some x)"

text \<open>\<open>local_queue->pop()\<close> of worker \<open>i\<close>.\<close>

definition fine_fetch :: "nat \<Rightarrow> 'a fine \<Rightarrow> 'a fine option" where
  "fine_fetch i f =
     (let s = dqs f ! i in
      if owner s = OwnerIdle then map_option (\<lambda>s'. put_deque i s' f) (call_pop s)
      else
        map_option
          (\<lambda>s'. if owner s' = OwnerIdle
                then at_pc i (case returned s' of Some x \<Rightarrow> Run x | None \<Rightarrow> FetchGlobal) (put_deque i s' f)
                else put_deque i s' f)
          (owner_step s))"

text \<open>Iteration \<open>k\<close> of \<open>steal_from_others\<close> by worker \<open>i\<close>.\<close>

definition fine_probe :: "nat \<Rightarrow> steal_ctx \<Rightarrow> nat \<Rightarrow> nat \<Rightarrow> 'a fine \<Rightarrow> 'a fine option" where
  "fine_probe i c start k f =
     (let n = length (dqs f) in
      if k < n
      then
        (let t = probe_target start n k; s = dqs f ! t in
         if t = i then Some (at_pc i (Probe c start (k + 1)) f)
         else if thieves s i = ThiefIdle then map_option (\<lambda>s'. put_deque t s' f) (call_steal i s)
         else
           map_option
             (\<lambda>s'. if thieves s' i = ThiefIdle
                   then at_pc i (case returned s' of Some x \<Rightarrow> Run x | None \<Rightarrow> Probe c start (k + 1)) (put_deque t s' f)
                   else put_deque t s' f)
             (thief_step i s))
      else Some (at_pc i (steal_failed c) f))"

text \<open>\<open>deque->empty()\<close> for deque \<open>k\<close>: the load of \<open>bottom_\<close>, then that of \<open>top_\<close> and the answer.\<close>

definition fine_empty :: "nat \<Rightarrow> nat \<Rightarrow> (bool \<Rightarrow> 'a pool) \<Rightarrow> 'a fine \<Rightarrow> 'a fine" where
  "fine_empty i k answer f =
     (let q = deques (ctl f) ! k in
      case regs f ! i of
        None \<Rightarrow> f\<lparr>regs := (regs f)[i := Some (dbottom q)]\<rparr>
      | Some b \<Rightarrow> f\<lparr>ctl := answer (b \<le> dtop q), regs := (regs f)[i := None]\<rparr>)"

definition fine_worker :: "nat \<Rightarrow> 'a fine \<Rightarrow> 'a fine option" where
  "fine_worker i f =
     (let p = ctl f in
      if i < length (workers p) then
        (case workers p ! i of
           Fetch \<Rightarrow> fine_fetch i f
         | Probe c start k \<Rightarrow> fine_probe i c start k f
         | CheckDeque k \<Rightarrow>
             Some (if k < length (deques p)
                   then fine_empty i k
                     (\<lambda>empty. if empty then set_worker i (CheckDeque (k + 1)) p
                              else set_worker i Fetch (p\<lparr>mutex_owner := None\<rparr>)) f
                   else at_pc i IncSleeping f)
         | PredDeque k \<Rightarrow>
             Some (if k < length (deques p)
                   then fine_empty i k (\<lambda>empty. set_worker i (if empty then PredDeque (k + 1) else DecSleeping) p) f
                   else f\<lparr>ctl := set_worker i Blocked (p\<lparr>mutex_owner := None\<rparr>)\<rparr>)
         | _ \<Rightarrow> map_option (\<lambda>p'. f\<lparr>ctl := p'\<rparr>) (worker_step i False p))
      else None)"

text \<open>A task calls \<open>enqueue\<close>, which pushes on the own deque; until the push has returned, steps of the task are its steps.\<close>

definition fine_task_enqueue :: "nat \<Rightarrow> 'a \<Rightarrow> 'a fine \<Rightarrow> 'a fine option" where
  "fine_task_enqueue i x f =
     (if i < length (workers (ctl f)) then
        (case workers (ctl f) ! i of
           Run t \<Rightarrow> map_option (\<lambda>s'. put_deque i s' f) (call_push x (dqs f ! i))
         | _ \<Rightarrow> None)
      else None)"

definition fine_task :: "nat \<Rightarrow> nat \<Rightarrow> 'a fine \<Rightarrow> 'a fine option" where
  "fine_task i w f =
     (let p = ctl f; s = dqs f ! i in
      if i < length (workers p) \<and> owner s \<noteq> OwnerIdle then
        (case workers p ! i of
           Run t \<Rightarrow>
             map_option
               (\<lambda>s'. let f' = put_deque i s' f in
                     if owner s' = OwnerIdle
                     then at_pc i (RunNotify t)
                       (f'\<lparr>ctl := (ctl f')\<lparr>submitted := submitted p @ [the (returned s')]\<rparr>\<rparr>)
                     else f')
               (owner_step s)
         | _ \<Rightarrow> None)
      else map_option (\<lambda>p'. f\<lparr>ctl := p'\<rparr>) (task_step i w p))"

fun fine_step :: "'a pool_action \<Rightarrow> 'a fine \<Rightarrow> 'a fine option" where
  "fine_step (WorkerStep i lost) f = fine_worker i f"
| "fine_step (TaskEnqueue i x) f = fine_task_enqueue i x f"
| "fine_step (TaskStep i w) f = fine_task i w f"
| "fine_step a f = map_option (\<lambda>p'. f\<lparr>ctl := p'\<rparr>) (pool_step a (ctl f))"

section \<open>Calls on one deque\<close>

text \<open>The tasks of a deque, as the specification of \<open>Deque_Concurrent\<close> sees them.\<close>

abbreviation stored :: "'a deque_sys \<Rightarrow> 'a list" where
  "stored s \<equiv> items_of (abs_deque s)"

fun popping :: "'a owner_pc \<Rightarrow> bool" where
  "popping (PopBottom b) = True"
| "popping (PopTop b) = True"
| "popping (PopRestoreNull b) = True"
| "popping (PopSlot b t) = True"
| "popping (PopCas b t r) = True"
| "popping (PopRestore b r) = True"
| "popping _ = False"

lemma decided_popping: "decided_of pc \<noteq> None \<Longrightarrow> popping pc"
  by (cases pc) simp_all

lemma owner_step_shape:
  assumes "owner_step s = Some s'"
  shows "thieves s' = thieves s \<and>
    (if owner s' = OwnerIdle
     then (if popping (owner s) then \<exists>r. events s' = events s @ [Popped r] \<and> returned s' = r
           else \<exists>x. events s' = events s @ [Pushed x] \<and> returned s' = Some x)
     else events s' = events s \<and> popping (owner s') = popping (owner s)) \<and> owner s \<noteq> OwnerIdle"
  using assms
  by (cases "owner s") (auto simp: owner_step_def Let_def returned_def split: if_splits prod.splits)

lemma thief_step_shape:
  assumes "thief_step i s = Some s'"
  shows "owner s' = owner s \<and> (\<forall>j. j \<noteq> i \<longrightarrow> thieves s' j = thieves s j) \<and>
    (if thieves s' i = ThiefIdle then \<exists>r. events s' = events s @ [Stolen i r] \<and> returned s' = r
     else events s' = events s)"
  using assms
  by (cases "thieves s i") (auto simp: thief_step_def Let_def returned_def set_thief_def split: if_splits prod.splits)

inductive_cases spec_same: "spec_step a b"

lemma spec_same_log: "spec_step a b \<Longrightarrow> log b = log a \<Longrightarrow>
    b = a \<or> (\<exists>x. items_of a = [x] \<and> decided a = None \<and> b = a\<lparr>items_of := [], decided := Some x\<rparr>)"
  by (erule spec_same) auto

lemma spec_pushed: "spec_step a b \<Longrightarrow> log b = log a @ [Pushed x] \<Longrightarrow>
    items_of b = items_of a @ [x] \<and> decided b = decided a"
  by (erule spec_same) auto

lemma spec_popped: "spec_step a b \<Longrightarrow> log b = log a @ [Popped r] \<Longrightarrow> decided b = None \<Longrightarrow>
    (case r of
       None \<Rightarrow> items_of a = [] \<and> items_of b = [] \<and> decided a = None
     | Some x \<Rightarrow> (decided a = Some x \<and> items_of b = items_of a) \<or> (decided a = None \<and> items_of a = items_of b @ [x]))"
  by (erule spec_same) auto

lemma spec_stolen: "spec_step a b \<Longrightarrow> log b = log a @ [Stolen i r] \<Longrightarrow>
    decided b = decided a \<and> items_of a = (case r of None \<Rightarrow> items_of b | Some x \<Rightarrow> x # items_of b)"
  by (erule spec_same) auto

section \<open>The view of the atomic pool\<close>

text \<open>
  A worker whose \<open>pop\<close> has won the last task is already running it in the atomic pool. The deques of the atomic
  pool are only required to store the same tasks: \<open>push\<close> may grow an array because of an old value of \<open>top_\<close>.
\<close>

definition apc :: "'a deque_sys \<Rightarrow> 'a worker_pc \<Rightarrow> 'a worker_pc" where
  "apc s pc = (case decided_of (owner s) of None \<Rightarrow> pc | Some x \<Rightarrow> Run x)"

definition view :: "'a deque_sys list \<Rightarrow> 'a work_stealing_deque list \<Rightarrow> 'a pool \<Rightarrow> 'a pool" where
  "view D ds p = p\<lparr>deques := ds, workers := map2 apc D (workers p)\<rparr>"

definition settled :: "'a deque_sys list \<Rightarrow> 'a pool \<Rightarrow> bool" where
  "settled D p \<longleftrightarrow> length D = length (workers p) \<and>
     (\<forall>i < length D. decided_of (owner (D ! i)) \<noteq> None \<longrightarrow> workers p ! i = Fetch)"

lemma settled_length: "settled D p \<Longrightarrow> length D = length (workers p)"
  by (simp add: settled_def)

lemma view_sel [simp]:
  "gqueue (view D ds p) = gqueue p" "deques (view D ds p) = ds" "rngs (view D ds p) = rngs p"
  "stop_flag (view D ds p) = stop_flag p" "sleeping (view D ds p) = sleeping p"
  "mutex_owner (view D ds p) = mutex_owner p" "clients (view D ds p) = clients p"
  "destroyer (view D ds p) = destroyer p" "submitted (view D ds p) = submitted p" "finished (view D ds p) = finished p"
  by (simp_all add: view_def)

lemma view_frame [simp]:
  "view D ds (p\<lparr>gqueue := g\<rparr>) = (view D ds p)\<lparr>gqueue := g\<rparr>" "view D ds (p\<lparr>rngs := rs\<rparr>) = (view D ds p)\<lparr>rngs := rs\<rparr>"
  "view D ds (p\<lparr>stop_flag := b\<rparr>) = (view D ds p)\<lparr>stop_flag := b\<rparr>"
  "view D ds (p\<lparr>sleeping := z\<rparr>) = (view D ds p)\<lparr>sleeping := z\<rparr>"
  "view D ds (p\<lparr>mutex_owner := m\<rparr>) = (view D ds p)\<lparr>mutex_owner := m\<rparr>"
  "view D ds (p\<lparr>clients := cs\<rparr>) = (view D ds p)\<lparr>clients := cs\<rparr>"
  "view D ds (p\<lparr>destroyer := d\<rparr>) = (view D ds p)\<lparr>destroyer := d\<rparr>"
  "view D ds (p\<lparr>submitted := xs\<rparr>) = (view D ds p)\<lparr>submitted := xs\<rparr>"
  "view D ds (p\<lparr>finished := xs\<rparr>) = (view D ds p)\<lparr>finished := xs\<rparr>" "view D ds (p\<lparr>deques := qs\<rparr>) = view D ds p"
  by (simp_all add: view_def)

lemma length_view [simp]: "length D = length (workers p) \<Longrightarrow> length (workers (view D ds p)) = length (workers p)"
  by (simp add: view_def)

lemma view_nth: "length D = length (workers p) \<Longrightarrow> i < length (workers p) \<Longrightarrow>
    workers (view D ds p) ! i = apc (D ! i) (workers p ! i)"
  by (simp add: view_def)

lemma settled_nth: "settled D p \<Longrightarrow> i < length (workers p) \<Longrightarrow> workers p ! i \<noteq> Fetch \<Longrightarrow>
    decided_of (owner (D ! i)) = None \<and> workers (view D ds p) ! i = workers p ! i"
  by (auto simp: settled_def view_nth apc_def)

text \<open>A program counter in which nothing is decided is the same in both pools.\<close>

lemma view_pc:
  assumes "settled D p" and "i < length (workers p)" and "pc \<noteq> Fetch" and "\<forall>x. pc \<noteq> Run x"
  shows "workers (view D ds p) ! i = pc \<longleftrightarrow> workers p ! i = pc"
proof (cases "decided_of (owner (D ! i))")
  case None
  then show ?thesis using assms by (simp add: view_nth settled_def apc_def)
next
  case (Some x)
  then show ?thesis using assms by (auto simp: view_nth settled_def apc_def)
qed

lemma view_set_pc:
  assumes "settled D p" and "pc \<noteq> Fetch" and "\<forall>x. pc \<noteq> Run x"
  shows "pc \<in> set (workers (view D ds p)) \<longleftrightarrow> pc \<in> set (workers p)"
  using view_pc [OF assms(1) _ assms(2,3), of _ ds] assms(1) by (auto simp: in_set_conv_nth settled_def)

lemma view_set_worker:
  assumes "length D = length (workers p)" and "decided_of (owner (D ! i)) = None"
  shows "view D ds (set_worker i pc p) = set_worker i pc (view D ds p)"
proof -
  have "map2 apc D ((workers p)[i := pc]) = (map2 apc D (workers p))[i := pc]"
    using assms by (intro nth_equalityI) (auto simp: nth_update_cases apc_def)
  then show ?thesis by (simp add: view_def set_worker_def)
qed

lemma settled_set_worker: "settled D p \<Longrightarrow> decided_of (owner (D ! i)) = None \<Longrightarrow> settled D (set_worker i pc p)"
  by (auto simp: settled_def set_worker_def nth_update_cases)

lemma settled_frame: "settled D p \<Longrightarrow> workers q = workers p \<Longrightarrow> settled D q"
  by (simp add: settled_def)

subsection \<open>Steps that do not touch a deque\<close>

fun plain :: "'a worker_pc \<Rightarrow> bool" where
  "plain Fetch = False"
| "plain (Probe c start k) = False"
| "plain (CheckDeque k) = False"
| "plain (PredDeque k) = False"
| "plain _ = True"

definition mirrors :: "'a deque_sys list \<Rightarrow> 'a work_stealing_deque list \<Rightarrow> 'a pool option \<Rightarrow> 'a pool option \<Rightarrow> bool" where
  "mirrors D ds r r' \<longleftrightarrow> r' = map_option (view D ds) r \<and> (\<forall>p. r = Some p \<longrightarrow> settled D p)"

lemma mirrors_Some: "settled D p \<Longrightarrow> q = view D ds p \<Longrightarrow> mirrors D ds (Some p) (Some q)"
  by (simp add: mirrors_def)

lemma mirrors_None [simp]: "mirrors D ds None None"
  by (simp add: mirrors_def)

lemma mirrors_worker:
  assumes "settled D p" and "i < length (workers p)" and "workers p ! i \<noteq> Fetch" and "workers q = workers p"
  shows "mirrors D ds (Some (set_worker i pc q)) (Some (set_worker i pc (view D ds q)))"
proof -
  have "decided_of (owner (D ! i)) = None" using settled_nth assms(1-3) by blast
  then show ?thesis
    using assms by (intro mirrors_Some settled_set_worker settled_frame [OF assms(1)]) (simp_all add: view_set_worker settled_def)
qed

lemma mirrors_worker_step:
  assumes "settled D p" and "i < length (workers p)" and "plain (workers p ! i)" and "length ds = length (deques p)"
  shows "mirrors D ds (worker_step i lost p) (worker_step i lost (view D ds p))"
proof -
  have pc: "workers p ! i \<noteq> Fetch" using assms(3) by auto
  then have pc: "workers p ! i \<noteq> Fetch" "workers (view D ds p) ! i = workers p ! i" "length D = length (workers p)"
    using settled_nth [OF assms(1,2)] settled_length [OF assms(1)] by auto
  note mirror = mirrors_worker [OF assms(1,2) pc(1), of _ ds]
  show ?thesis
    using assms(2-4) pc
    by (cases "workers p ! i")
      (auto simp: worker_step_def fetch_global_def steal_entry_def Let_def split: prod.splits
        intro!: mirror mirror [of "p\<lparr>mutex_owner := m\<rparr>" for m, simplified] mirror [of "p\<lparr>gqueue := g\<rparr>" for g, simplified]
          mirror [of "p\<lparr>rngs := g\<rparr>" for g, simplified] mirror [of "p\<lparr>sleeping := g\<rparr>" for g, simplified]
          mirror [of "p\<lparr>sleeping := g, mutex_owner := m\<rparr>" for g m, simplified])
qed

lemma mirrors_notify_one:
  assumes "settled D p"
  shows "mirrors D ds (notify_one w p) (notify_one w (view D ds p))"
proof -
  have "Blocked \<in> set (workers (view D ds p)) \<longleftrightarrow> Blocked \<in> set (workers p)" by (rule view_set_pc [OF assms]) simp_all
  moreover have "w < length (workers p) \<Longrightarrow> workers (view D ds p) ! w = Blocked \<longleftrightarrow> workers p ! w = Blocked"
    by (rule view_pc [OF assms]) simp_all
  moreover have "length (workers (view D ds p)) = length (workers p)" using assms by (simp add: settled_def)
  ultimately show ?thesis
    using assms mirrors_worker [OF assms, of w p ds Woken] by (auto simp: notify_one_def intro: mirrors_Some)
qed

lemma mirrors_map:
  assumes "mirrors D ds r r'" and "\<And>p. r = Some p \<Longrightarrow> settled D p \<Longrightarrow> settled D (g p) \<and> g (view D ds p) = view D ds (g p)"
  shows "mirrors D ds (map_option g r) (map_option g r')"
  using assms by (cases r) (simp_all add: mirrors_def)

lemma settled_set_client [simp]: "settled D (set_client j c p) = settled D p"
  by (simp add: settled_def set_client_def)

lemma view_set_client [simp]: "view D ds (set_client j c p) = set_client j c (view D ds p)"
  by (simp add: set_client_def)

lemma mirrors_client_step: "settled D p \<Longrightarrow> mirrors D ds (client_step j w p) (client_step j w (view D ds p))"
  by (cases "clients p ! j")
    (auto simp: client_step_def intro!: mirrors_Some mirrors_map mirrors_notify_one)

lemma mirrors_task_step:
  assumes "settled D p" and "i < length (workers p)" and "decided_of (owner (D ! i)) = None"
  shows "mirrors D ds (task_step i w p) (task_step i w (view D ds p))"
proof -
  have len: "length D = length (workers p)" using assms(1) by (simp add: settled_def)
  have pc: "workers (view D ds p) ! i = workers p ! i" using assms len by (simp add: view_nth apc_def)
  have mirror: "mirrors D ds (Some (set_worker i pc q)) (Some (set_worker i pc (view D ds q)))" if "workers q = workers p" for q pc
    using assms len that
    by (intro mirrors_Some settled_set_worker settled_frame [OF assms(1) that]) (simp_all add: view_set_worker)
  have "mirrors D ds (map_option (set_worker i (Run t)) (notify_one w p)) (map_option (set_worker i (Run t)) (notify_one w (view D ds p)))" for t
    using mirrors_notify_one [OF assms(1)]
    by (rule mirrors_map) (use assms(3) in \<open>simp add: settled_set_worker view_set_worker settled_length\<close>)
  then show ?thesis
    using assms len pc
    by (cases "workers p ! i")
      (auto simp: task_step_def intro!: mirror mirror [of "p\<lparr>finished := xs\<rparr>" for xs, simplified])
qed

lemma view_notify_all: "settled D p \<Longrightarrow> view D ds (notify_all p) = notify_all (view D ds p) \<and> settled D (notify_all p)"
proof -
  assume s: "settled D p"
  have "map2 apc D (map (\<lambda>pc. if pc = Blocked then Woken else pc) (workers p))
      = map (\<lambda>pc. if pc = Blocked then Woken else pc) (map2 apc D (workers p))"
    using s by (intro nth_equalityI) (auto simp: settled_def apc_def split: option.splits)
  with s show ?thesis by (auto simp: view_def notify_all_def settled_def)
qed

lemma view_all_exited: "settled D p \<Longrightarrow> list_all (\<lambda>pc. pc = Exited) (workers (view D ds p)) \<longleftrightarrow> list_all (\<lambda>pc. pc = Exited) (workers p)"
  using view_pc [of D p _ Exited ds] by (auto simp: list_all_length settled_def)

lemma mirrors_destroy_step:
  assumes "settled D p"
  shows "mirrors D ds (destroy_step p) (destroy_step (view D ds p))"
  using view_notify_all [OF assms, of ds] view_all_exited [OF assms, of ds] settled_frame [OF assms]
    settled_frame [of D "notify_all p"]
  by (cases "destroyer p") (auto simp: destroy_step_def intro!: mirrors_Some)

lemma mirrors_others:
  assumes "settled D p"
  shows "mirrors D ds (client_enqueue j x p) (client_enqueue j x (view D ds p))"
    and "mirrors D ds (spurious_wake i p) (spurious_wake i (view D ds p))"
proof -
  show "mirrors D ds (client_enqueue j x p) (client_enqueue j x (view D ds p))"
    using settled_frame [OF assms] by (auto simp: client_enqueue_def push_global_def intro!: mirrors_Some)
  have "i < length (workers p) \<Longrightarrow> workers (view D ds p) ! i = Blocked \<longleftrightarrow> workers p ! i = Blocked"
    by (rule view_pc [OF assms]) simp_all
  moreover have "length (workers (view D ds p)) = length (workers p)" using assms by (simp add: settled_def)
  ultimately show "mirrors D ds (spurious_wake i p) (spurious_wake i (view D ds p))"
    using mirrors_worker [OF assms, of i p ds Woken] by (auto simp: spurious_wake_def)
qed

section \<open>Simulation\<close>

text \<open>A call in progress on the own deque is a \<open>pop\<close> while the worker fetches, or a \<open>push\<close> of the running task.\<close>

definition in_call :: "'a owner_pc \<Rightarrow> 'a worker_pc \<Rightarrow> bool" where
  "in_call own pc \<longleftrightarrow> own = OwnerIdle \<or> (if popping own then pc = Fetch else \<exists>t. pc = Run t)"

definition fine_inv :: "'a fine \<Rightarrow> bool" where
  "fine_inv f \<longleftrightarrow>
     deques (ctl f) = map deq (dqs f) \<and> length (dqs f) = length (workers (ctl f)) \<and>
     length (regs f) = length (workers (ctl f)) \<and>
     (\<forall>i < length (workers (ctl f)). deque_reach (dqs f ! i) \<and> in_call (owner (dqs f ! i)) (workers (ctl f) ! i))"

definition same_stored :: "'a deque_sys list \<Rightarrow> 'a work_stealing_deque list \<Rightarrow> bool" where
  "same_stored D ds \<longleftrightarrow> list_all2 (\<lambda>s q. deque_wf q \<and> contents q = stored s) D ds"

abbreviation pool_view :: "'a work_stealing_deque list \<Rightarrow> 'a fine \<Rightarrow> 'a pool" where
  "pool_view ds f \<equiv> view (dqs f) ds (ctl f)"

definition simulated :: "'a fine \<Rightarrow> 'a fine \<Rightarrow> bool" where
  "simulated f f' \<longleftrightarrow> fine_inv f' \<and> (\<forall>ds. same_stored (dqs f) ds \<longrightarrow> (\<exists>ds'. same_stored (dqs f') ds' \<and>
     (pool_view ds' f' = pool_view ds f \<or> (\<exists>a. pool_step a (pool_view ds f) = Some (pool_view ds' f')))))"

lemma fine_inv_settled: "fine_inv f \<Longrightarrow> settled (dqs f) (ctl f)"
  using decided_popping by (fastforce simp: fine_inv_def settled_def in_call_def)

lemma fine_inv_deque: "fine_inv f \<Longrightarrow> i < length (workers (ctl f)) \<Longrightarrow> deque_inv (dqs f ! i)"
  by (simp add: fine_inv_def deque_machine.inv_reach)

lemma same_stored_length: "same_stored D ds \<Longrightarrow> length ds = length D"
  by (simp add: same_stored_def list_all2_lengthD)

lemma same_stored_nth: "same_stored D ds \<Longrightarrow> i < length D \<Longrightarrow> deque_wf (ds ! i) \<and> contents (ds ! i) = stored (D ! i)"
  by (auto simp: same_stored_def dest: list_all2_nthD)

lemma same_stored_update:
  "same_stored D ds \<Longrightarrow> deque_wf q \<Longrightarrow> contents q = stored s \<Longrightarrow> same_stored (D[i := s]) (ds[i := q])"
  by (simp add: same_stored_def list_all2_update_cong)

subsection \<open>Steps of the control\<close>

text \<open>What such a step leaves alone; \<open>i\<close> is the worker that moves.\<close>

definition keeps :: "nat \<Rightarrow> 'a pool \<Rightarrow> 'a pool \<Rightarrow> bool" where
  "keeps i p p' \<longleftrightarrow> deques p' = deques p \<and> length (workers p') = length (workers p) \<and>
     (\<forall>j < length (workers p). j \<noteq> i \<longrightarrow> workers p ! j \<noteq> Blocked \<longrightarrow> workers p' ! j = workers p ! j)"

lemma keeps_set_worker [simp]: "keeps i p (set_worker i pc q) = keeps i p q"
  by (auto simp: keeps_def set_worker_def nth_update_cases)

lemma keeps_same [simp]: "deques p' = deques p \<Longrightarrow> workers p' = workers p \<Longrightarrow> keeps i p p'"
  by (simp add: keeps_def)

lemma keeps_worker_step:
  assumes "worker_step i lost p = Some p'" and "plain (workers p ! i)"
  shows "keeps i p p'"
  using assms
  by (cases "workers p ! i")
    (auto simp: worker_step_def fetch_global_def steal_entry_def Let_def split: prod.splits if_splits)

lemma keeps_notify_one: "notify_one w p = Some p' \<Longrightarrow> keeps i p p'"
  using notify_one_frame [of w p p'] by (auto simp: keeps_def)

lemma keeps_client_step: "client_step j w p = Some p' \<Longrightarrow> keeps i p p'"
  by (cases "clients p ! j")
    (auto simp: client_step_def set_client_def keeps_def dest!: notify_one_frame split: if_splits)

lemma keeps_task_step: "task_step i w p = Some p' \<Longrightarrow> keeps i p p'"
  by (cases "workers p ! i") (auto simp: task_step_def keeps_notify_one split: if_splits)

lemma keeps_notify_all: "keeps i p (notify_all p)"
  by (simp add: keeps_def notify_all_def)

lemma keeps_others:
  "client_enqueue j x p = Some p' \<Longrightarrow> keeps i p p'" "spurious_wake k p = Some p' \<Longrightarrow> keeps i p p'"
  "destroy_step p = Some p' \<Longrightarrow> keeps i p p'"
  by (auto simp: client_enqueue_def push_global_def set_client_def spurious_wake_def destroy_step_def
      keeps_def set_worker_def notify_all_def nth_update_cases split: if_splits destroy_pc.splits)

lemma fine_inv_control:
  assumes inv: "fine_inv f" and keeps: "keeps i (ctl f) p'"
    and i: "i < length (workers (ctl f)) \<Longrightarrow> owner (dqs f ! i) = OwnerIdle"
  shows "fine_inv (f\<lparr>ctl := p'\<rparr>)"
proof -
  have "in_call (owner (dqs f ! j)) (workers p' ! j)" if j: "j < length (workers (ctl f))" for j
  proof (cases "owner (dqs f ! j) = OwnerIdle")
    case False
    then have "workers (ctl f) ! j \<noteq> Blocked" "j \<noteq> i"
      using inv i j by (auto simp: fine_inv_def in_call_def split: if_splits)
    then have "workers p' ! j = workers (ctl f) ! j" using keeps j by (simp add: keeps_def)
    then show ?thesis using inv j by (simp add: fine_inv_def)
  qed (simp add: in_call_def)
  then show ?thesis using inv keeps by (simp add: fine_inv_def keeps_def)
qed

lemma simulated_control:
  assumes inv: "fine_inv f" and r: "r = Some p'" and keeps: "keeps i (ctl f) p'"
    and i: "i < length (workers (ctl f)) \<Longrightarrow> owner (dqs f ! i) = OwnerIdle"
    and mirrors: "\<And>ds. length ds = length (deques (ctl f)) \<Longrightarrow> mirrors (dqs f) ds r (pool_step (a ds) (pool_view ds f))"
  shows "simulated f (f\<lparr>ctl := p'\<rparr>)"
proof -
  have "pool_step (a ds) (pool_view ds f) = Some (view (dqs f) ds p')" if "same_stored (dqs f) ds" for ds
    using mirrors [of ds] that r inv by (simp add: mirrors_def fine_inv_def same_stored_length)
  then show ?thesis
    using fine_inv_control [OF inv keeps i] unfolding simulated_def by auto
qed

text \<open>A worker at a plain program counter other than inside a task has no call in progress.\<close>

lemma plain_idle:
  assumes "fine_inv f" and "i < length (workers (ctl f))" and "workers (ctl f) ! i \<noteq> Fetch"
    and "\<forall>t. workers (ctl f) ! i \<noteq> Run t"
  shows "owner (dqs f ! i) = OwnerIdle"
  using assms by (auto simp: fine_inv_def in_call_def split: if_splits)

lemma simulated_plain:
  assumes inv: "fine_inv f" and i: "i < length (workers (ctl f))" and pc: "plain (workers (ctl f) ! i)"
    and step: "worker_step i False (ctl f) = Some p'"
  shows "simulated f (f\<lparr>ctl := p'\<rparr>)"
proof (rule simulated_control [OF inv step keeps_worker_step [OF step pc]])
  have "\<forall>t. workers (ctl f) ! i \<noteq> Run t" using step by (auto simp: worker_step_def split: if_splits)
  moreover have "workers (ctl f) ! i \<noteq> Fetch" using pc by auto
  ultimately show "owner (dqs f ! i) = OwnerIdle" using plain_idle [OF inv i] by blast
  show "mirrors (dqs f) ds (worker_step i False (ctl f)) (pool_step ((\<lambda>_. WorkerStep i False) ds) (pool_view ds f))"
    if "length ds = length (deques (ctl f))" for ds
    using mirrors_worker_step [OF fine_inv_settled [OF inv] i pc that] by simp
qed

lemma simulated_others:
  assumes inv: "fine_inv f" and step: "pool_step a (ctl f) = Some p'"
    and a: "case a of ClientEnqueue j x \<Rightarrow> True | ClientStep j w \<Rightarrow> True | SpuriousWake i \<Rightarrow> True | DestroyStep \<Rightarrow> True | _ \<Rightarrow> False"
  shows "simulated f (f\<lparr>ctl := p'\<rparr>)"
proof -
  let ?n = "length (workers (ctl f))"
  have "keeps ?n (ctl f) p'"
    using step a by (cases a) (auto intro: keeps_others keeps_client_step)
  moreover have "mirrors (dqs f) ds (pool_step a (ctl f)) (pool_step a (pool_view ds f))" for ds
    using a fine_inv_settled [OF inv] by (cases a) (simp_all add: mirrors_others mirrors_client_step mirrors_destroy_step)
  ultimately show ?thesis using simulated_control [OF inv step, of ?n "\<lambda>_. a"] by simp
qed

subsection \<open>Steps on a deque\<close>

lemma put_deque_sel [simp]:
  "dqs (put_deque i s f) = (dqs f)[i := s]" "regs (put_deque i s f) = regs f"
  "workers (ctl (put_deque i s f)) = workers (ctl f)" "submitted (ctl (put_deque i s f)) = submitted (ctl f)"
  "clients (ctl (put_deque i s f)) = clients (ctl f)" "destroyer (ctl (put_deque i s f)) = destroyer (ctl f)"
  by (simp_all add: put_deque_def)

lemma at_pc_sel [simp]:
  "dqs (at_pc i pc f) = dqs f" "regs (at_pc i pc f) = regs f" "ctl (at_pc i pc f) = set_worker i pc (ctl f)"
  by (simp_all add: at_pc_def)

lemma fine_inv_put:
  assumes inv: "fine_inv f" and step: "deque_step a (dqs f ! t) = Some s'" and t: "t < length (workers (ctl f))"
    and call: "in_call (owner s') (workers (ctl f) ! t)"
  shows "fine_inv (put_deque t s' f)"
proof -
  have "deque_reach s'" using inv t step by (auto simp: fine_inv_def intro: reach_step)
  with inv call show ?thesis by (auto simp: fine_inv_def put_deque_def map_update nth_update_cases)
qed

lemma fine_inv_at_pc:
  "fine_inv f \<Longrightarrow> owner (dqs f ! i) = OwnerIdle \<Longrightarrow> fine_inv (at_pc i pc f)"
  by (auto simp: fine_inv_def at_pc_def set_worker_def nth_update_cases in_call_def)

lemma view_put:
  assumes "fine_inv f" and "t < length (workers (ctl f))"
  shows "view ((dqs f)[t := s']) ds (ctl (put_deque t s' f)) = set_worker t (apc s' (workers (ctl f) ! t)) (pool_view ds f)"
proof -
  have "map2 apc ((dqs f)[t := s']) (workers (ctl f)) = (map2 apc (dqs f) (workers (ctl f)))[t := apc s' (workers (ctl f) ! t)]"
    using assms by (intro nth_equalityI) (auto simp: nth_update_cases fine_inv_def)
  then show ?thesis by (simp add: view_def put_deque_def set_worker_def)
qed

lemma view_put_same:
  assumes "fine_inv f" and "t < length (workers (ctl f))" and "decided_of (owner s') = decided_of (owner (dqs f ! t))"
  shows "view ((dqs f)[t := s']) ds (ctl (put_deque t s' f)) = pool_view ds f"
proof -
  have "workers (pool_view ds f) ! t = apc s' (workers (ctl f) ! t)"
    using assms by (simp add: view_nth fine_inv_def apc_def)
  then have "(workers (pool_view ds f))[t := apc s' (workers (ctl f) ! t)] = workers (pool_view ds f)"
    by (metis list_update_id)
  then show ?thesis using view_put [OF assms(1,2)] by (simp add: set_worker_def)
qed

lemma simulated_internal:
  assumes inv: "fine_inv f" and step: "deque_step a (dqs f ! t) = Some s'" and t: "t < length (workers (ctl f))"
    and call: "in_call (owner s') (workers (ctl f) ! t)"
    and same: "stored s' = stored (dqs f ! t)" "decided_of (owner s') = decided_of (owner (dqs f ! t))"
  shows "simulated f (put_deque t s' f)"
proof -
  have "same_stored ((dqs f)[t := s']) ds" if "same_stored (dqs f) ds" for ds
  proof -
    have "same_stored ((dqs f)[t := s']) (ds[t := ds ! t])"
      using that t inv same(1) same_stored_nth [OF that, of t]
      by (intro same_stored_update) (simp_all add: fine_inv_def)
    then show ?thesis by simp
  qed
  then show ?thesis
    using fine_inv_put [OF inv step t call] view_put_same [OF inv t same(2)] unfolding simulated_def by auto
qed

text \<open>Operations of the atomic pool on deques of which only the contents are known.\<close>

lemma pop_contents:
  assumes "deque_wf q"
  shows "contents q = [] \<Longrightarrow> deque_pop q = (None, q)"
    and "contents q = xs @ [x] \<Longrightarrow> \<exists>q'. deque_pop q = (Some x, q') \<and> deque_wf q' \<and> contents q' = xs"
proof -
  obtain r q' where pop: "deque_pop q = (r, q')" by fastforce
  note spec = deque_pop_spec [OF assms pop]
  show "deque_pop q = (None, q)" if "contents q = []" using spec pop that by (cases r) auto
  show "\<exists>q'. deque_pop q = (Some x, q') \<and> deque_wf q' \<and> contents q' = xs" if "contents q = xs @ [x]"
    using spec pop that by (cases r) auto
qed

lemma steal_contents:
  assumes "deque_wf q" and "contents q = x # xs"
  shows "\<exists>q'. deque_steal q = (Some x, q') \<and> deque_wf q' \<and> contents q' = xs"
proof -
  obtain r q' where steal: "deque_steal q = (r, q')" by fastforce
  show ?thesis using deque_steal_spec [OF assms(1) steal] steal assms(2) by (cases r) auto
qed

lemma view_deques: "(view D ds p)\<lparr>deques := ds'\<rparr> = view D ds' p"
  by (simp add: view_def)

lemma view_pop:
  assumes "settled D p" and "i < length (workers p)" and "workers p ! i = Fetch" and "decided_of (owner (D ! i)) = None"
    and "deque_wf (ds ! i)"
  shows "contents (ds ! i) = [] \<Longrightarrow>
      pool_step (WorkerStep i False) (view D ds p) = Some (set_worker i FetchGlobal (view D ds p))"
    and "contents (ds ! i) = xs @ [x] \<Longrightarrow> \<exists>q. deque_wf q \<and> contents q = xs \<and>
      pool_step (WorkerStep i False) (view D ds p) = Some (set_worker i (Run x) (view D (ds[i := q]) p))"
proof -
  have v: "workers (view D ds p) ! i = Fetch" "i < length (workers (view D ds p))"
    using assms by (simp_all add: view_nth settled_length apc_def)
  show "pool_step (WorkerStep i False) (view D ds p) = Some (set_worker i FetchGlobal (view D ds p))"
    if "contents (ds ! i) = []"
    using v pop_contents(1) [OF assms(5) that] by (simp add: worker_step_def fetch_local_def view_deques)
  show "\<exists>q. deque_wf q \<and> contents q = xs \<and>
      pool_step (WorkerStep i False) (view D ds p) = Some (set_worker i (Run x) (view D (ds[i := q]) p))"
    if "contents (ds ! i) = xs @ [x]"
    using v pop_contents(2) [OF assms(5) that] by (auto simp: worker_step_def fetch_local_def view_deques)
qed

text \<open>The steps at which something happens in the atomic pool.\<close>

lemma simulatedI:
  assumes "fine_inv f'"
    and "\<And>ds. same_stored (dqs f) ds \<Longrightarrow> \<exists>ds'. same_stored (dqs f') ds' \<and>
      (pool_view ds' f' = pool_view ds f \<or> (\<exists>a. pool_step a (pool_view ds f) = Some (pool_view ds' f')))"
  shows "simulated f f'"
  using assms by (simp add: simulated_def)

lemma same_stored_put:
  assumes "fine_inv f" and "same_stored (dqs f) ds" and "t < length (workers (ctl f))" and "stored s' = stored (dqs f ! t)"
  shows "same_stored ((dqs f)[t := s']) ds"
proof -
  have "same_stored ((dqs f)[t := s']) (ds[t := ds ! t])"
    using assms same_stored_nth [OF assms(2), of t] by (intro same_stored_update) (simp_all add: fine_inv_def)
  then show ?thesis by simp
qed

lemma simulated_pop_win:
  assumes inv: "fine_inv f" and i: "i < length (workers (ctl f))" and pc: "workers (ctl f) ! i = Fetch"
    and step: "owner_step (dqs f ! i) = Some s'" and pop: "popping (owner s')"
    and win: "stored (dqs f ! i) = [x]" "decided_of (owner (dqs f ! i)) = None" "stored s' = []" "decided_of (owner s') = Some x"
  shows "simulated f (put_deque i s' f)"
proof (rule simulatedI)
  show "fine_inv (put_deque i s' f)"
    using inv step i pc pop by (intro fine_inv_put [of _ OwnerStep]) (simp_all add: in_call_def)
  fix ds assume same: "same_stored (dqs f) ds"
  then have q: "deque_wf (ds ! i)" "contents (ds ! i) = [] @ [x]"
    using same_stored_nth [OF same, of i] inv i win(1) by (auto simp: fine_inv_def)
  obtain q' where q': "deque_wf q'" "contents q' = []"
    "pool_step (WorkerStep i False) (pool_view ds f) = Some (set_worker i (Run x) (pool_view (ds[i := q']) f))"
    using view_pop(2) [OF fine_inv_settled [OF inv] i pc win(2) q] by blast
  have "same_stored (dqs (put_deque i s' f)) (ds[i := q'])"
    using same_stored_update [OF same q'(1), of s' i] q'(2) win(3) by simp
  moreover have "pool_view (ds[i := q']) (put_deque i s' f) = set_worker i (Run x) (pool_view (ds[i := q']) f)"
    using view_put [OF inv i] win(4) by (simp add: apc_def)
  ultimately show "\<exists>ds'. same_stored (dqs (put_deque i s' f)) ds' \<and> (pool_view ds' (put_deque i s' f) = pool_view ds f \<or>
      (\<exists>a. pool_step a (pool_view ds f) = Some (pool_view ds' (put_deque i s' f))))"
    using q'(3) by metis
qed

text \<open>A \<open>pop\<close> that returns, with the task already taken or taken now.\<close>

lemma view_return:
  assumes inv: "fine_inv f" and i: "i < length (workers (ctl f))" and idle: "decided_of (owner s') = None"
  shows "pool_view ds (at_pc i pc (put_deque i s' f)) = set_worker i pc (pool_view ds f)"
proof -
  have "pool_view ds (at_pc i pc (put_deque i s' f)) = set_worker i pc (view ((dqs f)[i := s']) ds (ctl (put_deque i s' f)))"
    using inv i idle by (simp add: view_set_worker fine_inv_def)
  then show ?thesis using view_put [OF inv i] by (simp add: set_worker_def)
qed

lemma simulated_pop_return:
  assumes inv: "fine_inv f" and i: "i < length (workers (ctl f))" and pc: "workers (ctl f) ! i = Fetch"
    and step: "owner_step (dqs f ! i) = Some s'" and idle: "owner s' = OwnerIdle" and r: "r = returned s'"
    and res: "case r of
       None \<Rightarrow> stored (dqs f ! i) = [] \<and> stored s' = [] \<and> decided_of (owner (dqs f ! i)) = None
     | Some x \<Rightarrow> (decided_of (owner (dqs f ! i)) = Some x \<and> stored s' = stored (dqs f ! i)) \<or>
         (decided_of (owner (dqs f ! i)) = None \<and> stored (dqs f ! i) = stored s' @ [x])"
  shows "simulated f (at_pc i (case r of Some x \<Rightarrow> Run x | None \<Rightarrow> FetchGlobal) (put_deque i s' f))" (is "simulated f ?f")
proof (rule simulatedI)
  have put: "fine_inv (put_deque i s' f)"
    using inv step i idle by (intro fine_inv_put [of _ OwnerStep]) (simp_all add: in_call_def)
  have i': "i < length (dqs f)" using inv i by (simp add: fine_inv_def)
  show "fine_inv ?f" using put idle i' by (intro fine_inv_at_pc) simp_all
  fix ds assume same: "same_stored (dqs f) ds"
  note v = view_return [OF inv i, of s'] and w = same_stored_nth [OF same i'] and settled = fine_inv_settled [OF inv]
  consider "r = None" "stored (dqs f ! i) = []" "stored s' = []" "decided_of (owner (dqs f ! i)) = None"
    | x where "r = Some x" "decided_of (owner (dqs f ! i)) = Some x" "stored s' = stored (dqs f ! i)"
    | x where "r = Some x" "decided_of (owner (dqs f ! i)) = None" "stored (dqs f ! i) = stored s' @ [x]"
    using res by (auto split: option.splits)
  then show "\<exists>ds'. same_stored (dqs ?f) ds' \<and>
      (pool_view ds' ?f = pool_view ds f \<or> (\<exists>a. pool_step a (pool_view ds f) = Some (pool_view ds' ?f)))"
  proof cases
    case 1
    then have "pool_step (WorkerStep i False) (pool_view ds f) = Some (pool_view ds ?f)"
      using view_pop(1) [OF settled i pc, of ds] w v idle by simp
    moreover have "same_stored (dqs ?f) ds" using same_stored_put [OF inv same i, of s'] 1 by simp
    ultimately show ?thesis by blast
  next
    case 2
    have "workers (pool_view ds f) ! i = Run x" using inv i 2(2) by (simp add: view_nth fine_inv_def apc_def)
    then have "set_worker i (Run x) (pool_view ds f) = pool_view ds f"
      by (simp add: set_worker_def) (metis list_update_id pool.surjective pool.update_convs(3))
    then show ?thesis using same_stored_put [OF inv same i, of s'] 2 v idle by auto
  next
    case 3
    then obtain q where q: "deque_wf q" "contents q = stored s'"
      "pool_step (WorkerStep i False) (pool_view ds f) = Some (set_worker i (Run x) (pool_view (ds[i := q]) f))"
      using view_pop(2) [OF settled i pc 3(2), of ds "stored s'" x] w by auto
    moreover have "same_stored (dqs ?f) (ds[i := q])" using same_stored_update [OF same q(1), of s' i] q(2) by simp
    moreover have "pool_view (ds[i := q]) ?f = set_worker i (Run x) (pool_view (ds[i := q]) f)" using v 3(1) idle by simp
    ultimately show ?thesis by metis
  qed
qed

lemma simulated_fetch:
  assumes inv: "fine_inv f" and i: "i < length (workers (ctl f))" and pc: "workers (ctl f) ! i = Fetch"
    and step: "fine_fetch i f = Some f'"
  shows "simulated f f'"
proof (cases "owner (dqs f ! i) = OwnerIdle")
  case True
  then obtain s' where s': "call_pop (dqs f ! i) = Some s'" "f' = put_deque i s' f"
    using step by (auto simp: fine_fetch_def)
  then have "popping (owner s')" "decided_of (owner s') = None" using True by (auto simp: call_pop_def)
  then show ?thesis
    using s' sim_call(2) [OF s'(1)] True inv i pc
    by (auto intro!: simulated_internal [of _ CallPop] simp: in_call_def)
next
  case False
  then obtain s' where s': "owner_step (dqs f ! i) = Some s'"
    and f': "f' = (if owner s' = OwnerIdle
      then at_pc i (case returned s' of Some x \<Rightarrow> Run x | None \<Rightarrow> FetchGlobal) (put_deque i s' f) else put_deque i s' f)"
    using step by (auto simp: fine_fetch_def)
  have pop: "popping (owner (dqs f ! i))" using inv i pc False by (auto simp: fine_inv_def in_call_def split: if_splits)
  note spec = sim_owner_step [OF fine_inv_deque [OF inv i] s'] and shape = owner_step_shape [OF s']
  show ?thesis
  proof (cases "owner s' = OwnerIdle")
    case True
    then have "events s' = events (dqs f ! i) @ [Popped (returned s')]" using shape pop by auto
    from spec_popped [OF spec this [folded abs_deque_sel(3)], unfolded abs_deque_sel(2)] True
    show ?thesis using simulated_pop_return [OF inv i pc s' True refl] by (simp add: f')
  next
    case False
    then have ev: "events s' = events (dqs f ! i)" and pop': "popping (owner s')" using shape pop by auto
    from spec_same_log [OF spec ev [folded abs_deque_sel(3)]] show ?thesis
    proof
      assume "abs_deque s' = abs_deque (dqs f ! i)"
      then show ?thesis
        using simulated_internal [OF inv _ i, of OwnerStep s'] s' pop' pc False
        by (simp add: f' in_call_def flip: abs_deque_sel(2))
    next
      assume "\<exists>x. stored (dqs f ! i) = [x] \<and> decided (abs_deque (dqs f ! i)) = None \<and>
        abs_deque s' = abs_deque (dqs f ! i)\<lparr>items_of := [], decided := Some x\<rparr>"
      then show ?thesis
        using simulated_pop_win [OF inv i pc s' pop'] False by (auto simp: f' simp flip: abs_deque_sel(2))
    qed
  qed
qed

text \<open>A step that only moves the worker itself.\<close>

lemma simulated_move:
  assumes inv: "fine_inv f" and i: "i < length (workers (ctl f))" and idle: "owner (dqs f ! i) = OwnerIdle"
    and q: "workers q = workers (ctl f)" "deques q = deques (ctl f)"
    and step: "\<And>ds. length ds = length (deques (ctl f)) \<Longrightarrow>
      pool_step (a ds) (pool_view ds f) = Some (set_worker i pc (view (dqs f) ds q))"
  shows "simulated f (f\<lparr>ctl := set_worker i pc q\<rparr>)"
proof (rule simulated_control [OF inv refl _ idle])
  have settled: "settled (dqs f) q" using settled_frame [OF fine_inv_settled [OF inv] q(1)] .
  show "keeps i (ctl f) (set_worker i pc q)" using q by simp
  show "mirrors (dqs f) ds (Some (set_worker i pc q)) (pool_step (a ds) (pool_view ds f))"
    if "length ds = length (deques (ctl f))" for ds
    using step [OF that] idle settled
    by (auto simp: view_set_worker settled_length settled_set_worker intro!: mirrors_Some)
qed

lemma view_other_return:
  assumes inv: "fine_inv f" and "i < length (workers (ctl f))" and "t < length (workers (ctl f))" and "t \<noteq> i"
    and "owner (dqs f ! i) = OwnerIdle" and "owner s' = owner (dqs f ! t)"
  shows "pool_view ds (at_pc i pc (put_deque t s' f)) = set_worker i pc (pool_view ds f)"
proof -
  have "pool_view ds (at_pc i pc (put_deque t s' f)) = set_worker i pc (view ((dqs f)[t := s']) ds (ctl (put_deque t s' f)))"
    using assms by (simp add: view_set_worker fine_inv_def)
  then show ?thesis using view_put_same [OF inv assms(3), of s' ds] assms(6) by simp
qed

lemma view_probe:
  assumes "length D = length (workers p)" and "length ds = length (workers p)" and "i < length (workers p)"
    and "workers (view D ds p) ! i = Probe c start k" and "k < length (workers p)"
    and "t = probe_target start (length (workers p)) k" and "t \<noteq> i" and "deque_wf (ds ! t)"
  shows "pool_step (WorkerStep i True) (view D ds p) = Some (set_worker i (Probe c start (k + 1)) (view D ds p))"
    and "contents (ds ! t) = x # xs \<Longrightarrow> \<exists>q. deque_wf q \<and> contents q = xs \<and>
      pool_step (WorkerStep i False) (view D ds p) = Some (set_worker i (Run x) (view D (ds[t := q]) p))"
proof -
  show "pool_step (WorkerStep i True) (view D ds p) = Some (set_worker i (Probe c start (k + 1)) (view D ds p))"
    using assms by (simp add: worker_step_def probe_def Let_def)
  show "\<exists>q. deque_wf q \<and> contents q = xs \<and>
      pool_step (WorkerStep i False) (view D ds p) = Some (set_worker i (Run x) (view D (ds[t := q]) p))"
    if "contents (ds ! t) = x # xs"
    using steal_contents [OF assms(8) that] assms(1-7) by (auto simp: worker_step_def probe_def Let_def view_deques)
qed

lemma simulated_steal_return:
  assumes inv: "fine_inv f" and i: "i < length (workers (ctl f))" and pc: "workers (ctl f) ! i = Probe c start k"
    and k: "k < length (workers (ctl f))" and t: "t = probe_target start (length (workers (ctl f))) k" "t \<noteq> i"
    and step: "thief_step i (dqs f ! t) = Some s'" and own: "owner s' = owner (dqs f ! t)"
    and res: "stored (dqs f ! t) = (case r of None \<Rightarrow> stored s' | Some x \<Rightarrow> x # stored s')"
  shows "simulated f (at_pc i (case r of Some x \<Rightarrow> Run x | None \<Rightarrow> Probe c start (k + 1)) (put_deque t s' f))"
    (is "simulated f ?f")
proof (rule simulatedI)
  have tl: "t < length (workers (ctl f))" unfolding t(1) by (rule probe_target_less) (use k in auto)
  have idle: "owner (dqs f ! i) = OwnerIdle" using plain_idle [OF inv i] pc by simp
  have "fine_inv (put_deque t s' f)"
    using inv step tl own by (intro fine_inv_put [of _ "ThiefStep i"]) (simp_all add: fine_inv_def)
  then show "fine_inv ?f" using idle t(2) by (intro fine_inv_at_pc) simp_all
  fix ds assume same: "same_stored (dqs f) ds"
  note v = view_other_return [OF inv i tl t(2) idle own] and w = same_stored_nth [OF same, of t]
  have len: "length (dqs f) = length (workers (ctl f))" "length ds = length (workers (ctl f))"
    using inv same_stored_length [OF same] by (simp_all add: fine_inv_def)
  have at: "workers (pool_view ds f) ! i = Probe c start k" using i len idle pc by (simp add: view_nth apc_def)
  have wf: "deque_wf (ds ! t)" using w tl len by simp
  note probe = view_probe [OF len i at k t wf]
  show "\<exists>ds'. same_stored (dqs ?f) ds' \<and>
      (pool_view ds' ?f = pool_view ds f \<or> (\<exists>a. pool_step a (pool_view ds f) = Some (pool_view ds' ?f)))"
  proof (cases r)
    case None
    then have "same_stored (dqs ?f) ds" using same_stored_put [OF inv same tl, of s'] res by simp
    moreover have "pool_step (WorkerStep i True) (pool_view ds f) = Some (pool_view ds ?f)" using probe(1) v None by simp
    ultimately show ?thesis by blast
  next
    case (Some x)
    then obtain q where q: "deque_wf q" "contents q = stored s'"
      "pool_step (WorkerStep i False) (pool_view ds f) = Some (set_worker i (Run x) (pool_view (ds[t := q]) f))"
      using probe(2) [of x "stored s'"] w tl len res by auto
    moreover have "same_stored (dqs ?f) (ds[t := q])" using same_stored_update [OF same q(1), of s' t] q(2) by simp
    moreover have "pool_view (ds[t := q]) ?f = set_worker i (Run x) (pool_view (ds[t := q]) f)" using v Some by simp
    ultimately show ?thesis by metis
  qed
qed

lemma simulated_steal:
  assumes inv: "fine_inv f" and i: "i < length (workers (ctl f))" and pc: "workers (ctl f) ! i = Probe c start k"
    and k: "k < length (workers (ctl f))" and t: "t = probe_target start (length (workers (ctl f))) k" "t \<noteq> i"
    and step: "thief_step i (dqs f ! t) = Some s'"
  shows "simulated f (if thieves s' i = ThiefIdle
    then at_pc i (case returned s' of Some x \<Rightarrow> Run x | None \<Rightarrow> Probe c start (k + 1)) (put_deque t s' f)
    else put_deque t s' f)"
proof -
  have tl: "t < length (workers (ctl f))" unfolding t(1) by (rule probe_target_less) (use k in auto)
  note spec = sim_thief_step [OF fine_inv_deque [OF inv tl] step] and shape = thief_step_shape [OF step]
  then have own: "owner s' = owner (dqs f ! t)" by simp
  show ?thesis
  proof (cases "thieves s' i = ThiefIdle")
    case True
    then have "events s' = events (dqs f ! t) @ [Stolen i (returned s')]" using shape by auto
    then have "stored (dqs f ! t) = (case returned s' of None \<Rightarrow> stored s' | Some x \<Rightarrow> x # stored s')"
      using spec_stolen [OF spec] by (simp add: abs_deque_sel(3))
    then show ?thesis using simulated_steal_return [OF inv i pc k t step own] True by simp
  next
    case False
    then have "log (abs_deque s') = log (abs_deque (dqs f ! t))" "decided (abs_deque s') = decided (abs_deque (dqs f ! t))"
      using shape by (simp_all add: abs_deque_sel(2,3))
    then have "stored s' = stored (dqs f ! t)" using spec_same_log [OF spec] by auto
    then show ?thesis
      using simulated_internal [OF inv _ tl, of "ThiefStep i" s'] step own inv tl False by (simp add: fine_inv_def)
  qed
qed

lemma simulated_probe:
  assumes inv: "fine_inv f" and i: "i < length (workers (ctl f))" and pc: "workers (ctl f) ! i = Probe c start k"
    and step: "fine_probe i c start k f = Some f'"
  shows "simulated f f'"
proof -
  have idle: "owner (dqs f ! i) = OwnerIdle" using plain_idle [OF inv i] pc by simp
  have len: "length (dqs f) = length (workers (ctl f))" "length (deques (ctl f)) = length (workers (ctl f))"
    using inv by (simp_all add: fine_inv_def)
  let ?t = "probe_target start (length (workers (ctl f))) k" and ?n = "length (workers (ctl f))"
  have at: "workers (pool_view ds f) ! i = Probe c start k" for ds using i len idle pc by (simp add: view_nth apc_def)
  show ?thesis
  proof (cases "k < ?n \<and> ?t \<noteq> i")
    case False
    have "simulated f (f\<lparr>ctl := set_worker i (if k < ?n then Probe c start (k + 1) else steal_failed c) (ctl f)\<rparr>)"
      using at i len False
      by (intro simulated_move [OF inv i idle refl refl, of "\<lambda>_. WorkerStep i False"])
        (auto simp: worker_step_def probe_def Let_def)
    then show ?thesis using step len False by (auto simp: fine_probe_def at_pc_def Let_def split: if_splits)
  next
    case True
    then have tl: "?t < ?n" by (intro probe_target_less) auto
    show ?thesis
    proof (cases "thieves (dqs f ! ?t) i = ThiefIdle")
      case idle: True
      then obtain s' where s': "call_steal i (dqs f ! ?t) = Some s'" "f' = put_deque ?t s' f"
        using step True len by (auto simp: fine_probe_def Let_def)
      then have "owner s' = owner (dqs f ! ?t)" using idle by (auto simp: call_steal_def set_thief_def)
      then show ?thesis
        using s' sim_call(3) [OF s'(1)] inv tl
        by (auto intro!: simulated_internal [of _ "CallSteal i"] simp: fine_inv_def)
    next
      case False
      then show ?thesis
        using simulated_steal [OF inv i pc _ refl] step True len by (auto simp: fine_probe_def Let_def)
    qed
  qed
qed

text \<open>The scan of \<open>has_local_work\<close>: whatever \<open>empty\<close> answers, a step of the atomic pool can answer it.\<close>

lemma simulated_regs: "fine_inv f \<Longrightarrow> length rs = length (regs f) \<Longrightarrow> simulated f (f\<lparr>regs := rs\<rparr>)"
  by (auto simp: simulated_def fine_inv_def)

lemma simulated_regs_move: "simulated f f' \<Longrightarrow> length rs = length (regs f') \<Longrightarrow> simulated f (f'\<lparr>regs := rs\<rparr>)"
  by (auto simp: simulated_def fine_inv_def)

lemma simulated_check:
  assumes inv: "fine_inv f" and i: "i < length (workers (ctl f))"
    and pc: "workers (ctl f) ! i = CheckDeque k \<or> workers (ctl f) ! i = PredDeque k"
    and step: "fine_worker i f = Some f'"
  shows "simulated f f'"
proof -
  have idle: "owner (dqs f ! i) = OwnerIdle" using plain_idle [OF inv i] pc by auto
  have len: "length (dqs f) = length (workers (ctl f))" "length (regs f) = length (workers (ctl f))"
    using inv by (simp_all add: fine_inv_def)
  have at: "workers (pool_view ds f) ! i = workers (ctl f) ! i" for ds using i len idle by (simp add: view_nth apc_def)
  have move: "simulated f (f\<lparr>ctl := set_worker i pc' q\<rparr>)"
    if "workers q = workers (ctl f)" "deques q = deques (ctl f)"
      "\<And>ds. length ds = length (deques (ctl f)) \<Longrightarrow>
         worker_step i (deque_empty (ds ! k) \<noteq> b) (pool_view ds f) = Some (set_worker i pc' (view (dqs f) ds q))" for q pc' b
    using simulated_move [OF inv i idle that(1,2), of "\<lambda>ds. WorkerStep i (deque_empty (ds ! k) \<noteq> b)" pc'] that(3) by simp
  have answer: "simulated f (fine_empty i k g f)"
    if "\<And>b. simulated f (f\<lparr>ctl := g b\<rparr>)" for g
    using that simulated_regs [OF inv] simulated_regs_move [of f] len
    by (auto simp: fine_empty_def Let_def split: option.splits)
  show ?thesis using pc
  proof
    assume pc: "workers (ctl f) ! i = CheckDeque k"
    have "simulated f (f\<lparr>ctl := (if b then set_worker i (CheckDeque (k + 1)) (ctl f)
        else set_worker i Fetch ((ctl f)\<lparr>mutex_owner := None\<rparr>))\<rparr>)" if "k < length (deques (ctl f))" for b
      using that at i len pc
      by (cases b) (auto simp: worker_step_def intro!: move [of _ b])
    moreover have "simulated f (f\<lparr>ctl := set_worker i IncSleeping (ctl f)\<rparr>)" if "\<not> k < length (deques (ctl f))"
      using that at i len pc by (intro move [of _ True]) (auto simp: worker_step_def)
    ultimately show ?thesis using step i pc by (auto simp: fine_worker_def at_pc_def Let_def split: if_splits intro!: answer)
  next
    assume pc: "workers (ctl f) ! i = PredDeque k"
    have "simulated f (f\<lparr>ctl := set_worker i (if b then PredDeque (k + 1) else DecSleeping) (ctl f)\<rparr>)"
      if "k < length (deques (ctl f))" for b
      using that at i len pc by (intro move [of _ b]) (auto simp: worker_step_def)
    moreover have "simulated f (f\<lparr>ctl := set_worker i Blocked ((ctl f)\<lparr>mutex_owner := None\<rparr>)\<rparr>)"
      if "\<not> k < length (deques (ctl f))"
      using that at i len pc by (intro move [of _ True]) (auto simp: worker_step_def)
    ultimately show ?thesis using step i pc by (auto simp: fine_worker_def Let_def split: if_splits intro!: answer)
  qed
qed

lemma simulated_worker:
  assumes inv: "fine_inv f" and step: "fine_worker i f = Some f'"
  shows "simulated f f'"
proof -
  have i: "i < length (workers (ctl f))" using step by (auto simp: fine_worker_def Let_def split: if_splits)
  show ?thesis
  proof (cases "plain (workers (ctl f) ! i)")
    case True
    then obtain p' where "worker_step i False (ctl f) = Some p'" "f' = f\<lparr>ctl := p'\<rparr>"
      using step i by (cases "workers (ctl f) ! i") (auto simp: fine_worker_def)
    then show ?thesis using simulated_plain [OF inv i True] by simp
  next
    case False
    then show ?thesis
      using step i simulated_fetch [OF inv i] simulated_probe [OF inv i] simulated_check [OF inv i _ step]
      by (cases "workers (ctl f) ! i") (auto simp: fine_worker_def)
  qed
qed

subsection \<open>Tasks\<close>

lemma simulated_task_enqueue:
  assumes inv: "fine_inv f" and step: "fine_task_enqueue i x f = Some f'"
  shows "simulated f f'"
proof -
  obtain t s' where i: "i < length (workers (ctl f))" and pc: "workers (ctl f) ! i = Run t"
    and s': "call_push x (dqs f ! i) = Some s'" "f' = put_deque i s' f"
    using step by (auto simp: fine_task_enqueue_def split: if_splits worker_pc.splits)
  then have "owner (dqs f ! i) = OwnerIdle" "\<not> popping (owner s')" "decided_of (owner s') = None"
    by (auto simp: call_push_def split: owner_pc.splits)
  then show ?thesis
    using s' sim_call(1) [OF s'(1)] inv i pc
    by (auto intro!: simulated_internal [of _ "CallPush x"] simp: in_call_def)
qed

lemma view_push:
  assumes "length D = length (workers p)" and "i < length (workers p)" and "workers (view D ds p) ! i = Run t"
    and "length ds = length (workers p)" and "deque_wf (ds ! i)"
  shows "\<exists>q. deque_wf q \<and> contents q = contents (ds ! i) @ [x] \<and>
    pool_step (TaskEnqueue i x) (view D ds p)
      = Some (set_worker i (RunNotify t) (view D (ds[i := q]) (p\<lparr>submitted := submitted p @ [x]\<rparr>)))"
proof -
  have "pool_step (TaskEnqueue i x) (view D ds p)
      = Some (set_worker i (RunNotify t) (view D (ds[i := deque_push x (ds ! i)]) (p\<lparr>submitted := submitted p @ [x]\<rparr>)))"
    using assms(1-4) by (simp add: task_enqueue_def push_local_def set_worker_def view_def)
  then show ?thesis using deque_push_spec [OF assms(5), of x] by blast
qed

lemma simulated_push_return:
  assumes inv: "fine_inv f" and i: "i < length (workers (ctl f))" and pc: "workers (ctl f) ! i = Run t"
    and step: "owner_step (dqs f ! i) = Some s'" and idle: "owner s' = OwnerIdle"
    and res: "stored s' = stored (dqs f ! i) @ [x]" "decided_of (owner (dqs f ! i)) = None"
  shows "simulated f (at_pc i (RunNotify t) ((put_deque i s' f)\<lparr>ctl := (ctl (put_deque i s' f))\<lparr>submitted := submitted (ctl f) @ [x]\<rparr>\<rparr>))"
    (is "simulated f ?f")
proof (rule simulatedI)
  have put: "fine_inv (put_deque i s' f)"
    using inv step i idle by (intro fine_inv_put [of _ OwnerStep]) (simp_all add: in_call_def)
  have len: "length (dqs f) = length (workers (ctl f))" using inv by (simp add: fine_inv_def)
  show "fine_inv ?f"
    using put idle i len by (intro fine_inv_at_pc) (simp_all add: fine_inv_def)
  fix ds assume same: "same_stored (dqs f) ds"
  have dl: "length ds = length (workers (ctl f))" using same_stored_length [OF same] len by simp
  have at: "workers (pool_view ds f) ! i = Run t" using i len pc res(2) by (simp add: view_nth apc_def)
  have w: "deque_wf (ds ! i)" "contents (ds ! i) = stored (dqs f ! i)" using same_stored_nth [OF same, of i] i len by auto
  obtain q where q: "deque_wf q" "contents q = stored s'"
    "pool_step (TaskEnqueue i x) (pool_view ds f)
      = Some (set_worker i (RunNotify t) (view (dqs f) (ds[i := q]) ((ctl f)\<lparr>submitted := submitted (ctl f) @ [x]\<rparr>)))"
    using view_push [OF len i at dl w(1)] w(2) res(1) by metis
  have "same_stored (dqs ?f) (ds[i := q])" using same_stored_update [OF same q(1), of s' i] q(2) by simp
  moreover have "pool_view (ds[i := q]) ?f
      = set_worker i (RunNotify t) (view (dqs f) (ds[i := q]) ((ctl f)\<lparr>submitted := submitted (ctl f) @ [x]\<rparr>))"
  proof -
    have "pool_view (ds[i := q]) ?f
        = (pool_view (ds[i := q]) (at_pc i (RunNotify t) (put_deque i s' f)))\<lparr>submitted := submitted (ctl f) @ [x]\<rparr>"
      by (simp add: view_def set_worker_def)
    then show ?thesis using view_return [OF inv i, where s' = s' and ds = "ds[i := q]" and pc = "RunNotify t"] idle by (simp add: set_worker_def)
  qed
  ultimately show "\<exists>ds'. same_stored (dqs ?f) ds' \<and>
      (pool_view ds' ?f = pool_view ds f \<or> (\<exists>a. pool_step a (pool_view ds f) = Some (pool_view ds' ?f)))"
    using q(3) by metis
qed

lemma simulated_task:
  assumes inv: "fine_inv f" and step: "fine_task i w f = Some f'"
  shows "simulated f f'"
proof (cases "i < length (workers (ctl f)) \<and> owner (dqs f ! i) \<noteq> OwnerIdle")
  case False
  then obtain p' where p': "task_step i w (ctl f) = Some p'" "f' = f\<lparr>ctl := p'\<rparr>"
    using step by (auto simp: fine_task_def Let_def split: if_splits)
  then have i: "i < length (workers (ctl f))" by (auto simp: task_step_def split: if_splits)
  then have "mirrors (dqs f) ds (task_step i w (ctl f)) (pool_step ((\<lambda>_. TaskStep i w) ds) (pool_view ds f))" for ds
    using mirrors_task_step [OF fine_inv_settled [OF inv] i] False by simp
  then show ?thesis
    using simulated_control [OF inv p'(1) keeps_task_step [OF p'(1)], of "\<lambda>_. TaskStep i w"] False p'(2) by simp
next
  case True
  then obtain t s' where i: "i < length (workers (ctl f))" and pc: "workers (ctl f) ! i = Run t"
    and s': "owner_step (dqs f ! i) = Some s'"
    and f': "f' = (if owner s' = OwnerIdle
      then at_pc i (RunNotify t) ((put_deque i s' f)\<lparr>ctl := (ctl (put_deque i s' f))\<lparr>submitted := submitted (ctl f) @ [the (returned s')]\<rparr>\<rparr>)
      else put_deque i s' f)"
    using step by (auto simp: fine_task_def Let_def split: worker_pc.splits)
  have push: "\<not> popping (owner (dqs f ! i))" using inv i pc True by (auto simp: fine_inv_def in_call_def split: if_splits)
  then have none: "decided_of (owner (dqs f ! i)) = None" using decided_popping by blast
  note spec = sim_owner_step [OF fine_inv_deque [OF inv i] s'] and shape = owner_step_shape [OF s']
  show ?thesis
  proof (cases "owner s' = OwnerIdle")
    case True
    then obtain x where "events s' = events (dqs f ! i) @ [Pushed x]" "returned s' = Some x" using shape push by auto
    then show ?thesis
      using spec_pushed [OF spec, of x] simulated_push_return [OF inv i pc s' True _ none, of x] True
      by (simp add: f' abs_deque_sel(3))
  next
    case False
    then have "log (abs_deque s') = log (abs_deque (dqs f ! i))" "\<not> popping (owner s')"
      using shape push by (auto simp: abs_deque_sel(3))
    moreover from this(2) have "decided_of (owner s') = None" using decided_popping by blast
    ultimately have "stored s' = stored (dqs f ! i)"
      using spec_same_log [OF spec] by (auto simp: abs_deque_def)
    then show ?thesis
      using simulated_internal [OF inv _ i, of OwnerStep s'] s' pc False none \<open>\<not> popping (owner s')\<close>
        \<open>decided_of (owner s') = None\<close> by (simp add: f' in_call_def)
  qed
qed

lemma simulated_step: "fine_inv f \<Longrightarrow> fine_step a f = Some f' \<Longrightarrow> simulated f f'"
  using simulated_others [of f a]
  by (cases a) (auto simp: simulated_worker simulated_task simulated_task_enqueue)

text \<open>The atomic pools that a state of the machine stands for.\<close>

definition stands_for :: "'a fine \<Rightarrow> 'a pool \<Rightarrow> bool" where
  "stands_for f p \<longleftrightarrow> (\<exists>ds. same_stored (dqs f) ds \<and> p = pool_view ds f)"

lemma fine_inv_ctor: "fine_inv (fine_ctor n m)"
  by (auto simp: fine_inv_def fine_ctor_def pool_ctor_def Let_def init_sys_def in_call_def
      intro: reach_init [of "init_sys default_capacity", unfolded init_sys_def])

lemma stands_for_ctor: "stands_for (fine_ctor n m) (pool_ctor n m)"
  unfolding stands_for_def
proof (intro exI conjI)
  let ?f = "fine_ctor n m :: 'a fine" and ?p = "pool_ctor n m :: 'a pool"
  show "same_stored (dqs ?f) (deques ?p)"
    by (auto simp: fine_ctor_def Let_def same_stored_def list_all2_conv_all_nth abs_init pool_ctor_def
        deque_wf_init)
  have "map2 apc (dqs ?f) (workers ?p) = workers ?p"
    by (intro nth_equalityI) (simp_all add: fine_ctor_def Let_def pool_ctor_def apc_def init_sys_def)
  then show "?p = pool_view (deques ?p) ?f" by (simp add: fine_ctor_def Let_def view_def)
qed

interpretation fine_pool: simulation "fine_ctor n m" fine_step fine_inv stands_for "pool_ctor n m" pool_step for n m
proof unfold_locales
  show "fine_inv (fine_ctor n m)" by (rule fine_inv_ctor)
  show "stands_for (fine_ctor n m) (pool_ctor n m)" by (rule stands_for_ctor)
  fix a :: "'a pool_action" and f f' :: "'a fine" and p
  assume "fine_inv f" "fine_step a f = Some f'"
  then have "simulated f f'" by (rule simulated_step)
  then show "fine_inv f'" by (simp add: simulated_def)
  show "\<exists>p'. stands_for f' p' \<and> (p' = p \<or> (\<exists>b. pool_step b p = Some p'))" if "stands_for f p"
    using that \<open>simulated f f'\<close> unfolding simulated_def stands_for_def by metis
qed

section \<open>What carries over\<close>

text \<open>Tasks that run, or that a \<open>pop\<close> in progress has won; and the tasks in the queues.\<close>

definition fine_in_flight :: "'a fine \<Rightarrow> 'a list" where
  "fine_in_flight f = concat (map2 (\<lambda>s pc. running_of (apc s pc)) (dqs f) (workers (ctl f)))"

definition fine_queued :: "'a fine \<Rightarrow> 'a list" where
  "fine_queued f = tasks (gqueue (ctl f)) @ concat (map stored (dqs f))"

lemma view_in_flight: "in_flight (pool_view ds f) = fine_in_flight f"
  by (simp add: in_flight_def fine_in_flight_def view_def comp_def case_prod_unfold)

lemma same_stored_map: "same_stored D ds \<Longrightarrow> map contents ds = map stored D"
  unfolding same_stored_def by (induction rule: list_all2_induct) simp_all

lemma view_queued: "same_stored (dqs f) ds \<Longrightarrow> queued (pool_view ds f) = fine_queued f"
  by (simp add: queued_def fine_queued_def same_stored_map)

lemma fine_reached:
  assumes "exec fine_step as (fine_ctor n m) = Some f"
  shows "fine_inv f \<and> (\<exists>ds. same_stored (dqs f) ds \<and> pool_inv (pool_view ds f))"
proof
  show "fine_inv f" using fine_pool.inv_reach [OF exec_reach [OF assms]] .
  obtain bs p where "exec pool_step bs (pool_ctor n m) = Some p" "stands_for f p"
    using fine_pool.simulates [OF assms] by blast
  then show "\<exists>ds. same_stored (dqs f) ds \<and> pool_inv (pool_view ds f)"
    using pool_inv_exec unfolding stands_for_def by blast
qed

text \<open>A worker that is inside a call on a deque can always move.\<close>

lemma fine_stuck:
  assumes "fine_inv f" and "same_stored (dqs f) ds" and "fine_worker i f = None"
  shows "worker_step i False (pool_view ds f) = None"
proof (cases "i < length (workers (ctl f))")
  case i: True
  show ?thesis
  proof (cases "plain (workers (ctl f) ! i)")
    case True
    then have "worker_step i False (ctl f) = None"
      using assms(3) i by (cases "workers (ctl f) ! i") (simp_all add: fine_worker_def Let_def)
    moreover have "length ds = length (deques (ctl f))"
      using assms(1,2) by (simp add: fine_inv_def same_stored_length)
    ultimately show ?thesis
      using mirrors_worker_step [OF fine_inv_settled [OF assms(1)] i True, of ds False] by (simp add: mirrors_def)
  next
    case False
    then show ?thesis
      using assms(3) i
      by (cases "workers (ctl f) ! i")
        (auto simp: fine_worker_def fine_fetch_def fine_probe_def call_pop_def call_steal_def Let_def owner_enabled thief_enabled
          split: if_splits)
  qed
next
  case False
  then show ?thesis using fine_inv_settled [OF assms(1)] by (simp add: worker_step_def settled_def)
qed

text \<open>With no call in progress the memory of a deque is what it stores.\<close>

lemma idle_memory:
  assumes "fine_inv f" and "i < length (workers (ctl f))" and "workers (ctl f) ! i = Blocked"
  shows "deque_empty (deques (ctl f) ! i) \<longleftrightarrow> stored (dqs f ! i) = []"
proof -
  have "owner (dqs f ! i) = OwnerIdle" "deques (ctl f) ! i = deq (dqs f ! i)"
    using assms by (auto simp: fine_inv_def in_call_def split: if_splits)
  then show ?thesis by (simp add: abs_deque_sel(1) deque_empty_iff contents_def)
qed

lemma fine_asleep:
  assumes "fine_inv f" and "same_stored (dqs f) ds" and "list_all (\<lambda>pc. pc = Blocked) (workers (pool_view ds f))"
    and "pool_empty (pool_view ds f)"
  shows "list_all (\<lambda>pc. pc = Blocked) (workers (ctl f)) \<and> pool_empty (ctl f)"
proof -
  note settled = fine_inv_settled [OF assms(1)]
  have len: "length (dqs f) = length (workers (ctl f))" "length (deques (ctl f)) = length (workers (ctl f))"
    using assms(1) by (auto simp: fine_inv_def)
  have blocked: "workers (ctl f) ! i = Blocked" if "i < length (workers (ctl f))" for i
    using view_pc [OF settled that, of Blocked ds] assms(3) that len by (simp add: list_all_length)
  have "fine_queued f = []" using assms(2,4) view_queued [of f ds] by (simp add: pool_empty_iff)
  then have "tasks (gqueue (ctl f)) = []" "\<forall>i < length (workers (ctl f)). stored (dqs f ! i) = []"
    using len by (auto simp: fine_queued_def)
  then have "gq_empty_relaxed (gqueue (ctl f))" "\<forall>q \<in> set (deques (ctl f)). deque_empty q"
    using idle_memory [OF assms(1) _ blocked] len by (auto simp: gq_empty_iff in_set_conv_nth)
  then show ?thesis using blocked by (auto simp: list_all_length pool_empty_def has_local_work_def)
qed

section \<open>Executions\<close>

lemmas fine_eval = pool_eval fine_ctor_def fine_worker_def fine_fetch_def fine_empty_def fine_task_def put_deque_def at_pc_def
  returned_def call_pop_def owner_step_def init_sys_def init_deque_def

text \<open>A task goes through the global queue; the worker first finds its own deque empty.\<close>

lemma fine_one_task:
  "exec fine_step
     (ClientEnqueue 0 x # ClientStep 0 0 # replicate 5 (WorkerStep 0 False) @ [TaskStep 0 0]) (fine_ctor 1 1)
   = Some \<lparr>ctl = (pool_ctor 1 1)\<lparr>submitted := [x], finished := [x]\<rparr>,
       dqs = [(init_sys default_capacity)\<lparr>events := [Popped None]\<rparr>], regs = [None]\<rparr>"
  by (simp add: fine_eval)

text \<open>A worker without work goes to sleep.\<close>

lemma fine_to_sleep:
  "exec fine_step (replicate 84 (WorkerStep 0 False)) (fine_ctor 1 1)
   = Some \<lparr>ctl = (pool_ctor 1 1)\<lparr>workers := [Blocked], sleeping := 1\<rparr>,
       dqs = [(init_sys default_capacity)\<lparr>events := [Popped None]\<rparr>], regs = [None]\<rparr>"
  by (simp add: fine_eval)

section \<open>Properties\<close>

text \<open>
  C3. The pool with all atomic accesses interleaved implements the pool with atomic queue operations: every state
  that the accesses of workers, thieves, tasks, clients and destructor reach corresponds to one that the atomic pool reaches, with the same
  tasks in each deque, the same global queue, mutex and counters, and each worker at the same place, except that
  a worker whose \<open>pop\<close> has won the last task is already running it.
\<close>

theorem fine_pool_refines:
  assumes "exec fine_step as (fine_ctor n m) = Some f"
  shows "\<exists>bs ds. exec pool_step bs (pool_ctor n m) = Some (view (dqs f) ds (ctl f)) \<and> same_stored (dqs f) ds"
  using fine_pool.simulates [OF assms] unfolding stands_for_def by blast

theorem fine_pool_refines_witness:
  "\<exists>f bs ds. exec fine_step
      (ClientEnqueue 0 True # ClientStep 0 0 # replicate 5 (WorkerStep 0 False) @ [TaskStep 0 0]) (fine_ctor 1 1) = Some f \<and>
    exec pool_step bs (pool_ctor 1 1) = Some (view (dqs f) ds (ctl f)) \<and> finished (view (dqs f) ds (ctl f)) = [True]"
proof -
  obtain bs ds where "exec pool_step bs (pool_ctor 1 1)
      = Some (view [(init_sys default_capacity)\<lparr>events := [Popped None]\<rparr>] ds ((pool_ctor 1 1)\<lparr>submitted := [True], finished := [True]\<rparr>))"
    using fine_pool_refines [OF fine_one_task [of True]] by auto
  then show ?thesis unfolding fine_one_task by fastforce
qed

text \<open>
  C2. With every atomic access a step of its own, no task is lost and none is executed twice: each task passed to \<open>enqueue\<close>
  is exactly once among the finished tasks, the tasks that run or have been won by a \<open>pop\<close>, and the tasks of the queues.
\<close>

theorem fine_conserves_tasks:
  assumes "exec fine_step as (fine_ctor n m) = Some f"
  shows "mset (submitted (ctl f)) = mset (finished (ctl f)) + mset (fine_in_flight f) + mset (fine_queued f)"
proof -
  obtain ds where "same_stored (dqs f) ds" "pool_inv (pool_view ds f)" using fine_reached [OF assms] by blast
  then show ?thesis by (simp add: pool_inv_def balance_def view_in_flight view_queued)
qed

theorem fine_conserves_tasks_witness:
  "\<exists>f. exec fine_step
      (ClientEnqueue 0 True # ClientStep 0 0 # replicate 5 (WorkerStep 0 False) @ [TaskStep 0 0]) (fine_ctor 1 1) = Some f \<and>
    finished (ctl f) = [True] \<and>
    mset (submitted (ctl f)) = mset (finished (ctl f)) + mset (fine_in_flight f) + mset (fine_queued f)"
  by (intro exI conjI, rule fine_one_task, simp, rule fine_conserves_tasks [OF fine_one_task])

text \<open>
  C4. No wake-up is lost, down to the single loads of \<open>empty\<close>: if no worker can take a step, no task is running, every call of
  \<open>enqueue\<close> has returned and the pool is not being destroyed, then all workers sleep, and the global queue
  and the memory of every deque are empty.
\<close>

theorem fine_no_lost_wakeup:
  assumes "exec fine_step as (fine_ctor n m) = Some f"
    and "\<forall>i. fine_worker i f = None" and "fine_in_flight f = []"
    and "list_all (\<lambda>c. c = ClientIdle) (clients (ctl f))" and "destroyer (ctl f) = NotDestroyed"
  shows "list_all (\<lambda>pc. pc = Blocked) (workers (ctl f)) \<and> pool_empty (ctl f)"
proof -
  obtain ds where inv: "fine_inv f" and ds: "same_stored (dqs f) ds" "pool_inv (pool_view ds f)"
    using fine_reached [OF assms(1)] by blast
  have "list_all (\<lambda>pc. pc = Blocked) (workers (pool_view ds f)) \<and> pool_empty (pool_view ds f)"
    by (rule stuck_asleep [OF ds(2)]) (use assms fine_stuck [OF inv ds(1)] in \<open>simp_all add: view_in_flight\<close>)
  then show ?thesis using fine_asleep [OF inv ds(1)] by blast
qed

theorem fine_no_lost_wakeup_witness:
  "\<exists>f. exec fine_step (replicate 84 (WorkerStep 0 False)) (fine_ctor 1 1 :: bool fine) = Some f \<and>
    list_all (\<lambda>pc. pc = Blocked) (workers (ctl f)) \<and> pool_empty (ctl f)"
proof (intro exI conjI)
  let ?f = "\<lparr>ctl = (pool_ctor 1 1)\<lparr>workers := [Blocked], sleeping := 1\<rparr>,
       dqs = [(init_sys default_capacity)\<lparr>events := [Popped None]\<rparr>], regs = [None]\<rparr> :: bool fine"
  show "exec fine_step (replicate 84 (WorkerStep 0 False)) (fine_ctor 1 1) = Some ?f" by (rule fine_to_sleep)
  have "\<forall>i. fine_worker i ?f = None" "fine_in_flight ?f = []"
    "list_all (\<lambda>c. c = ClientIdle) (clients (ctl ?f))" "destroyer (ctl ?f) = NotDestroyed"
    by (simp_all add: fine_worker_def worker_step_def fine_in_flight_def apc_def init_sys_def pool_ctor_one Let_def)
  from fine_no_lost_wakeup [OF fine_to_sleep this]
  show "list_all (\<lambda>pc. pc = Blocked) (workers (ctl ?f))" "pool_empty (ctl ?f)" by simp_all
qed

end
