(* ===== verification/Pool_Wait.thy ===== *)
theory Pool_Wait
  imports Pool_Fine
begin

text \<open>
  \<open>thread_pool::wait\<close>, by a thread that looks at the queues while the pool goes on. Each call of
  \<open>impl::empty\<close> takes the mutex of the global queue, and then loads \<open>bottom_\<close> and \<open>top_\<close> of one deque after
  the other; every load is a step of its own, as are the accesses of the workers (\<open>Pool_Fine\<close>).
\<close>

section \<open>The waiting thread\<close>

datatype wait_pc =
    WaitIdle
  | WaitGlobal            \<comment> \<open>\<open>global_queue.empty_relaxed()\<close>\<close>
  | WaitBottom nat        \<comment> \<open>\<open>deque->empty()\<close>: the load of \<open>bottom_\<close>\<close>
  | WaitTop nat int       \<comment> \<open>\<open>deque->empty()\<close>: the load of \<open>top_\<close>, with the value of \<open>bottom_\<close>\<close>
  | WaitDone

record 'a waiting =
  wpool :: "'a fine"
  waiter :: wait_pc

definition wait_step :: "'a waiting \<Rightarrow> 'a waiting option" where
  "wait_step w =
     (let p = ctl (wpool w) in
      case waiter w of
        WaitIdle \<Rightarrow> Some (w\<lparr>waiter := WaitGlobal\<rparr>)
      | WaitGlobal \<Rightarrow> Some (w\<lparr>waiter := (if gq_empty_relaxed (gqueue p) then WaitBottom 0 else WaitGlobal)\<rparr>)
      | WaitBottom k \<Rightarrow>
          Some (w\<lparr>waiter := (if k < length (deques p) then WaitTop k (dbottom (deques p ! k)) else WaitDone)\<rparr>)
      | WaitTop k b \<Rightarrow>
          Some (w\<lparr>waiter := (if b \<le> dtop (deques p ! k) then WaitBottom (k + 1) else WaitGlobal)\<rparr>)
      | WaitDone \<Rightarrow> None)"

datatype 'a wait_action = WaitStep | PoolStep "'a pool_action"

fun wait_machine :: "'a wait_action \<Rightarrow> 'a waiting \<Rightarrow> 'a waiting option" where
  "wait_machine WaitStep w = wait_step w"
| "wait_machine (PoolStep a) w = map_option (\<lambda>f. w\<lparr>wpool := f\<rparr>) (fine_step a (wpool w))"

section \<open>Without new tasks\<close>

fun enqueues :: "'a wait_action \<Rightarrow> bool" where
  "enqueues (PoolStep (ClientEnqueue j x)) = True"
| "enqueues (PoolStep (TaskEnqueue i x)) = True"
| "enqueues _ = False"

definition pushing :: "'a deque_sys \<Rightarrow> bool" where
  "pushing s \<longleftrightarrow> owner s \<noteq> OwnerIdle \<and> \<not> popping (owner s)"

text \<open>
  As long as nothing is enqueued, \<open>top_\<close> only grows, and \<open>bottom_\<close> is only raised at the end of a \<open>pop\<close>
  that leaves the deque empty.
\<close>

definition shrinks :: "'a work_stealing_deque \<Rightarrow> 'a work_stealing_deque \<Rightarrow> bool" where
  "shrinks q q' \<longleftrightarrow> dtop q \<le> dtop q' \<and> (dbottom q' \<le> dbottom q \<or> dbottom q' \<le> dtop q')"

definition drains :: "'a pool \<Rightarrow> 'a pool \<Rightarrow> bool" where
  "drains p p' \<longleftrightarrow> (tasks (gqueue p) = [] \<longrightarrow> tasks (gqueue p') = []) \<and>
     length (deques p') = length (deques p) \<and> (\<forall>k. shrinks (deques p ! k) (deques p' ! k))"

lemma shrinks_refl [simp]: "shrinks q q"
  by (simp add: shrinks_def)

lemma shrinks_owner: "deque_inv s \<Longrightarrow> owner_step s = Some s' \<Longrightarrow> \<not> pushing s \<Longrightarrow> shrinks (deq s) (deq s')"
  by (cases "owner s")
    (auto simp: owner_step_def shrinks_def pushing_def cas_top_def Let_def deque_inv_def split: if_splits prod.splits)

lemma shrinks_thief: "thief_step i s = Some s' \<Longrightarrow> shrinks (deq s) (deq s')"
  by (cases "thieves s i")
    (auto simp: thief_step_def shrinks_def cas_top_def set_thief_def Let_def split: if_splits prod.splits)

lemma drains_same [simp]: "gqueue p' = gqueue p \<Longrightarrow> deques p' = deques p \<Longrightarrow> drains p p'"
  by (simp add: drains_def)

lemma drains_set_worker [simp]: "drains p (set_worker i pc p') = drains p p'"
  by (simp add: drains_def set_worker_def)

lemma drains_put_deque: "fine_inv f \<Longrightarrow> shrinks (deq (dqs f ! t)) (deq s) \<Longrightarrow> drains (ctl f) (ctl (put_deque t s f))"
  by (cases "t < length (dqs f)") (auto simp: drains_def put_deque_def nth_list_update list_update_beyond fine_inv_def)

text \<open>States in which no \<open>push\<close> is in progress.\<close>

definition calm :: "'a fine \<Rightarrow> bool" where
  "calm f \<longleftrightarrow> fine_inv f \<and> list_all (\<lambda>s. \<not> pushing s) (dqs f)"

lemma calm_nth: "calm f \<Longrightarrow> i < length (workers (ctl f)) \<Longrightarrow> \<not> pushing (dqs f ! i) \<and> deque_inv (dqs f ! i)"
  by (simp add: calm_def list_all_length fine_inv_def deque_machine.inv_reach)

lemma pushing_put: "list_all (\<lambda>s. \<not> pushing s) (dqs f) \<Longrightarrow> \<not> pushing s \<Longrightarrow> list_all (\<lambda>s. \<not> pushing s) ((dqs f)[t := s])"
  by (auto simp: list_all_length nth_update_cases)

text \<open>What a step does to the queues, and that it starts no \<open>push\<close>.\<close>

definition quiet :: "'a fine \<Rightarrow> 'a fine \<Rightarrow> bool" where
  "quiet f f' \<longleftrightarrow> drains (ctl f) (ctl f') \<and> list_all (\<lambda>s. \<not> pushing s) (dqs f')"

lemma quiet_at_pc [simp]: "quiet f (at_pc i pc f') = quiet f f'"
  by (simp add: quiet_def)

lemma quiet_control: "calm f \<Longrightarrow> drains (ctl f) p' \<Longrightarrow> quiet f (f\<lparr>ctl := p'\<rparr>)"
  by (simp add: quiet_def calm_def)

lemma quiet_put: "calm f \<Longrightarrow> shrinks (deq (dqs f ! t)) (deq s) \<Longrightarrow> \<not> pushing s \<Longrightarrow> quiet f (put_deque t s f)"
  by (simp add: quiet_def calm_def drains_put_deque pushing_put)

lemma quiet_fetch:
  assumes calm: "calm f" and i: "i < length (workers (ctl f))" and step: "fine_fetch i f = Some f'"
  shows "quiet f f'"
proof (cases "owner (dqs f ! i) = OwnerIdle")
  case True
  then show ?thesis
    using step calm by (auto simp: fine_fetch_def call_pop_def pushing_def Let_def intro!: quiet_put)
next
  case False
  then obtain s' where s': "owner_step (dqs f ! i) = Some s'" and f': "f' = (if owner s' = OwnerIdle
      then at_pc i (case returned s' of Some x \<Rightarrow> Run x | None \<Rightarrow> FetchGlobal) (put_deque i s' f) else put_deque i s' f)"
    using step by (auto simp: fine_fetch_def)
  have "\<not> pushing s'"
    using owner_step_shape [OF s'] calm_nth [OF calm i] by (auto simp: pushing_def split: if_splits)
  then show ?thesis
    using calm_nth [OF calm i] shrinks_owner [OF _ s'] quiet_put [OF calm] by (simp add: f')
qed

lemma quiet_probe:
  assumes calm: "calm f" and i: "i < length (workers (ctl f))" and step: "fine_probe i c start k f = Some f'"
  shows "quiet f f'"
proof -
  have len: "length (dqs f) = length (workers (ctl f))" using calm by (simp add: calm_def fine_inv_def)
  let ?t = "probe_target start (length (dqs f)) k"
  have t: "k < length (dqs f) \<Longrightarrow> \<not> pushing (dqs f ! ?t)"
    using calm_nth [OF calm, of ?t] probe_target_less [of "length (dqs f)" start k] len by (cases "dqs f") simp_all
  have "quiet f (put_deque ?t s' f)" if "k < length (dqs f)" "thief_step i (dqs f ! ?t) = Some s'" for s'
    using quiet_put [OF calm shrinks_thief [OF that(2)]] t [OF that(1)] thief_step_shape [OF that(2)] by (simp add: pushing_def)
  moreover have "quiet f (put_deque ?t s' f)" if "k < length (dqs f)" "call_steal i (dqs f ! ?t) = Some s'" for s'
    using that t [OF that(1)]
    by (auto simp: call_steal_def set_thief_def pushing_def intro!: quiet_put [OF calm] split: thief_pc.splits)
  moreover have "quiet f f" using calm by (simp add: quiet_def calm_def)
  ultimately show ?thesis
    using step by (auto simp: fine_probe_def Let_def split: if_splits)
qed

lemma drains_plain:
  assumes "worker_step i lost p = Some p'" and "plain (workers p ! i)"
  shows "drains p p'"
  using assms
  by (cases "workers p ! i")
    (auto simp: worker_step_def set_worker_def fetch_global_def steal_entry_def drains_def gq_pop_nonblocking_def Let_def
      split: if_splits list.splits)

lemma quiet_worker:
  assumes calm: "calm f" and step: "fine_worker i f = Some f'"
  shows "quiet f f'"
proof -
  have i: "i < length (workers (ctl f))" using step by (auto simp: fine_worker_def Let_def split: if_splits)
  have refl: "quiet f f" using calm by (simp add: quiet_def calm_def)
  show ?thesis
  proof (cases "plain (workers (ctl f) ! i)")
    case True
    then obtain p' where "worker_step i False (ctl f) = Some p'" "f' = f\<lparr>ctl := p'\<rparr>"
      using step i by (cases "workers (ctl f) ! i") (auto simp: fine_worker_def)
    then show ?thesis using drains_plain True quiet_control [OF calm] by blast
  next
    case False
    then show ?thesis
      using step i quiet_fetch [OF calm i] quiet_probe [OF calm i] refl calm
      by (cases "workers (ctl f) ! i")
        (auto simp: fine_worker_def fine_empty_def quiet_def calm_def set_worker_def Let_def split: option.splits if_splits)
  qed
qed

lemma quiet_step:
  assumes calm: "calm f" and step: "fine_step a f = Some f'" and "\<not> enqueues (PoolStep a)"
  shows "quiet f f'"
proof (cases a)
  case (TaskStep i w)
  moreover have "owner (dqs f ! i) = OwnerIdle" if "i < length (workers (ctl f))" "workers (ctl f) ! i = Run t" for t
    using that calm_nth [OF calm that(1)] calm by (fastforce simp: calm_def fine_inv_def in_call_def pushing_def split: if_splits)
  ultimately show ?thesis
    using step
    by (auto simp: fine_task_def task_step_def set_worker_def Let_def dest!: notify_one_frame split: if_splits worker_pc.splits
        intro!: quiet_control [OF calm])
qed (use assms quiet_worker in \<open>auto simp: client_step_def set_client_def spurious_wake_def set_worker_def destroy_step_def
      notify_all_def dest!: notify_one_frame split: if_splits client_pc.splits destroy_pc.splits intro!: quiet_control\<close>)

lemma calm_step: "calm f \<Longrightarrow> fine_step a f = Some f' \<Longrightarrow> \<not> enqueues (PoolStep a) \<Longrightarrow> calm f' \<and> drains (ctl f) (ctl f')"
  using quiet_step simulated_step unfolding calm_def quiet_def simulated_def by blast

text \<open>What the scan has found so far still holds.\<close>

definition cleared :: "nat \<Rightarrow> 'a pool \<Rightarrow> bool" where
  "cleared k p \<longleftrightarrow> tasks (gqueue p) = [] \<and> (\<forall>j < k. j < length (deques p) \<longrightarrow> deque_empty (deques p ! j))"

fun scanned :: "wait_pc \<Rightarrow> 'a pool \<Rightarrow> bool" where
  "scanned WaitIdle p = True"
| "scanned WaitGlobal p = True"
| "scanned (WaitBottom k) p = cleared k p"
| "scanned (WaitTop k b) p = (cleared k p \<and> (dbottom (deques p ! k) \<le> b \<or> deque_empty (deques p ! k)))"
| "scanned WaitDone p = cleared (length (deques p)) p"

lemma shrinks_empty: "shrinks q q' \<Longrightarrow> deque_empty q \<Longrightarrow> deque_empty q'"
  by (auto simp: shrinks_def deque_empty_def)

lemma drains_cleared: "drains p p' \<Longrightarrow> cleared k p \<Longrightarrow> cleared k p'"
  unfolding drains_def cleared_def using shrinks_empty by metis

lemma drains_scanned:
  assumes "drains p p'" and "scanned pc p"
  shows "scanned pc p'"
proof (cases pc)
  case (WaitTop k b)
  moreover from assms(1) have "shrinks (deques p ! k) (deques p' ! k)" by (simp add: drains_def)
  ultimately show ?thesis
    using assms drains_cleared [OF assms(1), of k] by (auto simp: shrinks_def deque_empty_def)
next
  case WaitDone
  then show ?thesis
    using assms drains_cleared [OF assms(1), of "length (deques p)"] by (simp add: drains_def)
qed (use assms drains_cleared in auto)

lemma cleared_Suc: "cleared (Suc k) p \<longleftrightarrow> cleared k p \<and> (k < length (deques p) \<longrightarrow> deque_empty (deques p ! k))"
  by (auto simp: cleared_def less_Suc_eq)

lemma cleared_0: "cleared 0 p \<longleftrightarrow> tasks (gqueue p) = []"
  by (simp add: cleared_def)

lemma cleared_beyond: "\<not> k < length (deques p) \<Longrightarrow> cleared k p \<Longrightarrow> cleared (length (deques p)) p"
  by (simp add: cleared_def)

lemma wait_step_scanned:
  assumes "wait_step w = Some w'" and "scanned (waiter w) (ctl (wpool w))"
  shows "scanned (waiter w') (ctl (wpool w')) \<and> wpool w' = wpool w"
  using assms
  by (cases "waiter w")
    (auto simp: wait_step_def Let_def cleared_Suc deque_empty_def cleared_0 cleared_beyond gq_empty_iff
      split: if_splits)

lemma wait_machine_scanned:
  assumes "exec wait_machine as w = Some w'" and "list_all (\<lambda>a. \<not> enqueues a) as"
    and "scanned (waiter w) (ctl (wpool w))" and "calm (wpool w)"
  shows "scanned (waiter w') (ctl (wpool w')) \<and> calm (wpool w')"
  using assms
proof (induction as arbitrary: w)
  case (Cons a as)
  then obtain u where u: "wait_machine a w = Some u" "exec wait_machine as u = Some w'"
    by (auto split: option.splits)
  have "scanned (waiter u) (ctl (wpool u)) \<and> calm (wpool u)"
  proof (cases a)
    case WaitStep
    then show ?thesis using u(1) wait_step_scanned [of w u] Cons.prems(3,4) by auto
  next
    case (PoolStep b)
    then obtain f where "fine_step b (wpool w) = Some f" "u = w\<lparr>wpool := f\<rparr>" "\<not> enqueues (PoolStep b)"
      using u(1) Cons.prems(2) by auto
    then show ?thesis using calm_step [OF Cons.prems(4)] drains_scanned [OF _ Cons.prems(3)] by auto
  qed
  with Cons.IH [OF u(2)] Cons.prems(2) show ?case by simp
qed simp

lemma cleared_pool_empty: "cleared (length (deques p)) p \<longleftrightarrow> pool_empty p"
  by (auto simp: cleared_def pool_empty_def has_local_work_def gq_empty_iff all_set_conv_all_nth)

text \<open>A deque that looks empty holds nothing, or one task that a \<open>pop\<close> is about to take.\<close>

lemma looks_empty:
  assumes "deque_inv s" and "deque_empty (deq s)"
  shows "stored s = [] \<or> popping (owner s) \<and> length (stored s) = 1"
  using assms by (cases "owner s") (auto simp: abs_deque_sel(1) deque_inv_def deque_empty_def length_window)

text \<open>A scan of empty queues.\<close>

lemma scan_deques:
  assumes "\<forall>q \<in> set (deques (ctl (wpool w))). deque_empty q" and "waiter w = WaitBottom k"
    and "k \<le> length (deques (ctl (wpool w)))"
  shows "exec wait_machine (replicate (2 * (length (deques (ctl (wpool w))) - k) + 1) WaitStep) w = Some (w\<lparr>waiter := WaitDone\<rparr>)"
  using assms
proof (induction "length (deques (ctl (wpool w))) - k" arbitrary: w k)
  case 0
  then show ?case by (simp add: wait_step_def)
next
  case (Suc n)
  let ?qs = "deques (ctl (wpool w))"
  have k: "k < length ?qs" and n: "n = length ?qs - Suc k" using Suc(2) by simp_all
  have "exec wait_machine (replicate (2 * n + 1) WaitStep) (w\<lparr>waiter := WaitBottom (Suc k)\<rparr>) = Some (w\<lparr>waiter := WaitDone\<rparr>)"
    using Suc(1) [of "w\<lparr>waiter := WaitBottom (Suc k)\<rparr>" "Suc k"] Suc.prems n k by simp
  moreover have "deque_empty (?qs ! k)" using Suc.prems(1) k by simp
  ultimately show ?case
    using Suc(2) [symmetric] Suc.prems(2) k by (simp add: wait_step_def deque_empty_def Let_def)
qed

section \<open>Properties\<close>

text \<open>
  C15. \<open>wait\<close> does what it promises if no task is enqueued while it runs: however its loads are interleaved with the
  accesses of the workers, when it returns all queues are empty, except that a deque may hold one task
  whose owner is inside \<open>pop\<close> and has already lowered \<open>bottom_\<close>. And it does return: with empty queues one scan is enough.
\<close>

theorem wait_returns_when_empty:
  assumes "exec fine_step bs (fine_ctor n m) = Some f" and "list_all (\<lambda>s. \<not> pushing s) (dqs f)"
    and "exec wait_machine as \<lparr>wpool = f, waiter = WaitIdle\<rparr> = Some w"
    and "list_all (\<lambda>a. \<not> enqueues a) as"
  shows "(waiter w = WaitDone \<longrightarrow> tasks (gqueue (ctl (wpool w))) = [] \<and>
      list_all (\<lambda>s. stored s = [] \<or> popping (owner s) \<and> length (stored s) = 1) (dqs (wpool w))) \<and>
    (pool_empty (ctl f) \<longrightarrow>
      exec wait_machine (replicate (2 * length (deques (ctl f)) + 3) WaitStep) \<lparr>wpool = f, waiter = WaitIdle\<rparr>
        = Some \<lparr>wpool = f, waiter = WaitDone\<rparr>)"
proof (intro conjI impI)
  have "calm f" using fine_reached [OF assms(1)] assms(2) by (simp add: calm_def)
  then have scanned: "scanned (waiter w) (ctl (wpool w))" and inv: "fine_inv (wpool w)"
    using wait_machine_scanned [OF assms(3,4)] by (simp_all add: calm_def)
  then show "tasks (gqueue (ctl (wpool w))) = []" if "waiter w = WaitDone" using that by (simp add: cleared_def)
  show "list_all (\<lambda>s. stored s = [] \<or> popping (owner s) \<and> length (stored s) = 1) (dqs (wpool w))" if "waiter w = WaitDone"
    using scanned that inv looks_empty fine_inv_deque [OF inv] by (auto simp: list_all_length cleared_def fine_inv_def)
  assume "pool_empty (ctl f)"
  then have "gq_empty_relaxed (gqueue (ctl f))" "\<forall>q \<in> set (deques (ctl f)). deque_empty q"
    by (auto simp: pool_empty_def has_local_work_def)
  with scan_deques [of "\<lparr>wpool = f, waiter = WaitBottom 0\<rparr>" 0]
  show "exec wait_machine (replicate (2 * length (deques (ctl f)) + 3) WaitStep) \<lparr>wpool = f, waiter = WaitIdle\<rparr>
        = Some \<lparr>wpool = f, waiter = WaitDone\<rparr>"
    by (simp add: numeral_eq_Suc wait_step_def)
qed

text \<open>The states an execution passes through.\<close>

fun path :: "('a \<Rightarrow> 's \<Rightarrow> 's option) \<Rightarrow> 'a list \<Rightarrow> 's \<Rightarrow> 's list" where
  "path step [] s = [s]"
| "path step (a # as) s = s # (case step a s of None \<Rightarrow> [] | Some t \<Rightarrow> path step as t)"

text \<open>
  A worker runs task \<open>x\<close>, which has put \<open>y\<close> into its deque. \<open>wait\<close> finds the global queue empty; then
  a client enqueues \<open>z\<close> there, and the worker takes \<open>y\<close>, before \<open>wait\<close> comes to the deque.
\<close>

definition miss_setup :: "'a \<Rightarrow> 'a \<Rightarrow> 'a pool_action list" where
  "miss_setup x y =
     ClientEnqueue 0 x # ClientStep 0 0 # replicate 5 (WorkerStep 0 False) @ TaskEnqueue 0 y # replicate 5 (TaskStep 0 0)"

definition miss_run :: "'a \<Rightarrow> 'a wait_action list" where
  "miss_run z =
     [WaitStep, WaitStep, PoolStep (ClientEnqueue 0 z), PoolStep (TaskStep 0 0)]
     @ replicate 6 (PoolStep (WorkerStep 0 False)) @ [WaitStep, WaitStep, WaitStep]"

text \<open>
  With concurrent calls of \<open>enqueue\<close> a return of \<open>wait\<close> means little: there is an execution in
  which the pool holds a task at every moment from the call of \<open>wait\<close> to its return.
\<close>

lemma wait_can_miss:
  "\<exists>f w. exec fine_step (miss_setup x y) (fine_ctor 1 1) = Some f \<and>
     exec wait_machine (miss_run z) \<lparr>wpool = f, waiter = WaitIdle\<rparr> = Some w \<and> waiter w = WaitDone \<and>
     list_all (\<lambda>u. fine_queued (wpool u) \<noteq> []) (path wait_machine (miss_run z) \<lparr>wpool = f, waiter = WaitIdle\<rparr>)"
  by (simp add: miss_setup_def miss_run_def fine_eval wait_step_def fine_queued_def fine_task_enqueue_def call_push_def
      ensure_room_def load_store_same cas_top_def abs_deque_sel(1) window_eq_Nil_iff)

theorem wait_returns_when_empty_witness:
  "\<exists>w. exec wait_machine (replicate 5 WaitStep) \<lparr>wpool = fine_ctor 1 1 :: bool fine, waiter = WaitIdle\<rparr> = Some w \<and>
     waiter w = WaitDone \<and> tasks (gqueue (ctl (wpool w))) = []"
proof -
  obtain w where w: "exec wait_machine (replicate 5 WaitStep) \<lparr>wpool = fine_ctor 1 1 :: bool fine, waiter = WaitIdle\<rparr> = Some w"
    "waiter w = WaitDone"
    by (simp add: fine_eval wait_step_def)
  have start: "exec fine_step [] (fine_ctor 1 1) = Some (fine_ctor 1 1 :: bool fine)" by simp
  have calm: "list_all (\<lambda>s. \<not> pushing s) (dqs (fine_ctor 1 1 :: bool fine))" by (simp add: fine_eval pushing_def)
  have "list_all (\<lambda>a. \<not> enqueues a) (replicate 5 WaitStep :: bool wait_action list)" by (simp add: list_all_iff)
  from wait_returns_when_empty [OF start calm w(1) this] w show ?thesis by blast
qed

end
