(* ===== verification/Pool_Help.thy ===== *)
theory Pool_Help
  imports Pool_Wait
begin

text \<open>
  Tasks that a running task enqueues on the deque of its worker. The worker does not get to them before the task returns, so
  they depend on another worker: either one is on its way to look at the deque, or \<open>enqueue\<close> has yet to notify one.
\<close>

section \<open>Workers that will look at a deque\<close>

text \<open>The part of \<open>enqueue\<close> after the push: the load of the number of sleepers, and the lock and \<open>notify_one\<close>.\<close>

definition in_enqueue :: "'a worker_pc \<Rightarrow> bool" where
  "in_enqueue pc \<longleftrightarrow> (\<exists>t. pc = RunNotify t \<or> pc = RunLock t)"

text \<open>
  A worker that is not asleep looks at deque \<open>k\<close> before it can fall asleep, unless the predicate of its wait has already
  found that deque empty, or will do so with the value of \<open>bottom_\<close> that it has loaded.
\<close>

fun looking :: "nat \<Rightarrow> int \<Rightarrow> int option \<Rightarrow> 'a worker_pc \<Rightarrow> bool" where
  "looking k t r Blocked = False"
| "looking k t r (PredDeque l) = (l < k \<or> l = k \<and> (\<forall>b. r = Some b \<longrightarrow> t < b))"
| "looking k t r _ = True"

definition will_look :: "'a fine \<Rightarrow> nat \<Rightarrow> nat \<Rightarrow> bool" where
  "will_look f j k = looking k (dtop (deques (ctl f) ! k)) (regs f ! j) (workers (ctl f) ! j)"

text \<open>Tasks are offered in the memory of a deque once their \<open>enqueue\<close> has returned.\<close>

definition visible :: "'a work_stealing_deque \<Rightarrow> bool" where
  "visible q \<longleftrightarrow> dtop q < dbottom q"

definition offers :: "'a fine \<Rightarrow> nat \<Rightarrow> bool" where
  "offers f k \<longleftrightarrow> visible (deques (ctl f) ! k) \<and> \<not> in_enqueue (workers (ctl f) ! k) \<and> \<not> stop_flag (ctl f)"

section \<open>The invariant\<close>

definition served :: "'a fine \<Rightarrow> bool" where
  "served f \<longleftrightarrow> (2 \<le> length (workers (ctl f)) \<longrightarrow>
     (\<forall>k < length (workers (ctl f)). offers f k \<longrightarrow> (\<exists>j < length (workers (ctl f)). j \<noteq> k \<and> will_look f j k)))"

text \<open>A value of \<open>bottom_\<close> that a predicate has loaded is only outdated by a push whose \<open>enqueue\<close> has not returned.\<close>

definition fresh_regs :: "'a fine \<Rightarrow> bool" where
  "fresh_regs f \<longleftrightarrow> (\<forall>j < length (workers (ctl f)). \<forall>k < length (workers (ctl f)). \<forall>b.
     workers (ctl f) ! j = PredDeque k \<and> regs f ! j = Some b \<and> b < dbottom (deques (ctl f) ! k) \<and> visible (deques (ctl f) ! k)
     \<longrightarrow> in_enqueue (workers (ctl f) ! k))"

definition regs_used :: "'a fine \<Rightarrow> bool" where
  "regs_used f \<longleftrightarrow> (\<forall>j < length (workers (ctl f)). regs f ! j \<noteq> None \<longrightarrow>
     (\<exists>k < length (workers (ctl f)). workers (ctl f) ! j = CheckDeque k \<or> workers (ctl f) ! j = PredDeque k))"

definition help_inv :: "'a fine \<Rightarrow> bool" where
  "help_inv f \<longleftrightarrow> regs_used f \<and> fresh_regs f \<and> served f"

lemma regs_usedD:
  "regs_used f \<Longrightarrow> j < length (workers (ctl f)) \<Longrightarrow> \<forall>k. workers (ctl f) ! j \<noteq> CheckDeque k \<and> workers (ctl f) ! j \<noteq> PredDeque k
   \<Longrightarrow> regs f ! j = None"
  by (auto simp: regs_used_def)

lemma fresh_regsD:
  "fresh_regs f \<Longrightarrow> j < length (workers (ctl f)) \<Longrightarrow> k < length (workers (ctl f)) \<Longrightarrow> workers (ctl f) ! j = PredDeque k \<Longrightarrow>
   regs f ! j = Some b \<Longrightarrow> b < dbottom (deques (ctl f) ! k) \<Longrightarrow> visible (deques (ctl f) ! k) \<Longrightarrow> in_enqueue (workers (ctl f) ! k)"
  by (auto simp: fresh_regs_def)

lemma served_step:
  assumes "served f" and "length (workers (ctl f')) = length (workers (ctl f))"
    and "\<And>k. k < length (workers (ctl f)) \<Longrightarrow> offers f' k \<Longrightarrow> offers f k"
    and "\<And>j k. j < length (workers (ctl f)) \<Longrightarrow> k < length (workers (ctl f)) \<Longrightarrow> j \<noteq> k \<Longrightarrow> offers f' k \<Longrightarrow> will_look f j k \<Longrightarrow> will_look f' j k"
  shows "served f'"
  using assms unfolding served_def by metis

subsection \<open>Moves of the control\<close>

text \<open>A worker moves on outside \<open>has_local_work\<close>, and neither falls asleep nor returns from \<open>enqueue\<close>.\<close>

definition advances :: "'a worker_pc \<Rightarrow> 'a worker_pc \<Rightarrow> bool" where
  "advances pc pc' \<longleftrightarrow> (\<forall>k. pc \<noteq> CheckDeque k \<and> pc \<noteq> PredDeque k) \<and> pc' \<noteq> Blocked \<and> (\<forall>k. pc' = PredDeque k \<longrightarrow> k = 0) \<and>
     (in_enqueue pc \<longrightarrow> in_enqueue pc')"

definition control_moves :: "nat \<Rightarrow> 'a pool \<Rightarrow> 'a pool \<Rightarrow> bool" where
  "control_moves i p p' \<longleftrightarrow> deques p' = deques p \<and> length (workers p') = length (workers p) \<and> (stop_flag p \<longrightarrow> stop_flag p') \<and>
     (\<forall>j < length (workers p). workers p' ! j = workers p ! j \<or> workers p ! j = Blocked \<and> workers p' ! j = Woken \<or>
        j = i \<and> advances (workers p ! j) (workers p' ! j))"

lemma help_control:
  assumes inv: "help_inv f" and moves: "control_moves i (ctl f) p'"
  shows "help_inv (f\<lparr>ctl := p'\<rparr>)"
proof -
  let ?p = "ctl f"
  have frame: "deques p' = deques ?p" "length (workers p') = length (workers ?p)" "stop_flag ?p \<longrightarrow> stop_flag p'"
    and cases: "j < length (workers ?p) \<Longrightarrow> workers p' ! j = workers ?p ! j \<or> workers ?p ! j = Blocked \<and> workers p' ! j = Woken \<or>
        advances (workers ?p ! j) (workers p' ! j)" for j
    using moves by (auto simp: control_moves_def)
  have regs: "regs_used f" and fresh: "fresh_regs f" and served: "served f" using inv by (auto simp: help_inv_def)
  have enq: "in_enqueue (workers p' ! k)" if "in_enqueue (workers ?p ! k)" "k < length (workers ?p)" for k
    using cases [OF that(2)] that(1) by (auto simp: advances_def in_enqueue_def)
  have none: "regs f ! j = None" if "j < length (workers ?p)" "workers p' ! j \<noteq> workers ?p ! j" for j
    using regs_usedD [OF regs that(1)] cases [OF that(1)] that(2) by (auto simp: advances_def)
  have "regs_used (f\<lparr>ctl := p'\<rparr>)"
    using regs none frame by (fastforce simp: regs_used_def)
  moreover have "fresh_regs (f\<lparr>ctl := p'\<rparr>)"
    using fresh none frame enq by (fastforce simp: fresh_regs_def)
  moreover have "served (f\<lparr>ctl := p'\<rparr>)"
  proof (rule served_step [OF served])
    fix j k assume jk: "j < length (workers ?p)" "k < length (workers ?p)" and "will_look f j k"
    show "will_look (f\<lparr>ctl := p'\<rparr>) j k"
    proof (cases "workers p' ! j = workers ?p ! j")
      case True
      then show ?thesis using \<open>will_look f j k\<close> frame by (simp add: will_look_def)
    next
      case False
      then show ?thesis
        using cases [OF jk(1)] none [OF jk(1)] by (cases "workers p' ! j") (auto simp: will_look_def advances_def)
    qed
  qed (use frame enq in \<open>auto simp: offers_def\<close>)
  ultimately show ?thesis by (simp add: help_inv_def)
qed

lemma control_set_worker:
  assumes "workers q = workers p" "deques q = deques p" "stop_flag q = stop_flag p" "advances (workers p ! i) pc"
  shows "control_moves i p (set_worker i pc q)"
  using assms by (auto simp: control_moves_def set_worker_def nth_update_cases)

lemma help_at_pc:
  "help_inv f \<Longrightarrow> advances (workers (ctl f) ! i) pc \<Longrightarrow> help_inv (at_pc i pc f)"
  unfolding at_pc_def by (rule help_control [of _ i]) (simp_all add: control_set_worker)

subsection \<open>Accesses to a deque\<close>

lemma shrinks_visible: "shrinks q q' \<Longrightarrow> visible q' \<Longrightarrow> visible q \<and> dbottom q' \<le> dbottom q \<and> dtop q \<le> dtop q'"
  by (auto simp: shrinks_def visible_def)

lemma help_put:
  assumes inv: "help_inv f" and fine: "fine_inv f" and shrinks: "shrinks (deq (dqs f ! t)) (deq s)"
  shows "help_inv (put_deque t s f)"
proof -
  let ?p = "ctl f" and ?p' = "ctl (put_deque t s f)"
  have regs: "regs_used f" and fresh: "fresh_regs f" and served: "served f" using inv by (auto simp: help_inv_def)
  have same: "workers ?p' = workers ?p" "regs (put_deque t s f) = regs f" "stop_flag ?p' = stop_flag ?p"
    by (simp_all add: put_deque_def)
  have less: "visible (deques ?p' ! k) \<Longrightarrow>
      visible (deques ?p ! k) \<and> dbottom (deques ?p' ! k) \<le> dbottom (deques ?p ! k) \<and> dtop (deques ?p ! k) \<le> dtop (deques ?p' ! k)"
    if "k < length (workers ?p)" for k
    using that fine shrinks_visible [OF shrinks] by (cases "k = t") (auto simp: put_deque_def fine_inv_def)
  have "fresh_regs (put_deque t s f)"
    using fresh less by (fastforce simp: fresh_regs_def same)
  moreover have "served (put_deque t s f)"
  proof (rule served_step [OF served])
    fix j k assume jk: "j < length (workers ?p)" "k < length (workers ?p)" and offers: "offers (put_deque t s f) k" and look: "will_look f j k"
    have vis: "visible (deques ?p' ! k)" "\<not> in_enqueue (workers ?p ! k)" using offers by (auto simp: offers_def same)
    have "dtop (deques ?p' ! k) < b" if "workers ?p ! j = PredDeque k" "regs f ! j = Some b" for b
      using fresh_regsD [OF fresh jk that] less [OF jk(2) vis(1)] vis by (fastforce simp: visible_def)
    with look show "will_look (put_deque t s f) j k"
      by (cases "workers ?p ! j") (auto simp: will_look_def same)
  qed (use less in \<open>auto simp: offers_def same\<close>)
  ultimately show ?thesis using regs by (simp add: help_inv_def regs_used_def same)
qed

text \<open>The last access of a push, after which the worker goes on in \<open>enqueue\<close>.\<close>

lemma help_push:
  assumes inv: "help_inv f" and i: "i < length (workers (ctl f))" and pc: "workers (ctl f) ! i = Run t"
    and f': "regs f' = regs f" "workers (ctl f') = (workers (ctl f))[i := RunNotify t]" "stop_flag (ctl f') = stop_flag (ctl f)"
      "deques (ctl f') = (deques (ctl f))[i := q]"
  shows "help_inv f'"
proof -
  have enq: "in_enqueue (RunNotify t)" "\<not> in_enqueue (Run t)" by (auto simp: in_enqueue_def)
  have "regs_used f'" using inv pc by (fastforce simp: help_inv_def regs_used_def f' nth_update_cases)
  moreover have "fresh_regs f'"
    using inv enq by (auto simp: help_inv_def fresh_regs_def f' nth_update_cases)
  moreover have "served f'"
  proof (rule served_step [of f])
    fix j k assume "j < length (workers (ctl f))" "k < length (workers (ctl f))" "offers f' k" "will_look f j k"
    moreover from this have "k \<noteq> i" using i enq by (auto simp: offers_def f')
    ultimately show "will_look f' j k" by (auto simp: will_look_def f' nth_update_cases)
  qed (use inv i enq in \<open>auto simp: help_inv_def offers_def f' nth_update_cases split: if_splits\<close>)
  ultimately show ?thesis by (simp add: help_inv_def)
qed

subsection \<open>Checks of the deques\<close>

text \<open>A step that only changes the place of worker \<open>i\<close> in \<open>has_local_work\<close>.\<close>

lemma help_check:
  assumes inv: "help_inv f" and i: "i < length (workers (ctl f))" "length (regs f) = length (workers (ctl f))"
    and pc: "\<not> in_enqueue (workers (ctl f) ! i)" "\<not> in_enqueue pc'"
    and f': "regs f' = (regs f)[i := r]" "workers (ctl f') = (workers (ctl f))[i := pc']" "stop_flag (ctl f') = stop_flag (ctl f)"
      "deques (ctl f') = deques (ctl f)"
    and used: "r \<noteq> None \<Longrightarrow> \<exists>k < length (workers (ctl f)). pc' = CheckDeque k \<or> pc' = PredDeque k"
    and fresh: "\<And>k b. pc' = PredDeque k \<Longrightarrow> r = Some b \<Longrightarrow> dbottom (deques (ctl f) ! k) \<le> b"
    and look: "\<And>k. k < length (workers (ctl f)) \<Longrightarrow> offers f k \<Longrightarrow> will_look f i k \<Longrightarrow> looking k (dtop (deques (ctl f) ! k)) r pc'"
  shows "help_inv f'"
proof -
  have "regs_used f'" using inv used i by (auto simp: help_inv_def regs_used_def f' nth_update_cases)
  moreover have "fresh_regs f'"
    unfolding fresh_regs_def
  proof (intro allI impI, elim conjE)
    fix j k b
    assume jk: "j < length (workers (ctl f'))" "k < length (workers (ctl f'))" "workers (ctl f') ! j = PredDeque k" "regs f' ! j = Some b"
      "b < dbottom (deques (ctl f') ! k)" "visible (deques (ctl f') ! k)"
    have "j \<noteq> i" using jk fresh [of k b] i by (auto simp: f')
    then have "in_enqueue (workers (ctl f) ! k)" using jk inv fresh_regsD [of f j k b] by (simp add: help_inv_def f')
    then show "in_enqueue (workers (ctl f') ! k)" using pc(1) by (auto simp: f' nth_update_cases)
  qed
  moreover have "served f'"
  proof (rule served_step [of f])
    fix k assume "offers f' k"
    then show "offers f k" using pc by (auto simp: offers_def f' nth_update_cases split: if_splits)
    fix j assume "j < length (workers (ctl f))" "k < length (workers (ctl f))" "will_look f j k"
    then show "will_look f' j k"
      using look [of k] \<open>offers f k\<close> i by (cases "j = i") (simp_all add: will_look_def f')
  qed (use inv in \<open>simp_all add: help_inv_def f'\<close>)
  ultimately show ?thesis by (simp add: help_inv_def)
qed

lemma help_has_local_work:
  assumes inv: "help_inv f" and fine: "fine_inv f" and step: "fine_worker i f = Some f'"
    and pc: "workers (ctl f) ! i = CheckDeque l \<or> workers (ctl f) ! i = PredDeque l"
  shows "help_inv f'"
proof -
  have i: "i < length (workers (ctl f))" using step by (auto simp: fine_worker_def Let_def split: if_splits)
  have len: "length (regs f) = length (workers (ctl f))" "length (deques (ctl f)) = length (workers (ctl f))"
    using fine by (auto simp: fine_inv_def)
  have regs: "regs_used f" and fresh: "fresh_regs f" using inv by (auto simp: help_inv_def)
  have outdated: "\<not> b \<le> dtop (deques (ctl f) ! l)"
    if "workers (ctl f) ! i = PredDeque l" "regs f ! i = Some b" "l < length (workers (ctl f))" "offers f l" for b
    using fresh_regsD [OF fresh i that(3,1,2)] that(4) by (fastforce simp: offers_def visible_def)
  have none: "regs f ! i = None" if "\<not> l < length (workers (ctl f))"
    using regs i pc that by (auto simp: regs_used_def)
  then have same: "regs f = (regs f)[i := None]" if "\<not> l < length (workers (ctl f))"
    using that by (metis list_update_id)
  note unfold = fine_worker_def fine_empty_def at_pc_def set_worker_def Let_def
  have f': "regs f' = (regs f)[i := regs f' ! i]" "workers (ctl f') = (workers (ctl f))[i := workers (ctl f') ! i]"
    "stop_flag (ctl f') = stop_flag (ctl f)" "deques (ctl f') = deques (ctl f)"
    using pc step i len same
    by (auto simp: unfold split: if_splits option.splits simp: eq_commute [of _ "(workers (ctl f))[_ := _]"] list_update_same_conv)
  consider (load) "l < length (workers (ctl f))" "regs f' ! i = Some (dbottom (deques (ctl f) ! l))" "regs f ! i = None"
      "workers (ctl f') ! i = workers (ctl f) ! i"
    | (check) "regs f' ! i = None" "workers (ctl f') ! i \<in> {CheckDeque (l + 1), Fetch, IncSleeping, DecSleeping}"
    | (pass) b where "regs f' ! i = None" "workers (ctl f') ! i = PredDeque (l + 1)" "workers (ctl f) ! i = PredDeque l"
      "regs f ! i = Some b" "b \<le> dtop (deques (ctl f) ! l)" "l < length (workers (ctl f))"
    | (sleep) "regs f' ! i = None" "workers (ctl f) ! i = PredDeque l" "\<not> l < length (workers (ctl f))"
    using pc step i len none by (auto simp: unfold split: if_splits option.splits)
  then show ?thesis
  proof cases
    case load
    then show ?thesis
      by (intro help_check [OF inv i len(1) _ _ f'])
        (use pc in \<open>auto simp: in_enqueue_def will_look_def offers_def visible_def\<close>)
  next
    case check
    then show ?thesis
      by (intro help_check [OF inv i len(1) _ _ f']) (use pc in \<open>auto simp: in_enqueue_def\<close>)
  next
    case (pass b)
    then show ?thesis
      by (intro help_check [OF inv i len(1) _ _ f'])
        (use outdated in \<open>auto simp: in_enqueue_def will_look_def\<close>)
  next
    case sleep
    moreover from this have "workers (ctl f') ! i = Blocked" using step i len by (auto simp: unfold)
    ultimately show ?thesis
      by (intro help_check [OF inv i len(1) _ _ f']) (auto simp: in_enqueue_def will_look_def)
  qed
qed

subsection \<open>Returns from \<open>enqueue\<close>\<close>

text \<open>Nobody is in the predicate of its wait, and a worker other than \<open>i\<close> is awake.\<close>

lemma help_return:
  assumes inv: "help_inv f" and i: "i < length (workers (ctl f))" "in_enqueue (workers (ctl f) ! i)"
    and frame: "deques p' = deques (ctl f)" "stop_flag p' = stop_flag (ctl f)" "length (workers p') = length (workers (ctl f))"
    and others: "\<And>j. j < length (workers (ctl f)) \<Longrightarrow> j \<noteq> i \<Longrightarrow>
      workers p' ! j = workers (ctl f) ! j \<or> workers (ctl f) ! j = Blocked \<and> workers p' ! j = Woken"
    and pc': "workers p' ! i = Run t"
    and pred: "\<And>j k. j < length (workers (ctl f)) \<Longrightarrow> workers (ctl f) ! j \<noteq> PredDeque k"
    and awake: "2 \<le> length (workers (ctl f)) \<Longrightarrow> \<exists>j < length (workers (ctl f)). j \<noteq> i \<and> workers p' ! j \<noteq> Blocked"
  shows "help_inv (f\<lparr>ctl := p'\<rparr>)"
proof -
  let ?f' = "f\<lparr>ctl := p'\<rparr>" and ?n = "length (workers (ctl f))"
  have pred': "workers p' ! j \<noteq> PredDeque k" if "j < ?n" for j k
    using others [OF that] pred [OF that, of k] pc' by (cases "j = i") auto
  have look: "will_look ?f' j k" if "j < ?n" "workers p' ! j \<noteq> Blocked" for j k
    using pred' [OF that(1)] that(2) by (cases "workers p' ! j") (auto simp: will_look_def)
  have "regs f ! j = None" if "j < ?n" "workers p' ! j \<noteq> workers (ctl f) ! j" for j
    using regs_usedD [of f j] inv i others [OF that(1)] that by (cases "j = i") (auto simp: help_inv_def in_enqueue_def)
  then have "regs_used ?f'"
    using inv frame(3) by (fastforce simp: help_inv_def regs_used_def)
  moreover have "fresh_regs ?f'"
    using pred' frame(3) by (auto simp: fresh_regs_def)
  moreover have "served ?f'"
    unfolding served_def
  proof (intro impI allI)
    fix k assume n: "2 \<le> length (workers (ctl ?f'))" and k: "k < length (workers (ctl ?f'))" and offers: "offers ?f' k"
    show "\<exists>j < length (workers (ctl ?f')). j \<noteq> k \<and> will_look ?f' j k"
    proof (cases "k = i")
      case True
      then show ?thesis using awake n look frame(3) by fastforce
    next
      case False
      then have "offers f k" using offers others [of k] k frame by (auto simp: offers_def in_enqueue_def)
      then obtain j where j: "j < ?n" "j \<noteq> k" "will_look f j k"
        using inv n k frame(3) by (auto simp: help_inv_def served_def)
      then have "workers p' ! j \<noteq> Blocked" using others [of j] pc' by (cases "j = i") (auto simp: will_look_def)
      then show ?thesis using j look frame(3) by auto
    qed
  qed
  ultimately show ?thesis by (simp add: help_inv_def)
qed

lemma control_notify_one: "notify_one w p = Some q \<Longrightarrow> control_moves i p q"
  by (auto simp: notify_one_def control_moves_def set_worker_def nth_update_cases split: if_splits)

lemma other_worker: "2 \<le> n \<Longrightarrow> \<exists>j < n. j \<noteq> (i :: nat)"
  by (rule exI [of _ "if i = 0 then 1 else 0"]) auto

lemma awake_if_uncounted:
  assumes "lock_inv p" and "\<not> 0 < sleeping p" and "j < length (workers p)"
  shows "\<not> counted (workers p ! j)"
  using assms by (auto simp: lock_inv_def filter_empty_conv)

text \<open>A worker that can lock the mutex wakes another one, or none was asleep.\<close>

lemma awake_if_notified:
  assumes "notify_one w p = Some q" and "in_enqueue (workers p ! i)" and "2 \<le> length (workers p)"
  shows "\<exists>j < length (workers p). j \<noteq> i \<and> workers q ! j \<noteq> Blocked"
proof (cases "Blocked \<in> set (workers p)")
  case True
  then show ?thesis
    using assms by (intro exI [of _ w]) (auto simp: notify_one_def set_worker_def in_enqueue_def split: if_splits)
next
  case False
  then show ?thesis
    using assms(1) other_worker [OF assms(3), of i] by (auto simp: notify_one_def) (metis nth_mem)
qed

lemma help_task_step:
  assumes inv: "help_inv f" and lock: "lock_inv (ctl f)" and step: "task_step i w (ctl f) = Some p'"
  shows "help_inv (f\<lparr>ctl := p'\<rparr>)"
proof -
  let ?p = "ctl f"
  have i: "i < length (workers ?p)" using step by (auto simp: task_step_def split: if_splits)
  consider t where "workers ?p ! i = Run t" | t where "workers ?p ! i = RunNotify t" "0 < sleeping ?p"
    | t where "workers ?p ! i = RunNotify t" "\<not> 0 < sleeping ?p" | t where "workers ?p ! i = RunLock t"
    using step i by (auto simp: task_step_def split: worker_pc.splits)
  then show ?thesis
  proof cases
    case 1
    then show ?thesis
      using step i by (intro help_control [OF inv, of i]) (auto simp: task_step_def advances_def in_enqueue_def intro!: control_set_worker)
  next
    case 2
    then show ?thesis
      using step i by (intro help_control [OF inv, of i]) (auto simp: task_step_def advances_def in_enqueue_def intro!: control_set_worker)
  next
    case (3 t)
    then have p': "p' = set_worker i (Run t) ?p" using step i by (simp add: task_step_def)
    note uncounted = awake_if_uncounted [OF lock 3(2)]
    show ?thesis
      unfolding p'
    proof (rule help_return [OF inv i])
      show "workers ?p ! j \<noteq> PredDeque k" if "j < length (workers ?p)" for j k using uncounted [OF that] by auto
      show "\<exists>j < length (workers ?p). j \<noteq> i \<and> workers (set_worker i (Run t) ?p) ! j \<noteq> Blocked" if "2 \<le> length (workers ?p)"
        using other_worker [OF that, of i] uncounted by (fastforce simp: set_worker_def)
    qed (use 3 i in \<open>auto simp: set_worker_def in_enqueue_def\<close>)
  next
    case (4 t)
    then obtain q where q: "notify_one w ?p = Some q" "p' = set_worker i (Run t) q" and free: "mutex_owner ?p = None"
      using step i by (auto simp: task_step_def split: if_splits)
    have enq: "in_enqueue (workers ?p ! i)" using 4 by (simp add: in_enqueue_def)
    note moves = control_notify_one [OF q(1), of i, unfolded control_moves_def]
    show ?thesis
    proof (rule help_return [OF inv i enq])
      show "workers ?p ! j \<noteq> PredDeque k" if "j < length (workers ?p)" for j k
        using lock free that by (fastforce simp: lock_inv_def)
      show "\<exists>j < length (workers ?p). j \<noteq> i \<and> workers p' ! j \<noteq> Blocked" if "2 \<le> length (workers ?p)"
        using awake_if_notified [OF q(1) enq that] by (auto simp: q(2) set_worker_def)
    qed (use i q moves notify_one_frame [OF q(1)] in \<open>auto simp: set_worker_def\<close>)
  qed
qed

section \<open>Preservation\<close>

lemma help_plain:
  assumes "worker_step i lost p = Some p'" and "plain (workers p ! i)"
  shows "control_moves i p p'"
  using assms
  by (cases "workers p ! i")
    (auto simp: worker_step_def fetch_global_def steal_entry_def steal_failed_def advances_def in_enqueue_def Let_def
      split: prod.splits if_splits option.splits steal_ctx.splits intro!: control_set_worker)

lemma help_fetch:
  assumes inv: "help_inv f" and fine: "fine_inv f" and i: "i < length (workers (ctl f))" and pc: "workers (ctl f) ! i = Fetch"
    and step: "fine_fetch i f = Some f'"
  shows "help_inv f'"
proof (cases "owner (dqs f ! i) = OwnerIdle")
  case True
  then show ?thesis using step help_put [OF inv fine] by (auto simp: fine_fetch_def call_pop_def Let_def)
next
  case False
  then obtain s' pc' where s': "owner_step (dqs f ! i) = Some s'"
    and f': "f' = put_deque i s' f \<or> f' = at_pc i pc' (put_deque i s' f)" and pc': "pc' = FetchGlobal \<or> (\<exists>x. pc' = Run x)"
    using step by (auto simp: fine_fetch_def split: option.splits if_splits)
  have "\<not> pushing (dqs f ! i)"
    using fine i pc False by (auto simp: fine_inv_def in_call_def pushing_def split: if_splits)
  then have "help_inv (put_deque i s' f)"
    using help_put [OF inv fine] shrinks_owner [OF fine_inv_deque [OF fine i] s'] by blast
  then show ?thesis
    using f' pc pc' help_at_pc [of "put_deque i s' f" i pc'] by (auto simp: advances_def put_deque_def in_enqueue_def)
qed

lemma help_probe:
  assumes inv: "help_inv f" and fine: "fine_inv f" and pc: "workers (ctl f) ! i = Probe c start k"
    and step: "fine_probe i c start k f = Some f'"
  shows "help_inv f'"
proof -
  let ?t = "probe_target start (length (dqs f)) k"
  have moves: "help_inv (at_pc i pc' g)"
    if "help_inv g" "workers (ctl g) = workers (ctl f)" "pc' = Probe c start (k + 1) \<or> pc' = steal_failed c \<or> (\<exists>x. pc' = Run x)" for g pc'
    using that pc help_at_pc [of g i pc'] by (auto simp: advances_def in_enqueue_def steal_failed_def split: steal_ctx.splits)
  have "help_inv (put_deque ?t s' f)" if "thief_step i (dqs f ! ?t) = Some s'" for s'
    by (rule help_put [OF inv fine shrinks_thief [OF that]])
  moreover have "help_inv (put_deque ?t s' f)" if "call_steal i (dqs f ! ?t) = Some s'" for s'
    by (rule help_put [OF inv fine]) (use that in \<open>auto simp: call_steal_def set_thief_def split: thief_pc.splits\<close>)
  ultimately show ?thesis
    using step inv moves [OF inv] moves [of "put_deque ?t s' f" for s']
    by (cases "k < length (dqs f)"; cases "?t = i"; cases "thieves (dqs f ! ?t) i = ThiefIdle")
      (auto simp: fine_probe_def Let_def split: if_splits option.splits)
qed

lemma help_worker:
  assumes inv: "help_inv f" and fine: "fine_inv f" and step: "fine_worker i f = Some f'"
  shows "help_inv f'"
proof -
  have i: "i < length (workers (ctl f))" using step by (auto simp: fine_worker_def Let_def split: if_splits)
  show ?thesis
  proof (cases "plain (workers (ctl f) ! i)")
    case True
    then obtain p' where "worker_step i False (ctl f) = Some p'" "f' = f\<lparr>ctl := p'\<rparr>"
      using step i by (cases "workers (ctl f) ! i") (auto simp: fine_worker_def)
    then show ?thesis using help_control [OF inv] help_plain True by blast
  next
    case False
    then show ?thesis
      using step i help_fetch [OF inv fine i] help_probe [OF inv fine] help_has_local_work [OF inv fine step]
      by (cases "workers (ctl f) ! i") (auto simp: fine_worker_def)
  qed
qed

lemma help_task:
  assumes inv: "help_inv f" and fine: "fine_inv f" and lock: "lock_inv (ctl f)" and step: "fine_task i w f = Some f'"
  shows "help_inv f'"
proof (cases "i < length (workers (ctl f)) \<and> owner (dqs f ! i) \<noteq> OwnerIdle")
  case True
  then obtain t s' where pc: "workers (ctl f) ! i = Run t" and s': "owner_step (dqs f ! i) = Some s'"
    and f': "f' = (let g = put_deque i s' f in if owner s' = OwnerIdle
      then at_pc i (RunNotify t) (g\<lparr>ctl := (ctl g)\<lparr>submitted := submitted (ctl f) @ [the (returned s')]\<rparr>\<rparr>) else g)"
    using step by (auto simp: fine_task_def Let_def split: worker_pc.splits)
  have "\<not> popping (owner (dqs f ! i))"
    using fine True pc by (auto simp: fine_inv_def in_call_def split: if_splits)
  then have "owner s' \<noteq> OwnerIdle \<Longrightarrow> shrinks (deq (dqs f ! i)) (deq s')"
    using s' by (cases "owner (dqs f ! i)") (auto simp: owner_step_def shrinks_def Let_def)
  then show ?thesis
    using help_put [OF inv fine] help_push [OF inv _ pc, of f' "deq s'"] True
    by (cases "owner s' = OwnerIdle") (simp_all add: f' put_deque_def at_pc_def set_worker_def)
next
  case False
  then show ?thesis using step help_task_step [OF inv lock] by (auto simp: fine_task_def Let_def)
qed

lemma control_set_client [simp]: "control_moves i p (set_client j c q) = control_moves i p q"
  by (simp add: control_moves_def set_client_def)

lemma control_same: "workers p' = workers p \<Longrightarrow> deques p' = deques p \<Longrightarrow> (stop_flag p \<longrightarrow> stop_flag p') \<Longrightarrow> control_moves i p p'"
  by (simp add: control_moves_def)

lemma control_client_enqueue: "client_enqueue j x p = Some p' \<Longrightarrow> control_moves i p p'"
  by (auto simp: client_enqueue_def push_global_def control_same split: if_splits)

lemma control_client_step: "client_step j w p = Some p' \<Longrightarrow> control_moves i p p'"
  by (cases "clients p ! j") (auto simp: client_step_def control_same control_notify_one split: if_splits)

lemma control_spurious_wake: "spurious_wake k p = Some p' \<Longrightarrow> control_moves i p p'"
  by (auto simp: spurious_wake_def control_moves_def set_worker_def nth_update_cases split: if_splits)

lemma control_destroy_step: "destroy_step p = Some p' \<Longrightarrow> control_moves i p p'"
  by (auto simp: destroy_step_def control_moves_def notify_all_def split: if_splits destroy_pc.splits)

lemma help_step:
  assumes inv: "help_inv f" and fine: "fine_inv f" and lock: "lock_inv (ctl f)" and step: "fine_step a f = Some f'"
  shows "help_inv f'"
proof (cases a)
  case (TaskEnqueue i x)
  then show ?thesis
    using step help_put [OF inv fine] by (auto simp: fine_task_enqueue_def call_push_def split: if_splits worker_pc.splits owner_pc.splits)
qed (use step in \<open>auto intro: help_worker [OF inv fine] help_task [OF inv fine lock] help_control [OF inv, of 0]
      control_client_enqueue control_client_step control_spurious_wake control_destroy_step\<close>)

text \<open>The mutex and the number of sleepers are those of the atomic pool.\<close>

lemma view_lock:
  assumes "settled D p" and "lock_inv (view D ds p)"
  shows "lock_inv p"
proof -
  have len: "length D = length (workers p)" using assms(1) by (rule settled_length)
  have same: "holds_mutex (apc (D ! i) (workers p ! i)) = holds_mutex (workers p ! i)"
    "counted (apc (D ! i) (workers p ! i)) = counted (workers p ! i)" if "i < length (workers p)" for i
    using assms(1) that by (auto simp: settled_def apc_def split: option.splits)
  have "map counted (map2 apc D (workers p)) = map counted (workers p)"
    using len same by (intro nth_equalityI) auto
  then have "length (filter counted (map2 apc D (workers p))) = length (filter counted (workers p))"
    using filter_map [of id counted] by (metis id_comp length_map)
  then show ?thesis using assms(2) len same by (simp add: lock_inv_def view_def)
qed

definition fine_sound :: "'a fine \<Rightarrow> bool" where
  "fine_sound f \<longleftrightarrow> fine_inv f \<and> (\<exists>ds. same_stored (dqs f) ds \<and> pool_inv (pool_view ds f)) \<and> help_inv f"

lemma help_ctor: "help_inv (fine_ctor n m)"
  by (auto simp: help_inv_def regs_used_def fresh_regs_def served_def offers_def visible_def fine_ctor_def pool_ctor_def
      init_deque_def Let_def)

interpretation helped: invariant_system "fine_ctor n m" fine_step fine_sound for n m
proof unfold_locales
  have "fine_inv (fine_ctor n m :: 'a fine) \<and> (\<exists>ds. same_stored (dqs (fine_ctor n m :: 'a fine)) ds \<and> pool_inv (pool_view ds (fine_ctor n m)))"
    by (rule fine_reached [of "[]"]) simp
  then show "fine_sound (fine_ctor n m :: 'a fine)" using help_ctor by (simp add: fine_sound_def)
  fix a :: "'a pool_action" and f f' :: "'a fine"
  assume sound: "fine_sound f" and step: "fine_step a f = Some f'"
  then obtain ds where fine: "fine_inv f" and ds: "same_stored (dqs f) ds" "pool_inv (pool_view ds f)" and inv: "help_inv f"
    by (auto simp: fine_sound_def)
  obtain ds' where "fine_inv f'" "same_stored (dqs f') ds'"
    "pool_view ds' f' = pool_view ds f \<or> (\<exists>b. pool_step b (pool_view ds f) = Some (pool_view ds' f'))"
    using simulated_step [OF fine step] ds(1) unfolding simulated_def by blast
  moreover from this have "pool_inv (pool_view ds' f')" using ds(2) pool.inv_step by metis
  moreover have "lock_inv (ctl f)" using view_lock [OF fine_inv_settled [OF fine]] ds(2) by (auto simp: pool_inv_def)
  then have "help_inv f'" by (rule help_step [OF inv fine _ step])
  ultimately show "fine_sound f'" by (auto simp: fine_sound_def)
qed

text \<open>Unless the owner is inside \<open>pop\<close>, the tasks of a deque are visible in its memory.\<close>

lemma stored_visible: "\<not> popping (owner s) \<Longrightarrow> visible (deq s) \<longleftrightarrow> stored s \<noteq> []"
  by (cases "owner s") (auto simp: abs_deque_sel(1) visible_def window_eq_Nil_iff)

section \<open>Executions\<close>

lemma pool_ctor_two:
  "pool_ctor 2 m =
     \<lparr>gqueue = gq_init, deques = [init_deque default_capacity, init_deque default_capacity], workers = [Fetch, Fetch],
      rngs = [rng_seed 0, rng_seed 1], stop_flag = False, sleeping = 0,
      mutex_owner = None, clients = replicate m ClientIdle, destroyer = NotDestroyed,
      submitted = [], finished = []\<rparr>"
  by (simp add: pool_ctor_def Let_def numeral_2_eq_2)

text \<open>Worker 0 of two runs task \<open>x\<close>, which enqueues \<open>y\<close>.\<close>

lemma help_run:
  "\<exists>f. exec fine_step (miss_setup x y) (fine_ctor 2 1) = Some f \<and> workers (ctl f) = [Run x, Fetch] \<and>
     owner (dqs f ! 0) = OwnerIdle \<and> stored (dqs f ! 0) \<noteq> [] \<and> \<not> stop_flag (ctl f)"
  by (simp add: miss_setup_def pool_ctor_two fine_eval fine_task_enqueue_def call_push_def ensure_room_def
      abs_deque_sel(1) window_eq_Nil_iff)

section \<open>Properties\<close>

text \<open>
  C5. A task that a running task enqueues does not depend on the running task to return: in a pool of two or more workers that is not
  being destroyed, whenever the deque of a worker stores tasks, no \<open>pop\<close> of that worker is in progress and its last
  \<open>enqueue\<close> has returned, another worker is awake and has yet to look at that deque before it can fall asleep; if it has already
  loaded \<open>bottom_\<close> for its predicate, the value tells it that the deque is not empty.
\<close>

theorem local_tasks_find_helper:
  assumes "exec fine_step as (fine_ctor n m) = Some f" and "2 \<le> length (workers (ctl f))" and "k < length (workers (ctl f))"
    and "stored (dqs f ! k) \<noteq> []" and "\<not> popping (owner (dqs f ! k))" and "\<not> in_enqueue (workers (ctl f) ! k)"
    and "\<not> stop_flag (ctl f)"
  shows "\<exists>j < length (workers (ctl f)). j \<noteq> k \<and> workers (ctl f) ! j \<noteq> Blocked \<and> will_look f j k"
proof -
  have "fine_sound f" using helped.inv_reach [OF exec_reach [OF assms(1)]] .
  then have fine: "fine_inv f" and served: "served f" by (auto simp: fine_sound_def help_inv_def)
  have "offers f k"
    using fine assms(3-7) stored_visible [of "dqs f ! k"] by (simp add: offers_def fine_inv_def)
  then obtain j where "j < length (workers (ctl f))" "j \<noteq> k" "will_look f j k" using served assms(2,3) by (auto simp: served_def)
  moreover from this have "workers (ctl f) ! j \<noteq> Blocked" by (auto simp: will_look_def)
  ultimately show ?thesis by blast
qed

theorem local_tasks_find_helper_witness:
  "\<exists>f. exec fine_step (miss_setup True False) (fine_ctor 2 1) = Some f \<and> workers (ctl f) ! 0 = Run True \<and>
     stored (dqs f ! 0) \<noteq> [] \<and> (\<exists>j < 2. j \<noteq> 0 \<and> workers (ctl f) ! j \<noteq> Blocked \<and> will_look f j 0)"
proof -
  obtain f where f: "exec fine_step (miss_setup True False) (fine_ctor 2 1) = Some f" "workers (ctl f) = [Run True, Fetch]"
    "owner (dqs f ! 0) = OwnerIdle" "stored (dqs f ! 0) \<noteq> []" "\<not> stop_flag (ctl f)"
    using help_run [of True False] by blast
  then have "\<not> popping (owner (dqs f ! 0))" "\<not> in_enqueue (workers (ctl f) ! 0)" by (simp_all add: in_enqueue_def)
  from local_tasks_find_helper [OF f(1) _ _ f(4) this f(5)]
  have "\<exists>j < 2. j \<noteq> 0 \<and> workers (ctl f) ! j \<noteq> Blocked \<and> will_look f j 0" by (simp add: f(2) numeral_2_eq_2)
  then show ?thesis using f by auto
qed

end
