(* ===== verification/Pool_Shutdown.thy ===== *)
theory Pool_Shutdown
  imports Pool_Wait
begin

text \<open>
  The destructor of the pool over the machine of \<open>Pool_Fine\<close>: once the workers have been notified, the accesses of
  workers and tasks come to an end, and what is left when the destructor returns.
\<close>

section \<open>A measure\<close>

text \<open>The accesses that worker \<open>i\<close> still has to make in its call on a deque.\<close>

definition access_rank :: "'a fine \<Rightarrow> nat \<Rightarrow> nat" where
  "access_rank f i =
     (let n = length (dqs f) in
      case workers (ctl f) ! i of
        Fetch \<Rightarrow> if owner (dqs f ! i) = OwnerIdle then 6 else owner_rank (owner (dqs f ! i))
      | Probe c start k \<Rightarrow>
          (let t = probe_target start n k in
           if k < n \<and> t \<noteq> i then (if thieves (dqs f ! t) i = ThiefIdle then 5 else thief_rank (thieves (dqs f ! t) i)) else 0)
      | _ \<Rightarrow> 0)"

definition call_rank :: "'a fine \<Rightarrow> nat" where
  "call_rank f = sum_list (map (access_rank f) [0..<length (dqs f)])"

definition work_rank :: "'a fine \<Rightarrow> nat" where
  "work_rank f =
     (let n = length (dqs f) in
      sum_list (map2 (\<lambda>s pc. exit_rank n (apc s pc)) (dqs f) (workers (ctl f))) + (n + 7) * length (fine_queued f))"

text \<open>Every step of the atomic pool pays for the accesses of the calls that can follow it.\<close>

definition fine_rank :: "'a fine \<Rightarrow> nat" where
  "fine_rank f = work_rank f * (6 * length (dqs f) + 1) + call_rank f"

lemma owner_rank_le: "owner_rank pc \<le> 6" and thief_rank_le: "thief_rank tp \<le> 5"
  by (cases pc; simp) (cases tp; simp)

lemma access_rank_le: "access_rank f i \<le> 6"
  using owner_rank_le le_trans [OF thief_rank_le, of 6] by (auto simp: access_rank_def Let_def split: worker_pc.splits)

lemma call_rank_le: "call_rank f \<le> 6 * length (dqs f)"
proof -
  have "sum_list (map (access_rank f) [0..<length (dqs f)]) \<le> sum_list (map (\<lambda>_. 6) [0..<length (dqs f)])"
    by (rule sum_list_mono) (rule access_rank_le)
  then show ?thesis by (simp add: call_rank_def sum_list_triv mult.commute)
qed

lemma work_rank_view: "same_stored (dqs f) ds \<Longrightarrow> work_rank f = shutdown_rank (pool_view ds f)"
  using same_stored_length [of "dqs f" ds] view_queued [of f ds]
  by (simp add: work_rank_def shutdown_rank_def Let_def view_def comp_def case_prod_unfold)

text \<open>One worker accesses a deque and the others stay where they are.\<close>

lemma call_rank_decreases:
  assumes "i < length (dqs f)" and "length (dqs f') = length (dqs f)"
    and "access_rank f' i < access_rank f i" and "\<And>j. j < length (dqs f) \<Longrightarrow> j \<noteq> i \<Longrightarrow> access_rank f' j = access_rank f j"
  shows "call_rank f' < call_rank f"
proof -
  have "map (access_rank f') [0..<length (dqs f)] = (map (access_rank f) [0..<length (dqs f)])[i := access_rank f' i]"
    using assms by (intro nth_equalityI) (auto simp: nth_update_cases)
  then show ?thesis
    using sum_list_map_update [of i "map (access_rank f) [0..<length (dqs f)]" id "access_rank f' i"] assms
    by (simp add: call_rank_def)
qed

lemma access_rank_put:
  assumes "j \<noteq> i" and "t < length (dqs f)" and "j \<noteq> t \<or> owner s' = owner (dqs f ! t)"
    and "thieves s' j = thieves (dqs f ! t) j"
  shows "access_rank (put_deque t s' f) j = access_rank f j" "access_rank (at_pc i pc (put_deque t s' f)) j = access_rank f j"
  using assms by (auto simp: access_rank_def put_deque_def at_pc_def set_worker_def Let_def nth_update_cases split: worker_pc.splits)

section \<open>Steps that the atomic pool does not see\<close>

lemma fetch_decreases:
  assumes i: "i < length (dqs f)" and pc: "workers (ctl f) ! i = Fetch" and step: "fine_fetch i f = Some f'"
    and len: "length (dqs f) = length (workers (ctl f))"
  shows "call_rank f' < call_rank f"
proof (cases "owner (dqs f ! i) = OwnerIdle")
  case True
  then obtain s' where s': "call_pop (dqs f ! i) = Some s'" "f' = put_deque i s' f"
    using step by (auto simp: fine_fetch_def Let_def)
  then have "access_rank f' i < access_rank f i" "thieves s' = thieves (dqs f ! i)"
    using True i pc by (auto simp: call_pop_def access_rank_def)
  then show ?thesis
    using i access_rank_put [of _ i i f s'] s'(2) by (intro call_rank_decreases [of i]) auto
next
  case False
  then obtain s' pc' where s': "owner_step (dqs f ! i) = Some s'"
    and f': "f' = (if owner s' = OwnerIdle then at_pc i pc' (put_deque i s' f) else put_deque i s' f)"
    and pc': "pc' = FetchGlobal \<or> (\<exists>x. pc' = Run x)"
    using step by (auto simp: fine_fetch_def Let_def split: option.splits)
  have rank: "owner_rank (owner s') < owner_rank (owner (dqs f ! i))" using owner_rank_step [OF s'] .
  have "access_rank f' i < access_rank f i"
    using rank False pc pc' i len by (auto simp: f' access_rank_def at_pc_def set_worker_def)
  then show ?thesis
    using i access_rank_put [of _ i i f s'] owner_keeps_thieves [OF s']
    by (intro call_rank_decreases [of i]) (auto simp: f')
qed

lemma probe_decreases:
  assumes i: "i < length (dqs f)" and pc: "workers (ctl f) ! i = Probe c start k" and step: "fine_probe i c start k f = Some f'"
    and len: "length (dqs f) = length (workers (ctl f))" and same: "workers (ctl f') ! i = workers (ctl f) ! i"
  shows "call_rank f' < call_rank f"
proof -
  let ?t = "probe_target start (length (dqs f)) k"
  have t: "k < length (dqs f)" "?t \<noteq> i"
    using step same pc i len by (auto simp: fine_probe_def at_pc_def set_worker_def Let_def steal_failed_def split: if_splits steal_ctx.splits)
  have tl: "?t < length (dqs f)" by (rule probe_target_less) (use t in auto)
  obtain s' where f': "f' = put_deque ?t s' f"
    and s': "if thieves (dqs f ! ?t) i = ThiefIdle then call_steal i (dqs f ! ?t) = Some s'
      else thief_step i (dqs f ! ?t) = Some s' \<and> thieves s' i \<noteq> ThiefIdle"
  proof (cases "thieves (dqs f ! ?t) i = ThiefIdle")
    case True
    then show ?thesis using step t that by (auto simp: fine_probe_def Let_def)
  next
    case False
    then obtain u where u: "thief_step i (dqs f ! ?t) = Some u"
      "f' = (if thieves u i = ThiefIdle
        then at_pc i (case returned u of Some x \<Rightarrow> Run x | None \<Rightarrow> Probe c start (k + 1)) (put_deque ?t u f) else put_deque ?t u f)"
      using step t by (auto simp: fine_probe_def Let_def)
    then have "thieves u i \<noteq> ThiefIdle" using same pc i len by (auto simp: set_worker_def split: if_splits option.splits)
    with u False that show ?thesis by simp
  qed
  have frame: "owner s' = owner (dqs f ! ?t)" "\<And>j. j \<noteq> i \<Longrightarrow> thieves s' j = thieves (dqs f ! ?t) j"
    using s' thief_step_shape [of i "dqs f ! ?t" s'] by (auto simp: call_steal_def set_thief_def split: if_splits)
  have "access_rank f' i < access_rank f i"
    using s' t tl pc thief_rank_step [of i "dqs f ! ?t" s']
    by (auto simp: f' access_rank_def Let_def call_steal_def set_thief_def split: if_splits)
  then show ?thesis
    using i access_rank_put [of _ i ?t f s'] frame tl by (intro call_rank_decreases [of i]) (auto simp: f')
qed

text \<open>A state of the shutdown, and the atomic pool it stands for.\<close>

definition fine_stopping :: "'a fine \<Rightarrow> bool" where
  "fine_stopping f \<longleftrightarrow> calm f \<and> (\<exists>ds. same_stored (dqs f) ds \<and> stopping (pool_view ds f))"

lemma stopping_view_pc:
  assumes "fine_inv f" and "stopping (pool_view ds f)" and "i < length (workers (ctl f))"
  shows "workers (ctl f) ! i \<noteq> CheckDeque k \<and> workers (ctl f) ! i \<noteq> PredDeque k"
proof -
  note settled = fine_inv_settled [OF assms(1)]
  have "\<not> sleep_bound (workers (pool_view ds f) ! i)"
    using stopping_pc [OF assms(2)] assms(3) settled by (simp add: settled_def)
  then show ?thesis
    using view_pc [OF settled assms(3), of "CheckDeque k" ds] view_pc [OF settled assms(3), of "PredDeque k" ds]
    by (metis sleep_bound.simps worker_pc.distinct)
qed

text \<open>A step that answers one of a worker or a task is one of a worker or a task.\<close>

abbreviation inner_steps :: "'a pool_action set" where
  "inner_steps \<equiv> range (case_prod WorkerStep) \<union> range (case_prod TaskStep)"

lemma inner_answer:
  assumes "stopping p" and "pool_step a p = Some p'" and "clients p' = clients p" and "submitted p' = submitted p"
    and "destroyer p' = destroyer p"
  shows "a \<in> inner_steps"
proof (cases a)
  case (ClientStep j w)
  then have "clients p' ! j \<noteq> clients p ! j \<and> j < length (clients p)"
    using assms(2)
    by (auto simp: client_step_def set_client_def dest!: notify_one_frame split: if_splits client_pc.splits)
  then show ?thesis using assms(3) by simp
next
  case (WorkerStep i lost)
  then show ?thesis by auto
next
  case (TaskStep i w)
  then show ?thesis by auto
next
  case (SpuriousWake i)
  then have "Blocked \<in> set (workers p)" using assms(2) by (auto simp: spurious_wake_def in_set_conv_nth split: if_splits)
  then show ?thesis using stopping_awake [OF assms(1)] by simp
qed (use assms in \<open>auto simp: client_enqueue_def task_enqueue_def push_global_def push_local_def
      set_client_def spurious_wake_def destroy_step_def stopping_def set_worker_def split: if_splits worker_pc.splits\<close>)

lemma worker_step_outer:
  "worker_step i lost p = Some p' \<Longrightarrow> clients p' = clients p \<and> submitted p' = submitted p \<and> destroyer p' = destroyer p"
  by (cases "workers p ! i")
    (auto simp: worker_step_def fetch_local_def fetch_global_def steal_entry_def probe_def set_worker_def Let_def split: if_splits prod.splits)

lemma task_step_outer:
  "task_step i w p = Some p' \<Longrightarrow> clients p' = clients p \<and> submitted p' = submitted p \<and> destroyer p' = destroyer p"
  by (cases "workers p ! i") (auto simp: task_step_def set_worker_def dest: notify_one_frame split: if_splits)

lemma calm_task:
  assumes "calm f" and "fine_task i w f = Some f'"
  obtains p' where "task_step i w (ctl f) = Some p'" and "f' = f\<lparr>ctl := p'\<rparr>" and "i < length (workers (ctl f))"
    and "owner (dqs f ! i) = OwnerIdle"
proof -
  have "fine_inv f" using assms(1) by (simp add: calm_def)
  have i: "i < length (workers (ctl f))"
    using assms(2) by (auto simp: fine_task_def task_step_def Let_def split: if_splits)
  have "owner (dqs f ! i) = OwnerIdle"
  proof (rule ccontr)
    assume "owner (dqs f ! i) \<noteq> OwnerIdle"
    moreover from this have "workers (ctl f) ! i = Fetch"
      using calm_nth [OF assms(1) i] \<open>fine_inv f\<close> i by (auto simp: fine_inv_def in_call_def pushing_def split: if_splits)
    ultimately show False using assms(2) i by (simp add: fine_task_def)
  qed
  then show thesis using assms(2) that i by (auto simp: fine_task_def Let_def)
qed

lemma inner_frame:
  assumes "fine_step a f = Some f'" and "a \<in> inner_steps" and "calm f"
  shows "clients (ctl f') = clients (ctl f) \<and> submitted (ctl f') = submitted (ctl f) \<and> destroyer (ctl f') = destroyer (ctl f)"
proof (cases a)
  case (WorkerStep i lost)
  then show ?thesis
    using assms(1)
    by (cases "workers (ctl f) ! i")
      (auto simp: fine_worker_def fine_fetch_def fine_probe_def fine_empty_def set_worker_def Let_def
        split: if_splits option.splits dest: worker_step_outer)
next
  case (TaskStep i w)
  then obtain p' where "task_step i w (ctl f) = Some p'" "f' = f\<lparr>ctl := p'\<rparr>"
    using assms(1) calm_task [OF assms(3), of i w f'] by auto
  then show ?thesis using task_step_outer by simp
qed (use assms(2) in auto)

text \<open>Each access decreases the measure.\<close>

lemma silent_worker:
  assumes inv: "fine_inv f" and ds: "length ds = length (deques (ctl f))" "stopping (pool_view ds f)"
    and step: "fine_worker i f = Some f'" and view: "pool_view ds f' = pool_view ds f"
  shows "call_rank f' < call_rank f"
proof -
  have i: "i < length (workers (ctl f))" using step by (auto simp: fine_worker_def Let_def split: if_splits)
  have len: "length (dqs f) = length (workers (ctl f))" using inv by (simp add: fine_inv_def)
  have inv': "fine_inv f'" using simulated_worker [OF inv step] by (simp add: simulated_def)
  show ?thesis
  proof (cases "plain (workers (ctl f) ! i)")
    case True
    then obtain p' where "worker_step i False (ctl f) = Some p'" "f' = f\<lparr>ctl := p'\<rparr>"
      using step i by (cases "workers (ctl f) ! i") (auto simp: fine_worker_def)
    then have "pool_step (WorkerStep i False) (pool_view ds f) = Some (pool_view ds f')"
      using mirrors_worker_step [OF fine_inv_settled [OF inv] i True ds(1), of False] by (simp add: mirrors_def)
    then show ?thesis using stopping_step [OF ds(2), of "WorkerStep i False"] view by force
  next
    case False
    then consider "workers (ctl f) ! i = Fetch" | c start k where "workers (ctl f) ! i = Probe c start k"
      using stopping_view_pc [OF inv ds(2) i] by (cases "workers (ctl f) ! i") auto
    then show ?thesis
    proof cases
      case 1
      then show ?thesis using fetch_decreases [of i f f'] step i len by (simp add: fine_worker_def)
    next
      case (2 c start k)
      have "length (workers (ctl f')) = length (workers (ctl f))"
        using arg_cong [OF view, of "length \<circ> workers"] inv inv' by (simp add: fine_inv_def)
      then have "workers (ctl f') ! i = Probe c start k"
        using view_pc [OF fine_inv_settled [OF inv'], of i "Probe c start k" ds] view_pc [OF fine_inv_settled [OF inv] i, of "Probe c start k" ds]
          view i 2 by simp
      then show ?thesis using probe_decreases [OF _ 2, of f'] step i len 2 by (simp add: fine_worker_def)
    qed
  qed
qed

lemma silent_decreases:
  assumes calm: "calm f" and ds: "same_stored (dqs f) ds" "stopping (pool_view ds f)" and inner: "a \<in> inner_steps"
    and step: "fine_step a f = Some f'" and same: "pool_view ds' f' = pool_view ds f"
  shows "call_rank f' < call_rank f"
proof -
  have inv: "fine_inv f" and dl: "length ds = length (deques (ctl f))"
    using calm same_stored_length [OF ds(1)] by (auto simp: calm_def fine_inv_def)
  have view: "pool_view ds f' = pool_view ds f" using arg_cong [OF same, of "deques_update (\<lambda>_. ds)"] by (simp add: view_deques)
  show ?thesis
  proof (cases a)
    case (WorkerStep i lost)
    then show ?thesis using silent_worker [OF inv dl ds(2) _ view] step by simp
  next
    case (TaskStep i w)
    with step obtain p' where "task_step i w (ctl f) = Some p'" "f' = f\<lparr>ctl := p'\<rparr>" "i < length (workers (ctl f))"
      "owner (dqs f ! i) = OwnerIdle" by (auto elim: calm_task [OF calm])
    then have "pool_step (TaskStep i w) (pool_view ds f) = Some (pool_view ds f')"
      using mirrors_task_step [OF fine_inv_settled [OF inv], of i ds w] by (simp add: mirrors_def)
    then show ?thesis using stopping_step [OF ds(2), of "TaskStep i w"] view by force
  qed (use inner in auto)
qed

lemma fine_stopping_step:
  assumes "a \<in> inner_steps" and "fine_stopping f" and "fine_step a f = Some f'"
  shows "fine_stopping f' \<and> fine_rank f' < fine_rank f"
proof -
  obtain ds where calm: "calm f" and ds: "same_stored (dqs f) ds" "stopping (pool_view ds f)"
    using assms(2) by (auto simp: fine_stopping_def)
  have inv: "fine_inv f" using calm by (simp add: calm_def)
  have "\<not> enqueues (PoolStep a)" using assms(1) by auto
  then have calm': "calm f'" and "drains (ctl f) (ctl f')" using calm_step [OF calm assms(3)] by blast+
  then have len: "length (dqs f') = length (dqs f)" using inv by (auto simp: calm_def fine_inv_def drains_def)
  obtain ds' where ds': "same_stored (dqs f') ds'"
    and answer: "pool_view ds' f' = pool_view ds f \<or> (\<exists>b. pool_step b (pool_view ds f) = Some (pool_view ds' f'))"
    using simulated_step [OF inv assms(3)] ds(1) unfolding simulated_def by blast
  have work: "work_rank f = shutdown_rank (pool_view ds f)" "work_rank f' = shutdown_rank (pool_view ds' f')"
    using ds(1) ds' by (simp_all add: work_rank_view)
  from answer show ?thesis
  proof
    assume same: "pool_view ds' f' = pool_view ds f"
    then have "call_rank f' < call_rank f" by (rule silent_decreases [OF calm ds assms(1,3)])
    then show ?thesis using calm' ds' ds(2) same work len by (auto simp: fine_stopping_def fine_rank_def)
  next
    assume "\<exists>b. pool_step b (pool_view ds f) = Some (pool_view ds' f')"
    then obtain b where b: "pool_step b (pool_view ds f) = Some (pool_view ds' f')" ..
    have "b \<in> inner_steps"
      by (rule inner_answer [OF ds(2) b]) (use inner_frame [OF assms(3,1) calm] in simp_all)
    then have "stopping (pool_view ds' f')" "work_rank f' < work_rank f"
      using stopping_step [OF ds(2) _ b] work by simp_all
    moreover have "work_rank f' * (6 * length (dqs f) + 1) + call_rank f' < work_rank f * (6 * length (dqs f) + 1) + call_rank f"
      using mult_le_mono1 [of "work_rank f' + 1" "work_rank f" "6 * length (dqs f) + 1"] calculation(2) call_rank_le [of f'] len
      by (simp add: algebra_simps)
    ultimately show ?thesis using calm' ds' len by (auto simp: fine_stopping_def fine_rank_def)
  qed
qed

lemma fine_stoppingI:
  assumes "exec fine_step as (fine_ctor n m) = Some f" and "destroyer (ctl f) = DestroyJoin" and "list_all (\<lambda>s. \<not> pushing s) (dqs f)"
  shows "fine_stopping f"
  using fine_reached [OF assms(1)] assms(2,3) by (auto simp: fine_stopping_def calm_def stopping_def)

section \<open>Executions\<close>

lemma fine_shutdown:
  "exec fine_step [DestroyStep, DestroyStep] (fine_ctor 1 1)
   = Some ((fine_ctor 1 1)\<lparr>ctl := (pool_ctor 1 1)\<lparr>stop_flag := True, destroyer := DestroyJoin\<rparr>\<rparr>)"
  "exec fine_step (replicate 7 (WorkerStep 0 False))
     ((fine_ctor 1 1)\<lparr>ctl := (pool_ctor 1 1)\<lparr>stop_flag := True, destroyer := DestroyJoin\<rparr>\<rparr>)
   = Some \<lparr>ctl = (pool_ctor 1 1)\<lparr>workers := [Exited], stop_flag := True, destroyer := DestroyJoin\<rparr>,
       dqs = [(init_sys default_capacity)\<lparr>events := [Popped None]\<rparr>], regs = [None]\<rparr>"
  by (simp_all add: fine_eval)

lemma fine_drop:
  "exec fine_step
     (replicate 6 (WorkerStep 0 False) @ [ClientEnqueue 0 x, ClientStep 0 0, DestroyStep, WorkerStep 0 False, DestroyStep, DestroyStep])
     (fine_ctor 1 1)
   = Some \<lparr>ctl = (pool_ctor 1 1)\<lparr>gqueue := \<lparr>tasks = [x]\<rparr>, workers := [Exited], stop_flag := True,
             destroyer := Destroyed, submitted := [x]\<rparr>,
       dqs = [(init_sys default_capacity)\<lparr>events := [Popped None]\<rparr>], regs = [None]\<rparr>"
  by (simp add: fine_eval)

section \<open>Properties\<close>



text \<open>
  C16. When the destructor has returned, all workers have left their loops, no task runs or is in a deque, and every
  task that was submitted has been executed, except for those in the global queue, which the
  destructor of the queue deletes without running them.
\<close>

theorem fine_destructor_outcome:
  assumes "exec fine_step as (fine_ctor n m) = Some f" and "destroyer (ctl f) = Destroyed"
  shows "list_all (\<lambda>pc. pc = Exited) (workers (ctl f)) \<and> fine_in_flight f = [] \<and> list_all (\<lambda>s. stored s = []) (dqs f) \<and>
    mset (submitted (ctl f)) = mset (finished (ctl f)) + mset (gq_dtor (gqueue (ctl f)))"
proof -
  obtain ds where inv: "fine_inv f" and ds: "same_stored (dqs f) ds" "pool_inv (pool_view ds f)"
    using fine_reached [OF assms(1)] by blast
  have "list_all (\<lambda>s. stored s = []) (dqs f)" if "\<forall>q \<in> set ds. contents q = []"
    using that ds(1) by (auto simp: same_stored_def list_all2_conv_all_nth list_all_length)
  then show ?thesis
    using destroyed_outcome [OF ds(2)] assms(2) view_all_exited [OF fine_inv_settled [OF inv]] by (simp add: view_in_flight)
qed

theorem fine_destructor_outcome_witness:
  "\<exists>as f. exec fine_step as (fine_ctor 1 1) = Some f \<and> destroyer (ctl f) = Destroyed \<and> submitted (ctl f) = [True] \<and>
     mset (submitted (ctl f)) = mset (finished (ctl f)) + mset (gq_dtor (gqueue (ctl f)))"
  by (rule exI, rule exI, rule conjI, rule fine_drop [of True])
    (use fine_destructor_outcome [OF fine_drop [of True]] in simp)

text \<open>
  C27. The destructor can drop a task: with one worker that has searched in vain, a client
  enqueues a task and its call returns, and then the pool is destroyed. The worker sees
  \<open>stop\<close> and leaves its loop without another look at the global queue, so the task is never
  executed (and the receiver behind a \<open>schedule()\<close> operation is never completed).
\<close>

theorem destructor_drops_task:
  "\<exists>f. exec fine_step
     (replicate 6 (WorkerStep 0 False) @ [ClientEnqueue 0 x, ClientStep 0 0, DestroyStep, WorkerStep 0 False, DestroyStep, DestroyStep])
     (fine_ctor 1 1) = Some f \<and>
   destroyer (ctl f) = Destroyed \<and> submitted (ctl f) = [x] \<and> finished (ctl f) = [] \<and> gq_dtor (gqueue (ctl f)) = [x]"
  unfolding fine_drop by (simp add: gq_dtor_def pool_ctor_one)

end
