(* ===== verification/Scheduler.thy ===== *)
theory Scheduler
  imports Pool_Properties
begin

text \<open>
  \<open>thread_pool::enqueue\<close> as a thread sees it, with several pools in the program, and the
  sender interface of \<open>include/async_runtime/scheduler.hpp\<close>: \<open>thread_pool_scheduler\<close>,
  \<open>schedule_sender\<close> and its operation. A task is the receiver whose \<open>set_value\<close> it calls.
\<close>

section \<open>Threads and pools\<close>

text \<open>
  The thread-local pointer \<open>local_queue\<close> of the calling thread: null outside the pools, and for
  worker \<open>i\<close> of pool \<open>a\<close> the deque \<open>i\<close> of pool \<open>a\<close>. A pool pointer is an index into the list of
  pools.
\<close>

type_synonym local_queue = "(nat \<times> nat) option"

definition enqueue_push :: "local_queue \<Rightarrow> nat \<Rightarrow> 'a \<Rightarrow> 'a pool list \<Rightarrow> 'a pool list" where
  "enqueue_push lq this x ps =
     (case lq of
        Some (a, i) \<Rightarrow> ps[a := push_local i x (ps ! a)]
      | None \<Rightarrow> ps[this := push_global x (ps ! this)])"

text \<open>
  The second half of \<open>enqueue\<close>: with sleeping workers it locks the mutex and notifies one of
  them, chosen by \<open>w\<close>; \<open>None\<close> means that the mutex is taken. \<open>enqueue\<close> is the whole
  call when nobody interferes.
\<close>

definition enqueue_notify :: "nat \<Rightarrow> nat \<Rightarrow> 'a pool list \<Rightarrow> 'a pool list option" where
  "enqueue_notify w this ps =
     (if sleeping (ps ! this) > 0
      then (if mutex_owner (ps ! this) = None
            then map_option (\<lambda>p. ps[this := p]) (notify_one w (ps ! this)) else None)
      else Some ps)"

definition enqueue :: "nat \<Rightarrow> local_queue \<Rightarrow> nat \<Rightarrow> 'a \<Rightarrow> 'a pool list \<Rightarrow> 'a pool list option" where
  "enqueue w lq this x ps = enqueue_notify w this (enqueue_push lq this x ps)"

section \<open>Schedulers and senders\<close>

record thread_pool_scheduler =
  pool_ptr :: nat

record schedule_sender =
  sender_pool :: nat

record 'r schedule_operation =
  op_pool :: nat
  op_receiver :: 'r

definition get_scheduler :: "nat \<Rightarrow> thread_pool_scheduler" where
  "get_scheduler p = \<lparr>pool_ptr = p\<rparr>"

definition schedule :: "thread_pool_scheduler \<Rightarrow> schedule_sender" where
  "schedule s = \<lparr>sender_pool = pool_ptr s\<rparr>"

definition connect :: "schedule_sender \<Rightarrow> 'r \<Rightarrow> 'r schedule_operation" where
  "connect s r = \<lparr>op_pool = sender_pool s, op_receiver = r\<rparr>"

definition start :: "nat \<Rightarrow> local_queue \<Rightarrow> 'r schedule_operation \<Rightarrow> 'r pool list \<Rightarrow> 'r pool list option" where
  "start w lq op ps = enqueue w lq (op_pool op) (op_receiver op) ps"

section \<open>Properties\<close>

lemma workers_ctor: "workers (pool_ctor n m) = replicate (if n = 0 then 1 else n) Fetch"
  by (simp add: pool_ctor_def Let_def)

lemmas schedule_defs = start_def connect_def schedule_def get_scheduler_def enqueue_def enqueue_notify_def

lemma start_outside:
  assumes "start w None (connect (schedule (get_scheduler b)) r) ps = Some ps'" and "b < length ps"
  shows "(if sleeping (ps ! b) > 0
          then mutex_owner (ps ! b) = None \<and> notify_one w (push_global r (ps ! b)) = Some (ps' ! b)
          else ps' ! b = push_global r (ps ! b)) \<and> (\<forall>c. c \<noteq> b \<longrightarrow> ps' ! c = ps ! c)"
  using assms by (auto simp: schedule_defs enqueue_push_def push_global_def split: if_splits)

lemma start_inside:
  assumes "start w (Some (a, i)) (connect (schedule (get_scheduler b)) r) ps = Some ps'"
    and "a < length ps" and "b < length ps"
  shows "(let p = (if a = b then push_local i r (ps ! b) else ps ! b) in
          if sleeping (ps ! b) > 0
          then mutex_owner (ps ! b) = None \<and> notify_one w p = Some (ps' ! b)
          else ps' ! b = p) \<and>
    (a \<noteq> b \<longrightarrow> ps' ! a = push_local i r (ps ! a)) \<and> (\<forall>c. c \<noteq> b \<and> c \<noteq> a \<longrightarrow> ps' ! c = ps ! c)"
  using assms by (auto simp: schedule_defs enqueue_push_def push_local_def Let_def split: if_splits)

text \<open>\<open>notify_one\<close> does not look at the clients, nor at the position of a task that runs.\<close>

lemma notify_one_client:
  "notify_one w (set_client j pc p) = map_option (set_client j pc) (notify_one w p)"
  by (simp add: notify_one_def set_client_def set_worker_def)

lemma Blocked_update:
  "i < length ws \<Longrightarrow> ws ! i \<noteq> Blocked \<Longrightarrow> pc \<noteq> Blocked \<Longrightarrow> Blocked \<in> set (ws[i := pc]) \<longleftrightarrow> Blocked \<in> set ws"
  by (auto simp: in_set_conv_nth nth_list_update)

lemma notify_one_worker:
  assumes "i < length (workers p)" and "workers p ! i \<noteq> Blocked" and "pc \<noteq> Blocked"
  shows "notify_one w (set_worker i pc p) = map_option (set_worker i pc) (notify_one w p)"
  using assms Blocked_update [OF assms]
  by (auto simp: notify_one_def set_worker_def nth_list_update list_update_swap)

lemma notify_one_tasks:
  assumes "notify_one w p = Some p'"
  shows "gqueue p' = gqueue p \<and> deques p' = deques p \<and> clients p' = clients p \<and>
    (\<forall>i < length (workers p). workers p ! i \<noteq> Blocked \<longrightarrow> workers p' ! i = workers p ! i)"
  using assms by (auto simp: notify_one_def set_worker_def nth_list_update split: if_splits)

lemma set_client_idem [simp]:
  "set_client j pc (set_client j pc' p) = set_client j pc p"
  "clients p ! j = pc \<Longrightarrow> set_client j pc p = p"
  by (auto simp: set_client_def)

lemma set_worker_idem [simp]:
  "set_worker i pc (set_worker i pc' p) = set_worker i pc p"
  "workers p ! i = pc \<Longrightarrow> set_worker i pc p = p"
  by (auto simp: set_worker_def)

lemma set_sel [simp]:
  "clients (set_client j pc p) = (clients p)[j := pc]" "sleeping (set_client j pc p) = sleeping p"
  "mutex_owner (set_client j pc p) = mutex_owner p"
  "workers (set_worker i pc' p) = (workers p)[i := pc']" "sleeping (set_worker i pc' p) = sleeping p"
  "mutex_owner (set_worker i pc' p) = mutex_owner p"
  by (simp_all add: set_client_def set_worker_def)

text \<open>
  Starting \<open>schedule(sched)\<close> connected to a receiver, from a thread outside all pools:
  the receiver goes to the end of the global queue of the scheduler's pool, no other pool
  changes, and the whole call is an execution of the pool machine by the client: the push, the
  load of \<open>sleeping_workers\<close>, and the notification if a worker sleeps.
\<close>

lemma schedule_enqueues:
  assumes "b < length ps" and "j < length (clients (ps ! b))" and "clients (ps ! b) ! j = ClientIdle"
    and "destroyer (ps ! b) = NotDestroyed"
    and "start w None (connect (schedule (get_scheduler b)) r) ps = Some ps'"
  shows "exec pool_step
      ([ClientEnqueue j r, ClientStep j w] @ (if sleeping (ps ! b) > 0 then [ClientStep j w] else [])) (ps ! b)
      = Some (ps' ! b) \<and>
    tasks (gqueue (ps' ! b)) = tasks (gqueue (ps ! b)) @ [r] \<and> (\<forall>c. c \<noteq> b \<longrightarrow> ps' ! c = ps ! c)"
proof -
  let ?p = "push_global r (ps ! b)"
  have cl: "clients ?p ! j = ClientIdle" "length (clients ?p) = length (clients (ps ! b))"
    "sleeping ?p = sleeping (ps ! b)" "mutex_owner ?p = mutex_owner (ps ! b)"
    using assms by (simp_all add: push_global_def)
  note eff = start_outside [OF assms(5,1)]
  have "clients (ps' ! b) = clients ?p \<and> tasks (gqueue (ps' ! b)) = tasks (gqueue (ps ! b)) @ [r]"
    using eff notify_one_tasks [of w ?p "ps' ! b"] by (auto simp: push_global_def gq_push_def split: if_splits)
  then show ?thesis
    using eff assms cl
    by (auto simp: client_enqueue_def client_step_def notify_one_client split: if_splits)
qed

text \<open>
  From inside a task that a worker of the same pool runs, the receiver goes to the bottom of
  the worker's own deque, from where the worker itself takes it next, and the whole call is an
  execution of the pool machine by that task.
\<close>

lemma schedule_from_worker:
  assumes "b < length ps" and "shape_inv (ps ! b)" and "i < length (workers (ps ! b))"
    and "workers (ps ! b) ! i = Run t"
    and "start w (Some (b, i)) (connect (schedule (get_scheduler b)) r) ps = Some ps'"
  shows "exec pool_step
      ([TaskEnqueue i r, TaskStep i w] @ (if sleeping (ps ! b) > 0 then [TaskStep i w] else [])) (ps ! b)
      = Some (ps' ! b) \<and>
    contents (deques (ps' ! b) ! i) = contents (deques (ps ! b) ! i) @ [r] \<and>
    fst (deque_pop (deques (ps' ! b) ! i)) = Some r \<and> (\<forall>c. c \<noteq> b \<longrightarrow> ps' ! c = ps ! c)"
proof -
  let ?p = "push_local i r (ps ! b)"
  have p: "workers ?p = workers (ps ! b)" "sleeping ?p = sleeping (ps ! b)" "mutex_owner ?p = mutex_owner (ps ! b)"
    by (simp_all add: push_local_def)
  have wf: "deque_wf (deques (ps ! b) ! i)" by (rule shape_deque [OF assms(2,3)])
  have len: "i < length (deques (ps ! b))" using assms(2,3) by (simp add: shape_inv_def)
  note eff = start_inside [OF assms(5,1,1), unfolded Let_def]
  have q: "deques (ps' ! b) ! i = deque_push r (deques (ps ! b) ! i) \<and> workers (ps' ! b) ! i = Run t"
    using eff notify_one_tasks [of w ?p "ps' ! b"] p assms len by (auto simp: push_local_def split: if_splits)
  have "exec pool_step
      ([TaskEnqueue i r, TaskStep i w] @ (if sleeping (ps ! b) > 0 then [TaskStep i w] else [])) (ps ! b)
      = Some (ps' ! b)"
    using eff assms p q
    by (auto simp: task_enqueue_def task_step_def notify_one_worker split: if_splits)
  with q eff show ?thesis
    using deque_push_spec [OF wf, of r] pop_after_push [OF wf, of r] by auto
qed

text \<open>
  C36. \<open>local_queue\<close> does not say which pool it belongs to. Starting \<open>schedule\<close> of pool \<open>b\<close> from
  a worker of another pool \<open>a\<close> puts the receiver into the deque of the calling worker, to be
  completed in pool \<open>a\<close>; pool \<open>b\<close> gets no task, and it is pool \<open>b\<close> that is notified, if at all.
\<close>

theorem schedule_on_other_pool:
  assumes "a < length ps" and "b < length ps" and "a \<noteq> b" and "shape_inv (ps ! a)"
    and "i < length (workers (ps ! a))"
    and "start w (Some (a, i)) (connect (schedule (get_scheduler b)) r) ps = Some ps'"
  shows "gqueue (ps' ! b) = gqueue (ps ! b) \<and> deques (ps' ! b) = deques (ps ! b) \<and>
    workers (ps' ! a) = workers (ps ! a) \<and>
    contents (deques (ps' ! a) ! i) = contents (deques (ps ! a) ! i) @ [r]"
proof -
  have len: "i < length (deques (ps ! a))" using assms(4,5) by (simp add: shape_inv_def)
  have "contents (deque_push r (deques (ps ! a) ! i)) = contents (deques (ps ! a) ! i) @ [r]"
    using deque_push_spec [OF shape_deque [OF assms(4,5)]] by simp
  then show ?thesis
    using start_inside [OF assms(6,1,2)] assms(3) len notify_one_tasks [of w "ps ! b" "ps' ! b"]
    by (auto simp: Let_def push_local_def split: if_splits)
qed

theorem schedule_on_other_pool_witness:
  "map_option (\<lambda>ps. contents (deques (ps ! 0) ! 1))
     (start 0 (Some (0, 1)) (connect (schedule (get_scheduler 1)) True) [pool_ctor 2 0, pool_ctor 3 0])
   = Some (contents (deques (pool_ctor 2 0 :: bool pool) ! 1) @ [True])"
proof -
  obtain ps' where s: "start 0 (Some (0, 1)) (connect (schedule (get_scheduler 1)) True) [pool_ctor 2 0, pool_ctor 3 0] = Some ps'"
    by (simp add: schedule_defs enqueue_push_def push_local_def pool_ctor_def)
  show ?thesis
    using schedule_on_other_pool [OF _ _ _ _ _ s] s by (simp add: shape_ctor workers_ctor)
qed

end
