(* ===== verification/IO_Run.thy ===== *)
theory IO_Run
  imports IO_Context
begin

text \<open>
  \<open>io_context::run\<close> of \<open>src/src/io_uring_ctx.cpp\<close> together with the threads that submit, the
  callbacks, which submit themselves, and the kernel, which completes requests at any time.
  The properties: no dangling callback, every callback is invoked exactly once, completions
  are consumed in order, and the effect of \<open>stop\<close>.
\<close>

section \<open>The machine\<close>

text \<open>
  What a thread or a callback does with an \<open>io_context\<close>. A callback is a value of type \<open>'cb\<close>, and
  the parameter \<open>invoke\<close> of the machine gives the calls it makes when it is invoked with a
  result. A call of \<open>stop\<close> is two steps, since \<open>running\<close> is cleared before the mutex is locked.
\<close>

datatype 'cb io_call = Submit sqe_op 'cb | Cancel address | StopStore | StopNop

datatype 'cb run_pc =
    NotRunning
  | Head                                  \<comment> \<open>the load of \<open>running\<close>\<close>
  | Waiting                               \<comment> \<open>\<open>io_uring_wait_cqe\<close>\<close>
  | Each nat                              \<comment> \<open>\<open>io_uring_for_each_cqe\<close>, \<open>count\<close> entries visited\<close>
  | Invoked nat address "'cb io_call list" \<comment> \<open>inside a callback, with the calls that are left\<close>
  | Returned

text \<open>
  \<open>submissions\<close> records the callbacks submitted, with their requests; \<open>deliveries\<close> the callbacks
  invoked, with their requests and the results; \<open>posted\<close> the completions the kernel has posted,
  \<open>origins\<close> the entries they complete, and \<open>seen\<close> the completions \<open>run\<close> has visited. \<open>requests\<close> is
  the request that was last submitted with a callback at an address.
\<close>

record ('r, 'cb) io_machine =
  ctx :: "('r, 'cb) io_context"
  run_pc :: "'cb run_pc"
  fault :: "io_fault option"
  submissions :: "('cb \<times> sqe_op) list"
  deliveries :: "('cb \<times> sqe_op \<times> io_result) list"
  posted :: "cqe list"
  origins :: "sqe list"
  seen :: "cqe list"
  requests :: "address \<Rightarrow> sqe_op"

definition io_init :: "('r, 'cb) io_context \<Rightarrow> ('r, 'cb) io_machine" where
  "io_init c = \<lparr>ctx = c, run_pc = NotRunning, fault = None, submissions = [], deliveries = [],
     posted = [], origins = [], seen = [], requests = (\<lambda>_. PrepNop)\<rparr>"

text \<open>One call; \<open>a\<close> is the address \<open>new\<close> returns, which is not null and not in use.\<close>

fun do_call :: "'r liburing \<Rightarrow> address \<Rightarrow> 'cb io_call \<Rightarrow> ('r, 'cb) io_machine \<Rightarrow> ('r, 'cb) io_machine option" where
  "do_call L a (Submit req cb) m =
     (if a \<noteq> 0 \<and> heap (ctx m) a = None then
        (case submit_op L req a cb (ctx m) of
           Inl f \<Rightarrow> Some (m\<lparr>fault := Some f\<rparr>)
         | Inr (_, c) \<Rightarrow>
             Some (m\<lparr>ctx := c, submissions := submissions m @ [(cb, req)], requests := (requests m)(a := req)\<rparr>))
      else None)"
| "do_call L a (Cancel ptr) m =
     (case submit_cancel L ptr (ctx m) of
        Inl f \<Rightarrow> Some (m\<lparr>fault := Some f\<rparr>)
      | Inr c \<Rightarrow> Some (m\<lparr>ctx := c\<rparr>))"
| "do_call L a StopStore m = Some (m\<lparr>ctx := stop_store (ctx m)\<rparr>)"
| "do_call L a StopNop m = Some (m\<lparr>ctx := stop_nop L (ctx m)\<rparr>)"

definition visit ::
  "'r liburing \<Rightarrow> ('cb \<Rightarrow> io_result \<Rightarrow> 'cb io_call list) \<Rightarrow> nat \<Rightarrow> ('r, 'cb) io_machine \<Rightarrow> ('r, 'cb) io_machine" where
  "visit L invoke n m =
     (let e = lu_cqes L (ring (ctx m)) ! n; result = \<lparr>res = cqe_res e, res_flags = cqe_flags e\<rparr>;
          m' = m\<lparr>seen := seen m @ [e]\<rparr> in
      if cqe_data e = 0 then m'\<lparr>run_pc := Each (n + 1)\<rparr>
      else
        (case heap (ctx m) (cqe_data e) of
           None \<Rightarrow> m'\<lparr>fault := Some DanglingCallback\<rparr>
         | Some cb \<Rightarrow>
             m'\<lparr>run_pc := Invoked n (cqe_data e) (invoke cb result),
               deliveries := deliveries m @ [(cb, requests m (cqe_data e), result)]\<rparr>))"

definition delete_cb :: "address \<Rightarrow> ('r, 'cb) io_context \<Rightarrow> ('r, 'cb) io_context" where
  "delete_cb a c = c\<lparr>heap := (heap c)(a := None)\<rparr>"

text \<open>One step of the thread in \<open>run\<close>; \<open>EINTR\<close> is 4.\<close>

definition EINTR :: int where "EINTR = 4"

fun run_step ::
  "'r liburing \<Rightarrow> ('cb \<Rightarrow> io_result \<Rightarrow> 'cb io_call list) \<Rightarrow> address \<Rightarrow> ('r, 'cb) io_machine
    \<Rightarrow> ('r, 'cb) io_machine option" where
  "run_step L invoke a m =
     (case run_pc m of
        NotRunning \<Rightarrow> Some (m\<lparr>run_pc := Head, ctx := (ctx m)\<lparr>running := True\<rparr>\<rparr>)
      | Head \<Rightarrow> Some (m\<lparr>run_pc := (if running (ctx m) then Waiting else Returned)\<rparr>)
      | Waiting \<Rightarrow>
          (case lu_wait_cqe L (ring (ctx m)) of
             None \<Rightarrow> None
           | Some (ret, r) \<Rightarrow>
               Some (m\<lparr>ctx := (ctx m)\<lparr>ring := r\<rparr>,
                       run_pc := (if ret < 0 then (if ret = - EINTR then Head else Returned) else Each 0)\<rparr>))
      | Each n \<Rightarrow>
          Some (if n < length (lu_cqes L (ring (ctx m))) then visit L invoke n m
                else m\<lparr>ctx := (ctx m)\<lparr>ring := lu_cq_advance L n (ring (ctx m))\<rparr>, run_pc := Head\<rparr>)
      | Invoked n b (k # ks) \<Rightarrow> map_option (\<lambda>m'. m'\<lparr>run_pc := Invoked n b ks\<rparr>) (do_call L a k m)
      | Invoked n b [] \<Rightarrow> Some (m\<lparr>ctx := delete_cb b (ctx m), run_pc := Each (n + 1)\<rparr>)
      | Returned \<Rightarrow> None)"

datatype 'cb io_action = ThreadCall address "'cb io_call" | RunStep address | Complete sqe int u32

text \<open>Nothing moves after a fault.\<close>

fun io_step ::
  "'r liburing \<Rightarrow> ('cb \<Rightarrow> io_result \<Rightarrow> 'cb io_call list) \<Rightarrow> 'cb io_action \<Rightarrow> ('r, 'cb) io_machine
    \<Rightarrow> ('r, 'cb) io_machine option" where
  "io_step L invoke act m =
     (if fault m \<noteq> None then None
      else
        (case act of
           ThreadCall a k \<Rightarrow> do_call L a k m
         | RunStep a \<Rightarrow> run_step L invoke a m
         | Complete e z f \<Rightarrow>
             map_option
               (\<lambda>r. m\<lparr>ctx := (ctx m)\<lparr>ring := r\<rparr>,
                      posted := posted m @ [\<lparr>cqe_data = sqe_data e, cqe_res = z, cqe_flags = f\<rparr>],
                      origins := origins m @ [e]\<rparr>)
               (lu_complete L e z f (ring (ctx m)))))"

section \<open>What \<open>liburing\<close> promises\<close>

text \<open>
  \<open>sq r\<close> are the entries that are prepared and not yet handed to the kernel, \<open>kern r\<close> those the
  kernel works on. A slot that \<open>io_uring_get_sqe\<close> returns is the next one of the submission
  queue; \<open>io_uring_submit\<close> hands over a prefix of the queue; \<open>io_uring_wait_cqe\<close> returns
  without an error only if there is a completion; \<open>io_uring_cq_advance\<close> drops completions
  from the front; and the kernel posts one completion for a request it completes, which carries
  the user data of the request.
\<close>

definition same_queues :: "'r liburing \<Rightarrow> ('r \<Rightarrow> sqe list) \<Rightarrow> ('r \<Rightarrow> sqe multiset) \<Rightarrow> 'r \<Rightarrow> 'r \<Rightarrow> bool" where
  "same_queues L sq kern r r' \<longleftrightarrow> sq r' = sq r \<and> kern r' = kern r \<and> lu_cqes L r' = lu_cqes L r"

definition liburing_ok :: "'r liburing \<Rightarrow> ('r \<Rightarrow> sqe list) \<Rightarrow> ('r \<Rightarrow> sqe multiset) \<Rightarrow> bool" where
  "liburing_ok L sq kern \<longleftrightarrow>
     (\<forall>d n r. lu_queue_init L d = (n, r) \<longrightarrow> 0 \<le> n \<longrightarrow> sq r = [] \<and> kern r = {#} \<and> lu_cqes L r = []) \<and>
     (\<forall>r i r1 e. lu_get_sqe L r = (Some i, r1) \<longrightarrow>
        sq (lu_write_sqe L i e r1) = sq r @ [e] \<and> kern (lu_write_sqe L i e r1) = kern r \<and>
        lu_cqes L (lu_write_sqe L i e r1) = lu_cqes L r) \<and>
     (\<forall>r r1. lu_get_sqe L r = (None, r1) \<longrightarrow> same_queues L sq kern r r1) \<and>
     (\<forall>r n r1. lu_submit L r = (n, r1) \<longrightarrow>
        (\<exists>sent. sq r = sent @ sq r1 \<and> kern r1 = kern r + mset sent) \<and> lu_cqes L r1 = lu_cqes L r) \<and>
     (\<forall>r n r1. lu_wait_cqe L r = Some (n, r1) \<longrightarrow>
        same_queues L sq kern r r1 \<and> (0 \<le> n \<longrightarrow> lu_cqes L r1 \<noteq> [])) \<and>
     (\<forall>r n. n \<le> length (lu_cqes L r) \<longrightarrow>
        sq (lu_cq_advance L n r) = sq r \<and> kern (lu_cq_advance L n r) = kern r \<and>
        lu_cqes L (lu_cq_advance L n r) = drop n (lu_cqes L r)) \<and>
     (\<forall>r e z f r1. lu_complete L e z f r = Some r1 \<longrightarrow>
        sq r1 = sq r \<and> kern r = kern r1 + {#e#} \<and>
        lu_cqes L r1 = lu_cqes L r @ [\<lparr>cqe_data = sqe_data e, cqe_res = z, cqe_flags = f\<rparr>])"

section \<open>References to callbacks\<close>

text \<open>The callback addresses the ring refers to, not counting the first \<open>k\<close> completions.\<close>

definition ring_refs ::
  "'r liburing \<Rightarrow> ('r \<Rightarrow> sqe list) \<Rightarrow> ('r \<Rightarrow> sqe multiset) \<Rightarrow> nat \<Rightarrow> 'r \<Rightarrow> address multiset" where
  "ring_refs L sq kern k r =
     filter_mset (\<lambda>a. a \<noteq> 0)
       (mset (map sqe_data (sq r)) + image_mset sqe_data (kern r) + mset (map cqe_data (drop k (lu_cqes L r))))"

fun visited :: "'cb run_pc \<Rightarrow> nat" where
  "visited (Each n) = n"
| "visited (Invoked n a ks) = n + 1"
| "visited _ = 0"

fun active :: "'cb run_pc \<Rightarrow> address multiset" where
  "active (Invoked n a ks) = {#a#}"
| "active _ = {#}"

lemma refs_same: "same_queues L sq kern r r' \<Longrightarrow> ring_refs L sq kern k r' = ring_refs L sq kern k r"
  by (simp add: same_queues_def ring_refs_def)

lemma refs_submit:
  assumes "liburing_ok L sq kern"
  shows "ring_refs L sq kern k (snd (lu_submit L r)) = ring_refs L sq kern k r \<and>
    lu_cqes L (snd (lu_submit L r)) = lu_cqes L r"
proof -
  obtain n r1 where s: "lu_submit L r = (n, r1)" by fastforce
  then obtain sent where "sq r = sent @ sq r1" "kern r1 = kern r + mset sent" "lu_cqes L r1 = lu_cqes L r"
    using assms unfolding liburing_ok_def by metis
  then show ?thesis by (simp add: s ring_refs_def ac_simps)
qed

lemma refs_write:
  assumes "liburing_ok L sq kern" and "lu_get_sqe L r = (Some i, r1)"
  shows "ring_refs L sq kern k (lu_write_sqe L i e r1)
      = ring_refs L sq kern k r + (if sqe_data e = 0 then {#} else {#sqe_data e#}) \<and>
    lu_cqes L (lu_write_sqe L i e r1) = lu_cqes L r"
proof -
  have "sq (lu_write_sqe L i e r1) = sq r @ [e]" "kern (lu_write_sqe L i e r1) = kern r"
    "lu_cqes L (lu_write_sqe L i e r1) = lu_cqes L r"
    using assms unfolding liburing_ok_def by metis+
  then show ?thesis by (simp add: ring_refs_def)
qed

lemma refs_no_slot:
  assumes "liburing_ok L sq kern" and "lu_get_sqe L r = (None, r1)"
  shows "ring_refs L sq kern k r1 = ring_refs L sq kern k r \<and> lu_cqes L r1 = lu_cqes L r"
proof -
  have "same_queues L sq kern r r1" using assms unfolding liburing_ok_def by metis
  then show ?thesis using refs_same by (simp add: same_queues_def)
qed

text \<open>Taking a slot with \<open>get_sqe\<close>, filling it and submitting adds one reference.\<close>

lemma refs_get_sqe:
  assumes ok: "liburing_ok L sq kern" and slot: "get_sqe L r = (Some i, r1)"
  shows "ring_refs L sq kern k (snd (lu_submit L (lu_write_sqe L i e r1)))
      = ring_refs L sq kern k r + (if sqe_data e = 0 then {#} else {#sqe_data e#}) \<and>
    lu_cqes L (snd (lu_submit L (lu_write_sqe L i e r1))) = lu_cqes L r"
proof -
  obtain r0 where "lu_get_sqe L r0 = (Some i, r1)"
    "ring_refs L sq kern k r0 = ring_refs L sq kern k r" "lu_cqes L r0 = lu_cqes L r"
    using slot refs_submit [OF ok, of k] refs_no_slot [OF ok, of r _ k]
    by (auto simp: get_sqe_def split: prod.splits option.splits)
  then show ?thesis using refs_write [OF ok, of r0 i r1 k e] refs_submit [OF ok, of k] by simp
qed

lemma refs_get_sqe_none:
  assumes ok: "liburing_ok L sq kern" and slot: "get_sqe L r = (None, r1)"
  shows "ring_refs L sq kern k r1 = ring_refs L sq kern k r \<and> lu_cqes L r1 = lu_cqes L r"
proof -
  obtain r0 where r0: "lu_get_sqe L r = (None, r0)" "lu_get_sqe L (snd (lu_submit L r0)) = (None, r1)"
    using slot by (auto simp: get_sqe_def split: prod.splits option.splits)
  show ?thesis
    using refs_no_slot [OF ok r0(1), of k] refs_no_slot [OF ok r0(2), of k] refs_submit [OF ok, of k r0]
    by simp
qed

lemma refs_complete:
  assumes "liburing_ok L sq kern" and "lu_complete L e z f r = Some r1" and "k \<le> length (lu_cqes L r)"
  shows "ring_refs L sq kern k r1 = ring_refs L sq kern k r \<and>
    lu_cqes L r1 = lu_cqes L r @ [\<lparr>cqe_data = sqe_data e, cqe_res = z, cqe_flags = f\<rparr>]"
proof -
  have "sq r1 = sq r" "kern r = kern r1 + {#e#}"
    "lu_cqes L r1 = lu_cqes L r @ [\<lparr>cqe_data = sqe_data e, cqe_res = z, cqe_flags = f\<rparr>]"
    using assms(1,2) unfolding liburing_ok_def by metis+
  then show ?thesis using assms(3) by (simp add: ring_refs_def)
qed

lemma refs_wait:
  assumes "liburing_ok L sq kern" and "lu_wait_cqe L r = Some (n, r1)"
  shows "ring_refs L sq kern k r1 = ring_refs L sq kern k r \<and> lu_cqes L r1 = lu_cqes L r \<and>
    (0 \<le> n \<longrightarrow> lu_cqes L r1 \<noteq> [])"
proof -
  have "same_queues L sq kern r r1" "0 \<le> n \<longrightarrow> lu_cqes L r1 \<noteq> []"
    using assms unfolding liburing_ok_def by metis+
  then show ?thesis using refs_same by (simp add: same_queues_def)
qed

lemma refs_advance:
  assumes "liburing_ok L sq kern" and "n \<le> length (lu_cqes L r)"
  shows "ring_refs L sq kern 0 (lu_cq_advance L n r) = ring_refs L sq kern n r \<and>
    lu_cqes L (lu_cq_advance L n r) = drop n (lu_cqes L r)"
proof -
  have "sq (lu_cq_advance L n r) = sq r" "kern (lu_cq_advance L n r) = kern r"
    "lu_cqes L (lu_cq_advance L n r) = drop n (lu_cqes L r)"
    using assms unfolding liburing_ok_def by metis+
  then show ?thesis by (simp add: ring_refs_def)
qed

lemma refs_next:
  "n < length (lu_cqes L r) \<Longrightarrow>
    ring_refs L sq kern n r
      = ring_refs L sq kern (n + 1) r
        + (if cqe_data (lu_cqes L r ! n) = 0 then {#} else {#cqe_data (lu_cqes L r ! n)#})"
  by (simp add: ring_refs_def Cons_nth_drop_Suc [symmetric])

section \<open>The invariant\<close>

definition result_of :: "cqe \<Rightarrow> io_result" where
  "result_of e = \<lparr>res = cqe_res e, res_flags = cqe_flags e\<rparr>"

definition outstanding ::
  "'r liburing \<Rightarrow> ('r \<Rightarrow> sqe list) \<Rightarrow> ('r \<Rightarrow> sqe multiset) \<Rightarrow> ('r, 'cb) io_machine \<Rightarrow> address multiset" where
  "outstanding L sq kern m = ring_refs L sq kern (visited (run_pc m)) (ring (ctx m))"

definition io_inv ::
  "'r liburing \<Rightarrow> ('r \<Rightarrow> sqe list) \<Rightarrow> ('r \<Rightarrow> sqe multiset) \<Rightarrow> ('r, 'cb) io_machine \<Rightarrow> bool" where
  "io_inv L sq kern m \<longleftrightarrow>
     finite (dom (heap (ctx m))) \<and>
     outstanding L sq kern m + active (run_pc m) = mset_set (dom (heap (ctx m))) \<and>
     visited (run_pc m) \<le> length (lu_cqes L (ring (ctx m))) \<and>
     posted m = seen m @ drop (visited (run_pc m)) (lu_cqes L (ring (ctx m))) \<and>
     mset (submissions m)
       = mset (map (\<lambda>(cb, req, z). (cb, req)) (deliveries m))
         + image_mset (\<lambda>a. (the (heap (ctx m) a), requests m a)) (outstanding L sq kern m) \<and>
     map (\<lambda>(cb, req, z). z) (deliveries m) = map result_of (filter (\<lambda>e. cqe_data e \<noteq> 0) (seen m)) \<and>
     fault m \<noteq> Some DanglingCallback"

lemma outstanding_dom:
  assumes "io_inv L sq kern m" and "a \<in># outstanding L sq kern m"
  shows "a \<in> dom (heap (ctx m)) \<and> a \<notin># active (run_pc m)"
proof -
  have eq: "outstanding L sq kern m + active (run_pc m) = mset_set (dom (heap (ctx m)))"
    using assms(1) by (simp add: io_inv_def)
  have "count (outstanding L sq kern m) a + count (active (run_pc m)) a = count (mset_set (dom (heap (ctx m)))) a"
    using eq by (metis count_union)
  moreover have "count (mset_set (dom (heap (ctx m)))) a \<le> 1" by (simp add: count_mset_set')
  moreover have "0 < count (outstanding L sq kern m) a" using assms(2) by (simp add: count_greater_zero_iff)
  ultimately have "count (mset_set (dom (heap (ctx m)))) a = 1" "count (active (run_pc m)) a = 0"
    by linarith+
  then show ?thesis by (auto simp: count_mset_set' not_in_iff split: if_splits)
qed

text \<open>A state with the same queues, heap and logs; only the ring has moved on.\<close>

lemma io_inv_ring:
  assumes "io_inv L sq kern m" and "heap (ctx m') = heap (ctx m)"
    and "outstanding L sq kern m' = outstanding L sq kern m" and "active (run_pc m') = active (run_pc m)"
    and "visited (run_pc m') \<le> length (lu_cqes L (ring (ctx m')))"
    and "posted m' = seen m' @ drop (visited (run_pc m')) (lu_cqes L (ring (ctx m')))"
    and "submissions m' = submissions m" and "deliveries m' = deliveries m" and "requests m' = requests m"
    and "filter (\<lambda>e. cqe_data e \<noteq> 0) (seen m') = filter (\<lambda>e. cqe_data e \<noteq> 0) (seen m)"
    and "fault m' \<noteq> Some DanglingCallback"
  shows "io_inv L sq kern m'"
  using assms by (simp add: io_inv_def)

lemma io_inv_submit:
  assumes inv: "io_inv L sq kern m" and ok: "liburing_ok L sq kern"
    and fresh: "a \<noteq> 0" "heap (ctx m) a = None" and slot: "get_sqe L (ring (ctx m)) = (Some i, r1)"
  shows "io_inv L sq kern
    (m\<lparr>ctx := snd (submit_with_cb L i req a cb ((ctx m)\<lparr>ring := r1\<rparr>)),
       submissions := submissions m @ [(cb, req)], requests := (requests m)(a := req)\<rparr>)"
    (is "io_inv L sq kern ?m")
proof -
  let ?h = "heap (ctx m)" and ?W = "outstanding L sq kern m"
  have new: "outstanding L sq kern ?m = ?W + {#a#}" "lu_cqes L (ring (ctx ?m)) = lu_cqes L (ring (ctx m))"
    using refs_get_sqe [OF ok slot, of _ "\<lparr>sqe_request = req, sqe_data = a\<rparr>"] fresh
    by (simp_all add: outstanding_def submit_with_cb_def)
  have heap: "heap (ctx ?m) = ?h(a \<mapsto> cb)" by (simp add: submit_with_cb_def)
  have "image_mset (\<lambda>b. (the ((?h(a \<mapsto> cb)) b), ((requests m)(a := req)) b)) ?W
      = image_mset (\<lambda>b. (the (?h b), requests m b)) ?W"
    using fresh(2) by (intro image_mset_cong) (auto dest!: outstanding_dom [OF inv])
  moreover have "a \<notin> dom ?h" using fresh by (simp add: domIff)
  ultimately show ?thesis
    using inv new(2) unfolding io_inv_def new(1) heap by simp
qed

lemma io_inv_do_call:
  assumes inv: "io_inv L sq kern m" and ok: "liburing_ok L sq kern" and "do_call L a k m = Some m'"
  shows "io_inv L sq kern m' \<and> run_pc m' = run_pc m"
proof (cases k)
  case (Submit req cb)
  then show ?thesis
    using assms(3) io_inv_submit [OF inv ok, of a] io_inv_ring [OF inv, of m']
    by (auto simp: submit_op_def submit_with_cb_def outstanding_def split: if_splits sum.splits prod.splits option.splits)
      (use inv in \<open>auto simp: io_inv_def\<close>)
next
  case (Cancel ptr)
  then show ?thesis
    using assms(3) refs_get_sqe [OF ok, of "ring (ctx m)"] inv
    by (auto simp: submit_cancel_def outstanding_def io_inv_def split: sum.splits prod.splits option.splits)
next
  case StopStore
  then show ?thesis using assms(3) inv by (auto simp: stop_store_def outstanding_def io_inv_def)
next
  case StopNop
  then show ?thesis
    using assms(3) refs_get_sqe [OF ok, of "ring (ctx m)"] refs_get_sqe_none [OF ok, of "ring (ctx m)"] inv
    by (auto simp: stop_nop_def outstanding_def io_inv_def split: sum.splits prod.splits option.splits)
qed

lemma visited_callback:
  assumes inv: "io_inv L sq kern m" and "run_pc m = Each n" and n: "n < length (lu_cqes L (ring (ctx m)))"
    and "cqe_data (lu_cqes L (ring (ctx m)) ! n) \<noteq> 0"
  obtains cb where "heap (ctx m) (cqe_data (lu_cqes L (ring (ctx m)) ! n)) = Some cb"
  using outstanding_dom [OF inv, of "cqe_data (lu_cqes L (ring (ctx m)) ! n)"] refs_next [OF n, of sq kern] assms
  by (auto simp: outstanding_def)

lemma io_inv_visit:
  assumes inv: "io_inv L sq kern m" and pc: "run_pc m = Each n" and n: "n < length (lu_cqes L (ring (ctx m)))"
  shows "io_inv L sq kern (visit L invoke n m)"
proof -
  define e where "e = lu_cqes L (ring (ctx m)) ! n"
  let ?W = "ring_refs L sq kern (n + 1) (ring (ctx m))"
  have next_refs: "outstanding L sq kern m = ?W + (if cqe_data e = 0 then {#} else {#cqe_data e#})"
    using refs_next [OF n, of sq kern] pc by (simp add: outstanding_def e_def)
  have cons: "drop n (lu_cqes L (ring (ctx m))) = e # drop (n + 1) (lu_cqes L (ring (ctx m)))"
    using n by (simp add: e_def Cons_nth_drop_Suc)
  show ?thesis
  proof (cases "cqe_data e = 0")
    case True
    then show ?thesis
      using inv pc n cons next_refs
      by (intro io_inv_ring [OF inv]) (simp_all add: visit_def Let_def e_def outstanding_def io_inv_def)
  next
    case False
    then obtain cb where cb: "heap (ctx m) (cqe_data e) = Some cb"
      using visited_callback [OF inv pc n] by (auto simp: e_def)
    then have "visit L invoke n m
        = m\<lparr>seen := seen m @ [e], run_pc := Invoked n (cqe_data e) (invoke cb (result_of e)),
            deliveries := deliveries m @ [(cb, requests m (cqe_data e), result_of e)]\<rparr>"
      using False by (simp add: visit_def Let_def e_def result_of_def)
    then show ?thesis
      using inv pc n cons next_refs False cb by (simp add: io_inv_def outstanding_def)
  qed
qed

lemma io_inv_delete:
  assumes inv: "io_inv L sq kern m" and pc: "run_pc m = Invoked n b []"
  shows "io_inv L sq kern (m\<lparr>ctx := delete_cb b (ctx m), run_pc := Each (n + 1)\<rparr>)"
    (is "io_inv L sq kern ?m")
proof -
  let ?h = "heap (ctx m)" and ?W = "outstanding L sq kern m"
  have eq: "?W + {#b#} = mset_set (dom ?h)" and fin: "finite (dom ?h)"
    using inv pc by (simp_all add: io_inv_def)
  have "b \<in># mset_set (dom ?h)" unfolding eq [symmetric] by simp
  then have b: "b \<in> dom ?h" using fin by simp
  have W: "outstanding L sq kern ?m = ?W" by (simp add: outstanding_def pc delete_cb_def)
  have heap: "heap (ctx ?m) = ?h(b := None)" by (simp add: delete_cb_def)
  have "?W = mset_set (dom ?h - {b})"
    using eq mset_set.remove [OF fin b] by simp
  moreover have "image_mset (\<lambda>a. (the ((?h(b := None)) a), requests m a)) ?W
      = image_mset (\<lambda>a. (the (?h a), requests m a)) ?W"
    using pc by (intro image_mset_cong) (auto dest!: outstanding_dom [OF inv])
  ultimately show ?thesis
    using inv pc fin unfolding io_inv_def W heap by (simp add: delete_cb_def)
qed

lemma io_inv_run_step:
  assumes inv: "io_inv L sq kern m" and ok: "liburing_ok L sq kern" and step: "run_step L invoke a m = Some m'"
  shows "io_inv L sq kern m'"
proof (cases "run_pc m")
  case Waiting
  then show ?thesis
    using step inv refs_wait [OF ok, of "ring (ctx m)"]
    by (auto simp: outstanding_def io_inv_def split: option.splits)
next
  case (Each n)
  show ?thesis
  proof (cases "n < length (lu_cqes L (ring (ctx m)))")
    case True
    then show ?thesis using step Each io_inv_visit [OF inv Each, of invoke] by auto
  next
    case False
    then have "n = length (lu_cqes L (ring (ctx m)))" using inv Each by (simp add: io_inv_def)
    then show ?thesis
      using step inv Each refs_advance [OF ok, of n "ring (ctx m)"]
      by (auto simp: outstanding_def io_inv_def)
  qed
next
  case (Invoked n b ks)
  show ?thesis
  proof (cases ks)
    case Nil
    then show ?thesis using step Invoked io_inv_delete [OF inv] by simp
  next
    case (Cons k ks')
    then obtain m1 where m1: "do_call L a k m = Some m1" "m' = m1\<lparr>run_pc := Invoked n b ks'\<rparr>"
      using step Invoked by auto
    have "io_inv L sq kern m1" and "run_pc m1 = Invoked n b ks"
      using io_inv_do_call [OF inv ok m1(1)] Invoked by simp_all
    then show ?thesis by (simp add: m1(2) io_inv_def outstanding_def)
  qed
qed (use step inv in \<open>auto simp: io_inv_def outstanding_def\<close>)

lemma io_inv_step:
  assumes inv: "io_inv L sq kern m" and ok: "liburing_ok L sq kern" and step: "io_step L invoke act m = Some m'"
  shows "io_inv L sq kern m'"
proof (cases act)
  case (Complete e z f)
  then obtain r where r: "lu_complete L e z f (ring (ctx m)) = Some r"
    and m': "m' = m\<lparr>ctx := (ctx m)\<lparr>ring := r\<rparr>,
        posted := posted m @ [\<lparr>cqe_data = sqe_data e, cqe_res = z, cqe_flags = f\<rparr>],
        origins := origins m @ [e]\<rparr>"
    using step by (auto split: if_splits)
  have "visited (run_pc m) \<le> length (lu_cqes L (ring (ctx m)))" using inv by (simp add: io_inv_def)
  from refs_complete [OF ok r this] show ?thesis
    using inv by (simp add: m' io_inv_def outstanding_def)
qed (use step io_inv_do_call [OF inv ok] io_inv_run_step [OF inv ok] in
      \<open>auto simp del: run_step.simps split: if_splits\<close>)

lemma io_inv_init:
  assumes ok: "liburing_ok L sq kern" and "ring_ctor L depth = Inr c"
  shows "io_inv L sq kern (io_init c)"
proof -
  obtain n r where "lu_queue_init L depth = (n, r)" "0 \<le> n" "c = \<lparr>ring = r, running = False, heap = (\<lambda>_. None)\<rparr>"
    using assms(2) by (auto simp: ring_ctor_def split: prod.splits if_splits)
  moreover from this have "sq r = []" "kern r = {#}" "lu_cqes L r = []"
    using ok unfolding liburing_ok_def by metis+
  ultimately show ?thesis by (simp add: io_init_def io_inv_def outstanding_def ring_refs_def)
qed

section \<open>Results reach the callback of their request\<close>

definition entries :: "('r \<Rightarrow> sqe list) \<Rightarrow> ('r \<Rightarrow> sqe multiset) \<Rightarrow> 'r \<Rightarrow> sqe set" where
  "entries sq kern r = set (sq r) \<union> set_mset (kern r)"

definition live ::
  "('r \<Rightarrow> sqe list) \<Rightarrow> ('r \<Rightarrow> sqe multiset) \<Rightarrow> ('r, 'cb) io_machine \<Rightarrow> sqe set" where
  "live sq kern m = entries sq kern (ring (ctx m)) \<union> set (drop (length (seen m)) (origins m))"

definition origin_inv ::
  "('r \<Rightarrow> sqe list) \<Rightarrow> ('r \<Rightarrow> sqe multiset) \<Rightarrow> ('r, 'cb) io_machine \<Rightarrow> bool" where
  "origin_inv sq kern m \<longleftrightarrow>
     map sqe_data (origins m) = map cqe_data (posted m) \<and>
     (\<forall>s \<in> live sq kern m. sqe_data s \<noteq> 0 \<longrightarrow> requests m (sqe_data s) = sqe_request s) \<and>
     map (\<lambda>(cb, req, z). req) (deliveries m)
       = map sqe_request (filter (\<lambda>s. sqe_data s \<noteq> 0) (take (length (seen m)) (origins m)))"

lemma entries_submit:
  assumes "liburing_ok L sq kern"
  shows "entries sq kern (snd (lu_submit L r)) = entries sq kern r"
proof -
  obtain n r1 where s: "lu_submit L r = (n, r1)" by fastforce
  then obtain sent where "sq r = sent @ sq r1" "kern r1 = kern r + mset sent"
    using assms unfolding liburing_ok_def by metis
  then show ?thesis by (auto simp: s entries_def)
qed

lemma entries_no_slot:
  assumes "liburing_ok L sq kern" and "lu_get_sqe L r = (None, r1)"
  shows "entries sq kern r1 = entries sq kern r"
proof -
  have "same_queues L sq kern r r1" using assms unfolding liburing_ok_def by metis
  then show ?thesis by (simp add: same_queues_def entries_def)
qed

lemma entries_get_sqe:
  assumes ok: "liburing_ok L sq kern" and slot: "get_sqe L r = (Some i, r1)"
  shows "entries sq kern (snd (lu_submit L (lu_write_sqe L i e r1))) = insert e (entries sq kern r)"
proof -
  obtain r0 where r0: "lu_get_sqe L r0 = (Some i, r1)" and same: "entries sq kern r0 = entries sq kern r"
    using slot entries_submit [OF ok] entries_no_slot [OF ok, of r]
    by (auto simp: get_sqe_def split: prod.splits option.splits)
  have "sq (lu_write_sqe L i e r1) = sq r0 @ [e]" "kern (lu_write_sqe L i e r1) = kern r0"
    using ok r0 unfolding liburing_ok_def by metis+
  then have "entries sq kern (lu_write_sqe L i e r1) = insert e (entries sq kern r0)"
    by (simp add: entries_def)
  then show ?thesis using same entries_submit [OF ok] by simp
qed

lemma entries_get_sqe_none:
  assumes ok: "liburing_ok L sq kern" and slot: "get_sqe L r = (None, r1)"
  shows "entries sq kern r1 = entries sq kern r"
proof -
  obtain r0 where "lu_get_sqe L r = (None, r0)" "lu_get_sqe L (snd (lu_submit L r0)) = (None, r1)"
    using slot by (auto simp: get_sqe_def split: prod.splits option.splits)
  then show ?thesis using entries_no_slot [OF ok] entries_submit [OF ok] by metis
qed

lemma entries_move:
  assumes ok: "liburing_ok L sq kern"
  shows "lu_wait_cqe L r = Some (n, r1) \<Longrightarrow> entries sq kern r1 = entries sq kern r"
    and "k \<le> length (lu_cqes L r) \<Longrightarrow> entries sq kern (lu_cq_advance L k r) = entries sq kern r"
    and "lu_complete L e z f r = Some r2 \<Longrightarrow> insert e (entries sq kern r2) = entries sq kern r"
proof -
  show "entries sq kern r1 = entries sq kern r" if "lu_wait_cqe L r = Some (n, r1)"
  proof -
    have "same_queues L sq kern r r1" using ok that unfolding liburing_ok_def by metis
    then show ?thesis by (simp add: same_queues_def entries_def)
  qed
  show "entries sq kern (lu_cq_advance L k r) = entries sq kern r" if "k \<le> length (lu_cqes L r)"
  proof -
    have "sq (lu_cq_advance L k r) = sq r" "kern (lu_cq_advance L k r) = kern r"
      using ok that unfolding liburing_ok_def by metis+
    then show ?thesis by (simp add: entries_def)
  qed
  show "insert e (entries sq kern r2) = entries sq kern r" if "lu_complete L e z f r = Some r2"
  proof -
    have "sq r2 = sq r" "kern r = kern r2 + {#e#}" using ok that unfolding liburing_ok_def by metis+
    then show ?thesis by (auto simp: entries_def)
  qed
qed

text \<open>A live entry that carries a callback is one of the outstanding references.\<close>

lemma live_outstanding:
  assumes inv: "io_inv L sq kern m" and org: "origin_inv sq kern m"
    and s: "s \<in> live sq kern m" "sqe_data s \<noteq> 0"
  shows "sqe_data s \<in># outstanding L sq kern m"
proof (cases "s \<in> entries sq kern (ring (ctx m))")
  case True
  then show ?thesis using s(2) by (auto simp: entries_def outstanding_def ring_refs_def)
next
  case False
  let ?k = "visited (run_pc m)" and ?c = "lu_cqes L (ring (ctx m))"
  have "map sqe_data (origins m) = map cqe_data (posted m)" using org by (simp add: origin_inv_def)
  from arg_cong [OF this, of "drop (length (seen m))"]
  have "map sqe_data (drop (length (seen m)) (origins m)) = map cqe_data (drop (length (seen m)) (posted m))"
    by (simp add: drop_map)
  also have "drop (length (seen m)) (posted m) = drop ?k ?c" using inv by (simp add: io_inv_def)
  finally have "sqe_data s \<in> set (map cqe_data (drop ?k ?c))"
    using s(1) False by (metis UnE image_eqI list.set_map live_def)
  then show ?thesis using s(2) by (simp add: outstanding_def ring_refs_def)
qed

lemma origin_frame:
  assumes "origin_inv sq kern m" and "live sq kern m' \<subseteq> live sq kern m \<union> {s. sqe_data s = 0}"
    and "origins m' = origins m" and "posted m' = posted m" and "seen m' = seen m"
    and "requests m' = requests m" and "deliveries m' = deliveries m"
  shows "origin_inv sq kern m'"
  using assms by (auto simp: origin_inv_def)

lemma origin_submit:
  assumes inv: "io_inv L sq kern m" and org: "origin_inv sq kern m" and ok: "liburing_ok L sq kern"
    and fresh: "heap (ctx m) a = None" and slot: "get_sqe L (ring (ctx m)) = (Some i, r1)"
  shows "origin_inv sq kern
    (m\<lparr>ctx := snd (submit_with_cb L i req a cb ((ctx m)\<lparr>ring := r1\<rparr>)),
       submissions := submissions m @ [(cb, req)], requests := (requests m)(a := req)\<rparr>)"
proof -
  have old: "sqe_data s \<noteq> a" if "s \<in> live sq kern m" "sqe_data s \<noteq> 0" for s
    using outstanding_dom [OF inv live_outstanding [OF inv org that]] fresh by auto
  have "entries sq kern (snd (lu_submit L (lu_write_sqe L i \<lparr>sqe_request = req, sqe_data = a\<rparr> r1)))
      = insert \<lparr>sqe_request = req, sqe_data = a\<rparr> (entries sq kern (ring (ctx m)))"
    by (rule entries_get_sqe [OF ok slot])
  then show ?thesis
    using org old by (auto simp: origin_inv_def live_def submit_with_cb_def)
qed

lemma origin_do_call:
  assumes inv: "io_inv L sq kern m" and org: "origin_inv sq kern m" and ok: "liburing_ok L sq kern"
    and step: "do_call L a k m = Some m'"
  shows "origin_inv sq kern m'"
proof (cases k)
  case (Submit req cb)
  show ?thesis
  proof (cases "get_sqe L (ring (ctx m))")
    case (Pair slot r1)
    then show ?thesis
      using step Submit origin_submit [OF inv org ok, of a _ r1 req cb] org
      by (cases slot) (auto simp: submit_op_def submit_with_cb_def origin_inv_def live_def split: if_splits)
  qed
next
  case (Cancel ptr)
  then show ?thesis
    using step entries_get_sqe [OF ok, of "ring (ctx m)"]
    by (auto simp: submit_cancel_def live_def split: sum.splits prod.splits option.splits
        intro!: origin_frame [OF org])
next
  case StopStore
  then show ?thesis using step by (auto simp: stop_store_def live_def intro!: origin_frame [OF org])
next
  case StopNop
  then show ?thesis
    using step entries_get_sqe [OF ok, of "ring (ctx m)"] entries_get_sqe_none [OF ok, of "ring (ctx m)"]
    by (auto simp: stop_nop_def live_def split: prod.splits option.splits intro!: origin_frame [OF org])
qed

lemma origin_visit:
  assumes inv: "io_inv L sq kern m" and org: "origin_inv sq kern m" and pc: "run_pc m = Each n"
    and n: "n < length (lu_cqes L (ring (ctx m)))"
  shows "origin_inv sq kern (visit L invoke n m)"
proof -
  define e s where "e = lu_cqes L (ring (ctx m)) ! n" and "s = origins m ! length (seen m)"
  have posted: "posted m = seen m @ drop n (lu_cqes L (ring (ctx m)))" using inv pc by (simp add: io_inv_def)
  have data: "map sqe_data (origins m) = map cqe_data (posted m)" using org by (simp add: origin_inv_def)
  have len: "length (seen m) < length (origins m)"
    using arg_cong [OF data, of length] posted n by simp
  have "posted m ! length (seen m) = e" using posted n by (simp add: e_def nth_append)
  then have same: "sqe_data s = cqe_data e"
    using arg_cong [OF data, of "\<lambda>xs. xs ! length (seen m)"] len arg_cong [OF data, of length]
    by (simp add: s_def)
  have split: "take (Suc (length (seen m))) (origins m) = take (length (seen m)) (origins m) @ [s]"
    "drop (length (seen m)) (origins m) = s # drop (Suc (length (seen m))) (origins m)"
    using len by (simp_all add: s_def take_Suc_conv_app_nth Cons_nth_drop_Suc)
  then have req: "requests m (cqe_data e) = sqe_request s" if "cqe_data e \<noteq> 0"
    using org that same by (auto simp: origin_inv_def live_def)
  have sub: "live sq kern (visit L invoke n m) \<subseteq> live sq kern m"
    using split(2) by (auto simp: live_def visit_def Let_def split: option.splits)
  show ?thesis
  proof (cases "cqe_data e = 0")
    case True
    then show ?thesis
      using org sub split(1) same unfolding origin_inv_def by (auto simp: visit_def Let_def e_def)
  next
    case False
    then obtain cb where "heap (ctx m) (cqe_data e) = Some cb"
      using visited_callback [OF inv pc n] by (auto simp: e_def)
    then show ?thesis
      using org sub split(1) req same False unfolding origin_inv_def
      by (auto simp: visit_def Let_def e_def)
  qed
qed

lemma origin_run_step:
  assumes inv: "io_inv L sq kern m" and org: "origin_inv sq kern m" and ok: "liburing_ok L sq kern"
    and step: "run_step L invoke a m = Some m'"
  shows "origin_inv sq kern m'"
proof (cases "run_pc m")
  case Waiting
  then show ?thesis
    using step entries_move(1) [OF ok, of "ring (ctx m)"]
    by (auto simp: live_def split: option.splits intro!: origin_frame [OF org])
next
  case (Each n)
  show ?thesis
  proof (cases "n < length (lu_cqes L (ring (ctx m)))")
    case True
    then show ?thesis using step Each origin_visit [OF inv org Each, of invoke] by auto
  next
    case False
    then have "n \<le> length (lu_cqes L (ring (ctx m)))" using inv Each by (simp add: io_inv_def)
    then show ?thesis
      using step Each False entries_move(2) [OF ok, of n "ring (ctx m)"]
      by (auto simp: live_def intro!: origin_frame [OF org])
  qed
next
  case (Invoked n b ks)
  show ?thesis
  proof (cases ks)
    case Nil
    then show ?thesis
      using step Invoked by (auto simp: live_def delete_cb_def intro!: origin_frame [OF org])
  next
    case (Cons k ks')
    then obtain m1 where m1: "do_call L a k m = Some m1" "m' = m1\<lparr>run_pc := Invoked n b ks'\<rparr>"
      using step Invoked by auto
    show ?thesis
      using origin_do_call [OF inv org ok m1(1)] by (simp add: m1(2) origin_inv_def live_def)
  qed
qed (use step in \<open>auto simp: live_def intro!: origin_frame [OF org]\<close>)

lemma origin_complete:
  assumes inv: "io_inv L sq kern m" and org: "origin_inv sq kern m" and ok: "liburing_ok L sq kern"
    and r: "lu_complete L e z f (ring (ctx m)) = Some r"
  shows "origin_inv sq kern
    (m\<lparr>ctx := (ctx m)\<lparr>ring := r\<rparr>,
       posted := posted m @ [\<lparr>cqe_data = sqe_data e, cqe_res = z, cqe_flags = f\<rparr>],
       origins := origins m @ [e]\<rparr>)"
proof -
  have "map sqe_data (origins m) = map cqe_data (posted m)" using org by (simp add: origin_inv_def)
  from arg_cong [OF this, of length] have "length (seen m) \<le> length (origins m)"
    using inv by (auto simp: io_inv_def)
  moreover have "insert e (entries sq kern r) = entries sq kern (ring (ctx m))"
    by (rule entries_move(3) [OF ok r])
  ultimately show ?thesis using org by (auto simp: origin_inv_def live_def)
qed

lemma origin_step:
  assumes inv: "io_inv L sq kern m" and org: "origin_inv sq kern m" and ok: "liburing_ok L sq kern"
    and step: "io_step L invoke act m = Some m'"
  shows "origin_inv sq kern m'"
proof (cases act)
  case (Complete e z f)
  then show ?thesis using step origin_complete [OF inv org ok] by (auto split: if_splits)
qed (use step origin_do_call [OF inv org ok] origin_run_step [OF inv org ok] in
      \<open>auto simp del: run_step.simps split: if_splits\<close>)

lemma origin_init: 
  assumes ok: "liburing_ok L sq kern" and "ring_ctor L depth = Inr c"
  shows "origin_inv sq kern (io_init c)"
proof -
  obtain n r where "lu_queue_init L depth = (n, r)" "0 \<le> n" "ring c = r"
    using assms(2) by (auto simp: ring_ctor_def split: prod.splits if_splits)
  moreover from this have "sq r = []" "kern r = {#}"
    using ok unfolding liburing_ok_def by metis+
  ultimately show ?thesis by (simp add: origin_inv_def io_init_def live_def entries_def)
qed

text \<open>Both invariants hold in every execution that starts with the constructor.\<close>

definition io_ok ::
  "'r liburing \<Rightarrow> ('r \<Rightarrow> sqe list) \<Rightarrow> ('r \<Rightarrow> sqe multiset) \<Rightarrow> ('r, 'cb) io_machine \<Rightarrow> bool" where
  "io_ok L sq kern m \<longleftrightarrow> io_inv L sq kern m \<and> origin_inv sq kern m"

lemma io_ok_system:
  assumes ok: "liburing_ok L sq kern" and "ring_ctor L depth = Inr c"
  shows "invariant_system (io_init c) (io_step L invoke) (io_ok L sq kern)"
proof
  show "io_ok L sq kern (io_init c)"
    using io_inv_init [OF assms] origin_init [OF assms] by (simp add: io_ok_def)
  show "io_ok L sq kern t" if "io_ok L sq kern s" "io_step L invoke act s = Some t" for s t act
    using that io_inv_step [OF _ ok that(2)] origin_step [OF _ _ ok that(2)] by (simp add: io_ok_def)
qed

lemma io_ok_exec:
  assumes "liburing_ok L sq kern" and "ring_ctor L depth = Inr c"
    and "exec (io_step L invoke) as (io_init c) = Some m"
  shows "io_inv L sq kern m" and "origin_inv sq kern m"
  using invariant_system.inv_exec [OF io_ok_system [OF assms(1,2)] invariant_system.inv_init
      [OF io_ok_system [OF assms(1,2)]] assms(3)]
  by (simp_all add: io_ok_def)

end
