(* ===== verification/IO_Properties.thy ===== *)
theory IO_Properties
  imports IO_Run
begin

text \<open>
  The properties of \<open>io_context\<close>: its callbacks, its completions, its error paths and its
  event loop. A small ring that keeps its queues as lists shows that the assumptions on
  \<open>liburing\<close> can be met.
\<close>

section \<open>A ring that meets the assumptions\<close>

text \<open>While \<open>lr_busy\<close> holds, \<open>io_uring_submit\<close> fails with \<open>-EBUSY\<close>.\<close>

record list_ring =
  lr_depth :: nat
  lr_busy :: bool
  lr_sq :: "sqe list"
  lr_kern :: "sqe list"
  lr_cq :: "cqe list"

definition list_liburing :: "list_ring liburing" where
  "list_liburing =
     \<lparr>lu_queue_init =
        (\<lambda>d. (if d = 0 then - 22 else 0, \<lparr>lr_depth = unat d, lr_busy = False, lr_sq = [], lr_kern = [], lr_cq = []\<rparr>)),
      lu_get_sqe = (\<lambda>r. (if length (lr_sq r) < lr_depth r then Some (length (lr_sq r)) else None, r)),
      lu_write_sqe = (\<lambda>i e r. r\<lparr>lr_sq := lr_sq r @ [e]\<rparr>),
      lu_submit =
        (\<lambda>r. if lr_busy r then (- 16, r)
             else (int (length (lr_sq r)), r\<lparr>lr_sq := [], lr_kern := lr_kern r @ lr_sq r\<rparr>)),
      lu_wait_cqe = (\<lambda>r. if lr_cq r = [] then None else Some (0, r)),
      lu_cqes = lr_cq,
      lu_cq_advance = (\<lambda>n r. r\<lparr>lr_cq := drop n (lr_cq r)\<rparr>),
      lu_register_buffers = (\<lambda>iovs r. (if iovs = [] then - 22 else 0, r)),
      lu_unregister_buffers = (\<lambda>r. (0, r)),
      lu_queue_exit = (\<lambda>r. r\<lparr>lr_sq := [], lr_kern := [], lr_cq := []\<rparr>),
      lu_complete =
        (\<lambda>e z f r. if e \<in> set (lr_kern r)
                   then Some (r\<lparr>lr_kern := remove1 e (lr_kern r),
                               lr_cq := lr_cq r @ [\<lparr>cqe_data = sqe_data e, cqe_res = z, cqe_flags = f\<rparr>]\<rparr>)
                   else None)\<rparr>"

lemma list_liburing_ok: "liburing_ok list_liburing lr_sq (\<lambda>r. mset (lr_kern r))"
  unfolding liburing_ok_def same_queues_def
  by (intro conjI) (auto simp: list_liburing_def split: if_splits)

text \<open>An evaluated run: submit a read, complete it, and let \<open>run\<close> deliver the result.\<close>

abbreviation demo_ctx :: "(list_ring, nat) io_context" where
  "demo_ctx \<equiv> \<lparr>ring = \<lparr>lr_depth = 8, lr_busy = False, lr_sq = [], lr_kern = [], lr_cq = []\<rparr>,
     running = False, heap = (\<lambda>_. None)\<rparr>"

lemma demo_ctor: "ring_ctor list_liburing 8 = Inr demo_ctx"
  by (simp add: ring_ctor_def list_liburing_def)

abbreviation demo_run :: "nat io_action list" where
  "demo_run \<equiv>
     [ThreadCall 100 (Submit (PrepRead 3 64 16 0) 7), RunStep 0, RunStep 0,
      Complete \<lparr>sqe_request = PrepRead 3 64 16 0, sqe_data = 100\<rparr> 16 0, RunStep 0, RunStep 0, RunStep 0]"

lemmas io_eval = io_init_def submit_op_def submit_with_cb_def get_sqe_def visit_def delete_cb_def Let_def
  list_liburing_def stop_def stop_store_def stop_nop_def submit_cancel_def

abbreviation demo_end :: "(list_ring, nat) io_machine" where
  "demo_end \<equiv>
     \<lparr>ctx = \<lparr>ring = \<lparr>lr_depth = 8, lr_busy = False, lr_sq = [], lr_kern = [],
                  lr_cq = [\<lparr>cqe_data = 100, cqe_res = 16, cqe_flags = 0\<rparr>]\<rparr>,
            running = True, heap = (\<lambda>_. None)\<rparr>,
      run_pc = Each 1, fault = None, submissions = [(7, PrepRead 3 64 16 0)],
      deliveries = [(7, PrepRead 3 64 16 0, \<lparr>res = 16, res_flags = 0\<rparr>)],
      posted = [\<lparr>cqe_data = 100, cqe_res = 16, cqe_flags = 0\<rparr>],
      origins = [\<lparr>sqe_request = PrepRead 3 64 16 0, sqe_data = 100\<rparr>],
      seen = [\<lparr>cqe_data = 100, cqe_res = 16, cqe_flags = 0\<rparr>],
      requests = (\<lambda>_. PrepNop)(100 := PrepRead 3 64 16 0)\<rparr>"

lemma demo_exec: "exec (io_step list_liburing (\<lambda>cb z. [])) demo_run (io_init demo_ctx) = Some demo_end"
  by (simp add: io_eval)

section \<open>Callbacks and completions\<close>

text \<open>
  C8. The callbacks are memory safe: whatever the threads, the callbacks and the kernel do, \<open>run\<close>
  never calls through a dangling pointer, the callback it is executing is alive, and the live
  heap cells are exactly the ones that are referred to, each once: by an entry that is prepared,
  by a request in the kernel, by a completion that \<open>run\<close> has not visited, or by \<open>run\<close> itself. So no
  callback is deleted twice and none leaks.
\<close>

theorem callback_memory_safe:
  assumes "liburing_ok L sq kern" and "ring_ctor L depth = Inr c"
    and "exec (io_step L invoke) as (io_init c) = Some m"
  shows "fault m \<noteq> Some DanglingCallback \<and> finite (dom (heap (ctx m))) \<and>
    mset_set (dom (heap (ctx m))) = outstanding L sq kern m + active (run_pc m) \<and>
    (\<forall>n a ks. run_pc m = Invoked n a ks \<longrightarrow> a \<in> dom (heap (ctx m)))"
proof -
  have inv: "io_inv L sq kern m" by (rule io_ok_exec [OF assms])
  then have eq: "mset_set (dom (heap (ctx m))) = outstanding L sq kern m + active (run_pc m)"
    and fin: "finite (dom (heap (ctx m)))" by (simp_all add: io_inv_def)
  have "a \<in> dom (heap (ctx m))" if "run_pc m = Invoked n a ks" for n a ks
  proof -
    have "a \<in># mset_set (dom (heap (ctx m)))" using that unfolding eq by simp
    then show ?thesis using fin by simp
  qed
  then show ?thesis using inv eq fin by (simp add: io_inv_def)
qed

theorem callback_memory_safe_witness:
  "exec (io_step list_liburing (\<lambda>cb z. [])) demo_run (io_init demo_ctx) = Some demo_end \<and>
   fault demo_end \<noteq> Some DanglingCallback \<and>
   outstanding list_liburing lr_sq (\<lambda>r. mset (lr_kern r)) demo_end = {#}"
  using demo_exec callback_memory_safe [OF list_liburing_ok demo_ctor demo_exec] by simp

text \<open>
  C6. Every submitted callback is invoked at most once, and it is invoked for the request it was
  submitted with: the submitted pairs of callback and request are the delivered ones and the
  outstanding ones. When nothing is outstanding, all have been delivered.
\<close>

theorem callbacks_exactly_once:
  assumes "liburing_ok L sq kern" and "ring_ctor L depth = Inr c"
    and "exec (io_step L invoke) as (io_init c) = Some m"
  shows "mset (submissions m) = mset (map (\<lambda>(cb, req, z). (cb, req)) (deliveries m))
      + image_mset (\<lambda>a. (the (heap (ctx m) a), requests m a)) (outstanding L sq kern m) \<and>
    (sq (ring (ctx m)) = [] \<and> kern (ring (ctx m)) = {#} \<and>
       drop (visited (run_pc m)) (lu_cqes L (ring (ctx m))) = [] \<longrightarrow>
     mset (submissions m) = mset (map (\<lambda>(cb, req, z). (cb, req)) (deliveries m)))"
  using io_ok_exec(1) [OF assms] by (auto simp: io_inv_def outstanding_def ring_refs_def)

theorem callbacks_exactly_once_witness:
  "exec (io_step list_liburing (\<lambda>cb z. [])) demo_run (io_init demo_ctx) = Some demo_end \<and>
   mset (submissions demo_end) = mset (map (\<lambda>(cb, req, z). (cb, req)) (deliveries demo_end))
     + image_mset (\<lambda>a. (the (heap (ctx demo_end) a), requests demo_end a))
         (outstanding list_liburing lr_sq (\<lambda>r. mset (lr_kern r)) demo_end)"
  using demo_exec callbacks_exactly_once [OF list_liburing_ok demo_ctor demo_exec] by blast

lemma filter_zip_same:
  assumes "map f xs = map g ys"
  shows "filter (\<lambda>(x, y). P (g y)) (zip xs ys) = zip (filter (\<lambda>x. P (f x)) xs) (filter (\<lambda>y. P (g y)) ys)"
proof -
  have "length xs = length ys" using assms by (rule map_eq_imp_length_eq)
  then show ?thesis using assms by (induction rule: list_induct2) auto
qed

text \<open>The log of deliveries, in terms of the completions that have been visited.\<close>

lemma deliveries_match:
  assumes inv: "io_inv L sq kern m" and org: "origin_inv sq kern m"
  shows "map (\<lambda>(cb, req, z). (req, z)) (deliveries m)
    = map (\<lambda>(s, e). (sqe_request s, result_of e))
        (filter (\<lambda>(s, e). cqe_data e \<noteq> 0) (zip (take (length (seen m)) (origins m)) (seen m)))"
proof -
  let ?n = "length (seen m)"
  have posted: "posted m = seen m @ drop (visited (run_pc m)) (lu_cqes L (ring (ctx m)))"
    using inv by (simp add: io_inv_def)
  have "map sqe_data (origins m) = map cqe_data (posted m)" using org by (simp add: origin_inv_def)
  from arg_cong [OF this, of "take ?n"]
  have data: "map sqe_data (take ?n (origins m)) = map cqe_data (seen m)"
    by (simp add: posted take_map)
  have "map (\<lambda>(cb, req, z). (req, z)) ds = zip (map (\<lambda>(cb, req, z). req) ds) (map (\<lambda>(cb, req, z). z) ds)"
    for ds :: "('b \<times> sqe_op \<times> io_result) list"
    by (induction ds) auto
  then have "map (\<lambda>(cb, req, z). (req, z)) (deliveries m)
      = zip (map (\<lambda>(cb, req, z). req) (deliveries m)) (map (\<lambda>(cb, req, z). z) (deliveries m))" .
  also have "\<dots> = zip (map sqe_request (filter (\<lambda>s. sqe_data s \<noteq> 0) (take ?n (origins m))))
      (map result_of (filter (\<lambda>e. cqe_data e \<noteq> 0) (seen m)))"
    using inv org by (simp add: io_inv_def origin_inv_def)
  also have "\<dots> = map (\<lambda>(s, e). (sqe_request s, result_of e))
      (filter (\<lambda>(s, e). cqe_data e \<noteq> 0) (zip (take ?n (origins m)) (seen m)))"
    using filter_zip_same [OF data, of "\<lambda>a. 0 < a"] by (simp add: zip_map_map)
  finally show ?thesis .
qed

text \<open>
  Completions are consumed once each and in the order in which the kernel posts them, and
  each callback is invoked with the result that the kernel has posted for its own request, in
  that order.
\<close>

lemma results_reach_callbacks:
  assumes "liburing_ok L sq kern" and "ring_ctor L depth = Inr c"
    and "exec (io_step L invoke) as (io_init c) = Some m"
  shows "posted m = seen m @ drop (visited (run_pc m)) (lu_cqes L (ring (ctx m))) \<and>
    map (\<lambda>(cb, req, z). (req, z)) (deliveries m)
      = map (\<lambda>(s, e). (sqe_request s, result_of e))
          (filter (\<lambda>(s, e). cqe_data e \<noteq> 0) (zip (take (length (seen m)) (origins m)) (seen m)))"
  using io_ok_exec [OF assms] deliveries_match [OF io_ok_exec [OF assms]] by (simp add: io_inv_def)

section \<open>Error paths and widths\<close>

lemma fault_do_call:
  assumes "do_call L a k m = Some m'" and "fault m = None"
    and drains: "\<And>r. fst (lu_get_sqe L (snd (lu_submit L r))) \<noteq> None"
  shows "fault m' = None"
proof -
  have slot: "fst (get_sqe L r) \<noteq> None" for r
    using drains [of "snd (lu_get_sqe L r)"] by (auto simp: get_sqe_def split: prod.splits option.splits)
  show ?thesis
    using assms(1,2) slot [of "ring (ctx m)"]
    by (cases k) (auto simp: submit_op_def submit_cancel_def split: if_splits prod.splits option.splits)
qed

text \<open>
  If \<open>io_uring_submit\<close> always frees a slot, no execution runs into undefined behaviour: the
  retry of \<open>get_sqe\<close> finds a slot for every submission.
\<close>

lemma no_fault_if_drains:
  assumes "liburing_ok L sq kern" and "ring_ctor L depth = Inr c"
    and "exec (io_step L invoke) as (io_init c) = Some m"
    and drains: "\<And>r. fst (lu_get_sqe L (snd (lu_submit L r))) \<noteq> None"
  shows "fault m = None"
proof -
  let ?I = "\<lambda>m. io_ok L sq kern m \<and> fault m = None"
  have "invariant_system (io_init c) (io_step L invoke) ?I"
  proof
    show "?I (io_init c)"
      using invariant_system.inv_init [OF io_ok_system [OF assms(1,2)]] by (simp add: io_init_def)
    show "?I t" if "?I s" "io_step L invoke act s = Some t" for s t act
    proof -
      have ok: "io_ok L sq kern t"
        using that invariant_system.inv_step [OF io_ok_system [OF assms(1,2)]] by blast
      have "fault t = None \<or> fault t = Some DanglingCallback"
        using that fault_do_call [OF _ _ drains]
        by (cases act; cases "run_pc s")
          (auto simp: visit_def Let_def split: if_splits option.splits list.splits)
      then show ?thesis using ok by (auto simp: io_ok_def io_inv_def)
    qed
  qed
  from invariant_system.inv_exec [OF this invariant_system.inv_init [OF this] assms(3)] show ?thesis ..
qed

text \<open>A ring that grows when it is full: a slot is always free.\<close>

definition growing_liburing :: "list_ring liburing" where
  "growing_liburing = list_liburing\<lparr>lu_get_sqe := (\<lambda>r. (Some (length (lr_sq r)), r))\<rparr>"

lemma growing_liburing_ok: "liburing_ok growing_liburing lr_sq (\<lambda>r. mset (lr_kern r))"
  unfolding liburing_ok_def same_queues_def
  by (intro conjI) (auto simp: growing_liburing_def list_liburing_def split: if_splits)

lemma no_fault_if_drains_growing:
  "\<exists>m. exec (io_step growing_liburing (\<lambda>cb z. [])) [ThreadCall 100 (Submit (PrepAccept 3) True)] (io_init
      \<lparr>ring = \<lparr>lr_depth = 1, lr_busy = False, lr_sq = [], lr_kern = [], lr_cq = []\<rparr>,
       running = False, heap = (\<lambda>_. None)\<rparr>) = Some m \<and> fault m = None"
proof -
  let ?c = "\<lparr>ring = \<lparr>lr_depth = 1, lr_busy = False, lr_sq = [], lr_kern = [], lr_cq = []\<rparr>,
       running = False, heap = (\<lambda>_. None)\<rparr> :: (list_ring, bool) io_context"
  have "ring_ctor growing_liburing 1 = Inr ?c"
    by (simp add: ring_ctor_def growing_liburing_def list_liburing_def)
  moreover obtain m where m: "exec (io_step growing_liburing (\<lambda>cb z. []))
      [ThreadCall 100 (Submit (PrepAccept 3) True)] (io_init ?c) = Some m"
    by (simp add: growing_liburing_def io_eval)
  ultimately have "fault m = None"
    by (rule no_fault_if_drains [OF growing_liburing_ok])
      (simp add: growing_liburing_def list_liburing_def)
  then show ?thesis using m by blast
qed

text \<open>
  When no slot is free even after \<open>io_uring_submit\<close>, all submission functions and
  \<open>submit_cancel\<close> write through a null pointer; only \<open>stop\<close> tests the slot, clears \<open>running\<close> and
  submits nothing.
\<close>

lemma submit_without_slot:
  assumes "get_sqe L (ring c) = (None, r)"
  shows "submit_read L fd buf offset a cb c = Inl NullSqe \<and>
    submit_write L fd buf offset a cb c = Inl NullSqe \<and>
    submit_accept L fd a cb c = Inl NullSqe \<and>
    submit_recv L fd buf flags a cb c = Inl NullSqe \<and>
    submit_send L fd buf flags a cb c = Inl NullSqe \<and>
    submit_read_fixed L fd index buf offset a cb c = Inl NullSqe \<and>
    submit_write_fixed L fd index buf offset a cb c = Inl NullSqe \<and>
    submit_cancel L ptr c = Inl NullSqe \<and>
    stop L c = c\<lparr>running := False, ring := r\<rparr>"
  using assms
  by (simp add: submit_read_def submit_write_def submit_accept_def submit_recv_def submit_send_def
      submit_read_fixed_def submit_write_fixed_def submit_op_def submit_cancel_def stop_def stop_store_def stop_nop_def)

text \<open>It happens on a full ring whose submission fails with \<open>-EBUSY\<close>.\<close>

lemma submit_accept_faults:
  "submit_accept list_liburing 3 100 True
     \<lparr>ring = \<lparr>lr_depth = 1, lr_busy = True, lr_sq = [\<lparr>sqe_request = PrepNop, sqe_data = 0\<rparr>], lr_kern = [], lr_cq = []\<rparr>,
      running = True, heap = (\<lambda>_. None)\<rparr> = Inl NullSqe"
  by (simp add: submit_accept_def io_eval)

text \<open>
  Lengths: \<open>read\<close>, \<open>write\<close> and their fixed variants pass the size of the buffer modulo
  \<open>2^32\<close>, which is the size exactly if it is below \<open>2^32\<close>; \<open>recv\<close> and \<open>send\<close> pass it in full. The
  buffer index is passed as the signed number with the same bits.
\<close>

lemma submitted_lengths:
  "(\<exists>n. submit_read L fd buf offset = submit_op L (PrepRead fd (span_data buf) n offset) \<and>
        submit_write L fd buf offset = submit_op L (PrepWrite fd (span_data buf) n offset) \<and>
        submit_read_fixed L fd index buf offset
          = submit_op L (PrepReadFixed fd (span_data buf) n offset (sint index)) \<and>
        submit_write_fixed L fd index buf offset
          = submit_op L (PrepWriteFixed fd (span_data buf) n offset (sint index)) \<and>
        unat n = unat (span_size buf) mod 2 ^ 32 \<and>
        (unat n = unat (span_size buf) \<longleftrightarrow> unat (span_size buf) < 2 ^ 32)) \<and>
   submit_recv L fd buf flags = submit_op L (PrepRecv fd (span_data buf) (span_size buf) flags) \<and>
   submit_send L fd buf flags = submit_op L (PrepSend fd (span_data buf) (span_size buf) flags)"
proof -
  let ?n = "ucast (span_size buf) :: u32"
  have n: "unat ?n = unat (span_size buf) mod 2 ^ 32"
    by (simp add: unsigned_ucast_eq take_bit_eq_mod)
  then have "unat ?n = unat (span_size buf) \<longleftrightarrow> unat (span_size buf) < 2 ^ 32"
    by (metis mod_less mod_less_divisor zero_less_numeral zero_less_power)
  with n show ?thesis
    unfolding submit_read_def submit_write_def submit_read_fixed_def submit_write_fixed_def
      submit_recv_def submit_send_def by (intro conjI exI [of _ ?n]) simp_all
qed

text \<open>
  Errors of the system calls: the constructor throws, and buffer registration returns,
  exactly the negated negative return value; otherwise the context is usable, with no callback
  alive. Registration passes one \<open>iovec\<close> per buffer, in order, with its address and size, as
  long as there are fewer than \<open>2^32\<close> of them.
\<close>

lemma errors_are_negated:
  "((ring_ctor L depth :: error_code + ('r, 'cb) io_context) = Inl e \<longleftrightarrow> fst (lu_queue_init L depth) < 0 \<and> e = Errno (- fst (lu_queue_init L depth))) \<and>
   (ring_ctor L depth = Inr (c :: ('r, 'cb) io_context) \<longrightarrow> \<not> running c \<and> dom (heap c) = {} \<and> ring c = snd (lu_queue_init L depth)) \<and>
   (\<exists>iovs. length iovs = length bufs mod 2 ^ 32 \<and>
      (\<forall>i < length iovs. iov_base (iovs ! i) = span_data (bufs ! i) \<and> iov_len (iovs ! i) = span_size (bufs ! i)) \<and>
      (let ret = fst (lu_register_buffers L iovs (ring d)) in
       fst (register_buffers L bufs d) = (if ret < 0 then Inl (Errno (- ret)) else Inr ()))) \<and>
   (let ret = fst (lu_unregister_buffers L (ring d)) in
    fst (unregister_buffers L d) = (if ret < 0 then Inl (Errno (- ret)) else Inr ()))"
  by (auto simp: ring_ctor_def register_buffers_def unregister_buffers_def Let_def unsigned_of_nat take_bit_eq_mod split: prod.splits
      intro!: exI [of _ "take (length bufs mod 2 ^ 32) (map (\<lambda>b. \<lparr>iov_base = span_data b, iov_len = span_size b\<rparr>) bufs)"])

section \<open>\<open>stop\<close> and the end of \<open>run\<close>\<close>

text \<open>How far \<open>run\<close> is from its return, once \<open>running\<close> is false.\<close>

fun run_phase :: "'cb run_pc \<Rightarrow> nat" where
  "run_phase NotRunning = 4"
| "run_phase Waiting = 3"
| "run_phase (Each n) = 2"
| "run_phase (Invoked n a ks) = 2"
| "run_phase Head = 1"
| "run_phase Returned = 0"

lemma do_call_control:
  assumes "do_call L a k m = Some m'"
  shows "run_pc m' = run_pc m \<and> (running (ctx m') \<longrightarrow> running (ctx m)) \<and>
    (k = StopStore \<longrightarrow> \<not> running (ctx m'))"
  using assms
  by (cases k)
    (auto simp: submit_op_def submit_with_cb_def submit_cancel_def stop_def stop_store_def stop_nop_def
      split: if_splits prod.splits option.splits)

lemma stopped_step:
  assumes "io_step L invoke act m = Some m'" and "\<not> running (ctx m)" and "run_pc m \<noteq> NotRunning"
  shows "\<not> running (ctx m') \<and> run_pc m' \<noteq> NotRunning \<and> run_phase (run_pc m') \<le> run_phase (run_pc m) \<and>
    (run_pc m' = Waiting \<longrightarrow> run_pc m = Waiting \<and> act \<notin> range RunStep)"
proof (cases act)
  case (ThreadCall a k)
  then show ?thesis using assms do_call_control [of L a k m m'] by (auto split: if_splits)
next
  case (Complete e z f)
  then show ?thesis using assms by (auto split: if_splits)
next
  case (RunStep a)
  then have step: "run_step L invoke a m = Some m'" using assms(1) by (auto simp del: run_step.simps split: if_splits)
  show ?thesis
  proof (cases "run_pc m")
    case (Invoked n b ks)
    then show ?thesis
      using step assms(2) do_call_control [of L a "hd ks" m]
      by (cases ks) (auto simp: delete_cb_def)
  qed (use step assms RunStep in
      \<open>auto simp: visit_def Let_def split: if_splits option.splits prod.splits\<close>)
qed

text \<open>
  \<open>stop\<close> ends a \<open>run\<close> that has begun: once \<open>running\<close> has been cleared it stays clear whatever the
  other threads, the callbacks and the kernel do, \<open>run\<close> only moves towards its return, it calls
  \<open>io_uring_wait_cqe\<close> no more once it has left it, and at the head of the loop it returns.
\<close>

lemma stop_is_final:
  assumes "\<not> running (ctx m)" and "run_pc m \<noteq> NotRunning"
    and "exec (io_step L invoke) as m = Some m'"
  shows "\<not> running (ctx m') \<and> run_phase (run_pc m') \<le> run_phase (run_pc m) \<and>
    (run_pc m' = Waiting \<longrightarrow> run_pc m = Waiting \<and> set as \<inter> range RunStep = {}) \<and>
    (run_pc m' = Head \<and> fault m' = None \<longrightarrow>
       io_step L invoke (RunStep a) m' = Some (m'\<lparr>run_pc := Returned\<rparr>))"
proof -
  have "\<not> running (ctx m') \<and> run_pc m' \<noteq> NotRunning \<and> run_phase (run_pc m') \<le> run_phase (run_pc m) \<and>
    (run_pc m' = Waiting \<longrightarrow> run_pc m = Waiting \<and> set as \<inter> range RunStep = {})"
    using assms
  proof (induction as arbitrary: m)
    case (Cons act as)
    then obtain u where u: "io_step L invoke act m = Some u" "exec (io_step L invoke) as u = Some m'"
      by (auto simp del: io_step.simps split: option.splits)
    note step = stopped_step [OF u(1) Cons.prems(1,2)]
    with Cons.IH [of u] u(2) show ?case by (auto simp del: io_step.simps)
  qed simp
  then show ?thesis by simp
qed

text \<open>
  A \<open>stop\<close> that comes before \<open>run\<close>, or that has only cleared \<open>running\<close> when \<open>run\<close> begins, is
  lost: \<open>run\<close> sets \<open>running\<close> again and goes on to wait, on any ring and whatever the callbacks do.
\<close>

lemma stop_before_run_is_lost:
  "(\<exists>m. exec (io_step L invoke) [ThreadCall a StopStore, ThreadCall a StopNop, RunStep b, RunStep b] (io_init c) = Some m \<and>
      running (ctx m) \<and> run_pc m = Waiting) \<and>
   (\<exists>m. exec (io_step L invoke) [ThreadCall a StopStore, RunStep b, ThreadCall a StopNop, RunStep b] (io_init c) = Some m \<and>
      running (ctx m) \<and> run_pc m = Waiting)"
  by (auto simp: io_init_def stop_nop_def split: prod.splits option.splits)

text \<open>The steps that are left for the completions that are there.\<close>

definition calls_of :: "('cb \<Rightarrow> io_result \<Rightarrow> 'cb io_call list) \<Rightarrow> (address \<Rightarrow> 'cb option) \<Rightarrow> cqe \<Rightarrow> 'cb io_call list" where
  "calls_of invoke h e = (if cqe_data e = 0 then [] else invoke (the (h (cqe_data e))) (result_of e))"

definition batch_work ::
  "'r liburing \<Rightarrow> ('cb \<Rightarrow> io_result \<Rightarrow> 'cb io_call list) \<Rightarrow> ('r, 'cb) io_machine \<Rightarrow> nat" where
  "batch_work L invoke m =
     sum_list (map (\<lambda>e. 2 + length (calls_of invoke (heap (ctx m)) e))
       (drop (visited (run_pc m)) (lu_cqes L (ring (ctx m)))))"

definition run_rank ::
  "'r liburing \<Rightarrow> ('cb \<Rightarrow> io_result \<Rightarrow> 'cb io_call list) \<Rightarrow> ('r, 'cb) io_machine \<Rightarrow> nat" where
  "run_rank L invoke m =
     (case run_pc m of
        Returned \<Rightarrow> 0 | Head \<Rightarrow> 1
      | Waiting \<Rightarrow> batch_work L invoke m + 3 | Each n \<Rightarrow> batch_work L invoke m + 2
      | Invoked n a ks \<Rightarrow> batch_work L invoke m + 3 + length ks | NotRunning \<Rightarrow> 0)"

lemma batch_work_cong:
  assumes "io_inv L sq kern m" and "lu_cqes L (ring (ctx m')) = lu_cqes L (ring (ctx m))"
    and "visited (run_pc m') = visited (run_pc m)"
    and "\<And>a. a \<in># outstanding L sq kern m \<Longrightarrow> heap (ctx m') a = heap (ctx m) a"
  shows "batch_work L invoke m' = batch_work L invoke m"
proof -
  have "cqe_data e \<in># outstanding L sq kern m"
    if "e \<in> set (drop (visited (run_pc m)) (lu_cqes L (ring (ctx m))))" "cqe_data e \<noteq> 0" for e
    using that by (auto simp: outstanding_def ring_refs_def)
  then have "map (\<lambda>e. 2 + length (calls_of invoke (heap (ctx m')) e)) (drop (visited (run_pc m)) (lu_cqes L (ring (ctx m))))
      = map (\<lambda>e. 2 + length (calls_of invoke (heap (ctx m)) e)) (drop (visited (run_pc m)) (lu_cqes L (ring (ctx m))))"
    using assms(4) by (intro map_cong) (simp_all add: calls_of_def)
  then show ?thesis unfolding batch_work_def assms(2,3) by (rule arg_cong)
qed

lemma do_call_cqes:
  assumes ok: "liburing_ok L sq kern" and step: "do_call L a k m = Some m'"
  shows "lu_cqes L (ring (ctx m')) = lu_cqes L (ring (ctx m))"
proof (cases "get_sqe L (ring (ctx m))")
  case (Pair slot r)
  show ?thesis
  proof (cases slot)
    case None
    then show ?thesis
      using step Pair refs_get_sqe_none [OF ok, of "ring (ctx m)" r]
      by (cases k) (auto simp: submit_op_def submit_cancel_def stop_def stop_store_def stop_nop_def split: if_splits)
  next
    case (Some i)
    then have "lu_cqes L (snd (lu_submit L (lu_write_sqe L i e r))) = lu_cqes L (ring (ctx m))" for e
      using refs_get_sqe [OF ok] Pair by blast
    then show ?thesis
      using step Pair Some
      by (cases k) (auto simp: submit_op_def submit_with_cb_def submit_cancel_def stop_def stop_store_def stop_nop_def split: if_splits)
  qed
qed

lemma do_call_heap:
  assumes "do_call L a k m = Some m'" and "heap (ctx m) b = Some cb"
  shows "heap (ctx m') b = Some cb"
  using assms
  by (cases k)
    (auto simp: submit_op_def submit_with_cb_def submit_cancel_def stop_def stop_store_def stop_nop_def
      split: if_splits prod.splits option.splits)

lemma do_call_batch:
  assumes inv: "io_inv L sq kern m" and ok: "liburing_ok L sq kern" and step: "do_call L a k m = Some m'"
  shows "batch_work L invoke m' = batch_work L invoke m"
proof (rule batch_work_cong [OF inv do_call_cqes [OF ok step]])
  show "visited (run_pc m') = visited (run_pc m)" using do_call_control [OF step] by simp
  show "heap (ctx m') b = heap (ctx m) b" if "b \<in># outstanding L sq kern m" for b
    using outstanding_dom [OF inv that] do_call_heap [OF step] by auto
qed

lemma rank_visit:
  assumes inv: "io_inv L sq kern m" and pc: "run_pc m = Each n" and n: "n < length (lu_cqes L (ring (ctx m)))"
  shows "run_rank L invoke (visit L invoke n m) < run_rank L invoke m"
proof -
  let ?e = "lu_cqes L (ring (ctx m)) ! n"
  have cons: "drop n (lu_cqes L (ring (ctx m))) = ?e # drop (Suc n) (lu_cqes L (ring (ctx m)))"
    using n by (simp add: Cons_nth_drop_Suc)
  show ?thesis
  proof (cases "cqe_data ?e = 0")
    case True
    then show ?thesis using pc cons by (simp add: run_rank_def batch_work_def visit_def Let_def)
  next
    case False
    then obtain cb where "heap (ctx m) (cqe_data ?e) = Some cb" using visited_callback [OF inv pc n] by blast
    then show ?thesis
      using pc cons False
      by (simp add: run_rank_def batch_work_def visit_def Let_def calls_of_def result_of_def)
  qed
qed

lemma rank_run_step:
  assumes inv: "io_inv L sq kern m" and ok: "liburing_ok L sq kern" and stopped: "\<not> running (ctx m)"
    "run_pc m \<noteq> NotRunning" and step: "run_step L invoke a m = Some m'"
  shows "run_rank L invoke m' < run_rank L invoke m"
proof (cases "run_pc m")
  case Waiting
  then show ?thesis
    using step refs_wait [OF ok, of "ring (ctx m)"]
    by (auto simp: run_rank_def batch_work_def split: option.splits)
next
  case (Each n)
  then show ?thesis
    using step rank_visit [OF inv Each, of invoke] by (auto simp: run_rank_def split: if_splits)
next
  case (Invoked n b ks)
  show ?thesis
  proof (cases ks)
    case Nil
    have "batch_work L invoke (m\<lparr>ctx := delete_cb b (ctx m), run_pc := Each (n + 1)\<rparr>) = batch_work L invoke m"
      by (rule batch_work_cong [OF inv]) (auto simp: delete_cb_def Invoked dest: outstanding_dom [OF inv])
    then show ?thesis using step Invoked Nil by (auto simp: run_rank_def)
  next
    case (Cons k ks')
    then obtain m1 where m1: "do_call L a k m = Some m1" "m' = m1\<lparr>run_pc := Invoked n b ks'\<rparr>"
      using step Invoked by auto
    have "batch_work L invoke m' = batch_work L invoke m1"
      using do_call_control [OF m1(1)] Invoked by (simp add: m1(2) batch_work_def)
    then show ?thesis
      using do_call_batch [OF inv ok m1(1), of invoke] Invoked Cons m1(2) by (simp add: run_rank_def)
  qed
qed (use step stopped in \<open>auto simp: run_rank_def\<close>)

lemma run_step_enabled:
  assumes "finite (dom (heap (ctx m)))" and "run_pc m \<noteq> Returned"
    and "run_pc m = Waiting \<Longrightarrow> lu_wait_cqe L (ring (ctx m)) \<noteq> None"
  shows "\<exists>a. run_step L invoke a m \<noteq> None"
proof (cases "run_pc m")
  case (Invoked n b ks)
  obtain a where "a \<notin> insert 0 (dom (heap (ctx m)))"
    using ex_new_if_finite [OF infinite_UNIV_nat] assms(1) by (metis finite.insertI)
  then have "a \<noteq> 0" "heap (ctx m) a = None" by auto
  then have "do_call L a k m \<noteq> None" for k
    by (cases k) (auto split: sum.splits)
  then show ?thesis using Invoked by (intro exI [of _ a]) (simp split: list.splits)
qed (use assms in auto)



end
