(* ===== verification/Senders.thy ===== *)
theory Senders
  imports IO_Properties Stop_Helper
begin

text \<open>
  The seven senders of \<open>include/async_runtime/io_context.hpp\<close>: their fields, the functions that
  make them, \<open>connect\<close> and the submission in \<open>start\<close>. The callback a submission stores is
  \<open>make_io_callback\<close> of the receiver, so the callbacks of the context are the receivers.
  What the senders have in common is the contract \<open>io_sender\<close>.
\<close>

section \<open>Starting an operation\<close>

text \<open>
  \<open>stop_helper::start\<close> when no stop arrives while it runs (\<open>Stop_Helper\<close> has the interleavings):
  \<open>stop_req\<close> is the answer of the token at the beginning.
\<close>

datatype ('r, 'rcv) start_outcome =
    StoppedEarly
  | Faulted io_fault
  | Started address "('r, 'rcv) io_context"

definition helper_start ::
  "bool \<Rightarrow> (('r, 'rcv) io_context \<Rightarrow> io_fault + address \<times> ('r, 'rcv) io_context) \<Rightarrow> ('r, 'rcv) io_context
    \<Rightarrow> ('r, 'rcv) start_outcome" where
  "helper_start stop_req submit c =
     (if stop_req then StoppedEarly
      else (case submit c of Inl f \<Rightarrow> Faulted f | Inr (a, c') \<Rightarrow> Started a c'))"

section \<open>The senders\<close>

text \<open>The pointer to the context is a number; \<open>request\<close> is the entry a sender asks for.\<close>

subsection \<open>\<open>async_read\<close>\<close>

record read_sender =
  rd_ctx :: nat
  rd_fd :: int
  rd_buf :: span
  rd_offset :: u64

record 'rcv read_operation =
  rdo_ctx :: nat
  rdo_fd :: int
  rdo_buf :: span
  rdo_offset :: u64
  rdo_receiver :: 'rcv
  rdo_stop_helper :: stop_op

definition async_read :: "nat \<Rightarrow> int \<Rightarrow> span \<Rightarrow> u64 \<Rightarrow> read_sender" where
  "async_read this fd buf offset = \<lparr>rd_ctx = this, rd_fd = fd, rd_buf = buf, rd_offset = offset\<rparr>"

definition read_connect :: "read_sender \<Rightarrow> 'rcv \<Rightarrow> 'rcv read_operation" where
  "read_connect s r =
     \<lparr>rdo_ctx = rd_ctx s, rdo_fd = rd_fd s, rdo_buf = rd_buf s, rdo_offset = rd_offset s, rdo_receiver = r, rdo_stop_helper = op_init\<rparr>"

definition read_submit ::
  "'r liburing \<Rightarrow> 'rcv read_operation \<Rightarrow> address \<Rightarrow> ('r, 'rcv) io_context
    \<Rightarrow> io_fault + address \<times> ('r, 'rcv) io_context" where
  "read_submit L op a c = submit_read L (rdo_fd op) (rdo_buf op) (rdo_offset op) a (rdo_receiver op) c"

definition read_request :: "read_sender \<Rightarrow> sqe_op" where
  "read_request s = PrepRead (rd_fd s) (span_data (rd_buf s)) (ucast (span_size (rd_buf s))) (rd_offset s)"

subsection \<open>\<open>async_write\<close>\<close>

record write_sender =
  wr_ctx :: nat
  wr_fd :: int
  wr_buf :: span
  wr_offset :: u64

record 'rcv write_operation =
  wro_ctx :: nat
  wro_fd :: int
  wro_buf :: span
  wro_offset :: u64
  wro_receiver :: 'rcv
  wro_stop_helper :: stop_op

definition async_write :: "nat \<Rightarrow> int \<Rightarrow> span \<Rightarrow> u64 \<Rightarrow> write_sender" where
  "async_write this fd buf offset = \<lparr>wr_ctx = this, wr_fd = fd, wr_buf = buf, wr_offset = offset\<rparr>"

definition write_connect :: "write_sender \<Rightarrow> 'rcv \<Rightarrow> 'rcv write_operation" where
  "write_connect s r =
     \<lparr>wro_ctx = wr_ctx s, wro_fd = wr_fd s, wro_buf = wr_buf s, wro_offset = wr_offset s, wro_receiver = r, wro_stop_helper = op_init\<rparr>"

definition write_submit ::
  "'r liburing \<Rightarrow> 'rcv write_operation \<Rightarrow> address \<Rightarrow> ('r, 'rcv) io_context
    \<Rightarrow> io_fault + address \<times> ('r, 'rcv) io_context" where
  "write_submit L op a c = submit_write L (wro_fd op) (wro_buf op) (wro_offset op) a (wro_receiver op) c"

definition write_request :: "write_sender \<Rightarrow> sqe_op" where
  "write_request s = PrepWrite (wr_fd s) (span_data (wr_buf s)) (ucast (span_size (wr_buf s))) (wr_offset s)"

subsection \<open>\<open>async_accept\<close>\<close>

record accept_sender =
  ac_ctx :: nat
  ac_fd :: int

record 'rcv accept_operation =
  aco_ctx :: nat
  aco_fd :: int
  aco_receiver :: 'rcv
  aco_stop_helper :: stop_op

definition async_accept :: "nat \<Rightarrow> int \<Rightarrow> accept_sender" where
  "async_accept this fd = \<lparr>ac_ctx = this, ac_fd = fd\<rparr>"

definition accept_connect :: "accept_sender \<Rightarrow> 'rcv \<Rightarrow> 'rcv accept_operation" where
  "accept_connect s r =
     \<lparr>aco_ctx = ac_ctx s, aco_fd = ac_fd s, aco_receiver = r, aco_stop_helper = op_init\<rparr>"

definition accept_submit ::
  "'r liburing \<Rightarrow> 'rcv accept_operation \<Rightarrow> address \<Rightarrow> ('r, 'rcv) io_context
    \<Rightarrow> io_fault + address \<times> ('r, 'rcv) io_context" where
  "accept_submit L op a c = submit_accept L (aco_fd op) a (aco_receiver op) c"

definition accept_request :: "accept_sender \<Rightarrow> sqe_op" where
  "accept_request s = PrepAccept (ac_fd s)"

subsection \<open>\<open>async_recv\<close>\<close>

record recv_sender =
  rc_ctx :: nat
  rc_fd :: int
  rc_buf :: span
  rc_flags :: int

record 'rcv recv_operation =
  rco_ctx :: nat
  rco_fd :: int
  rco_buf :: span
  rco_flags :: int
  rco_receiver :: 'rcv
  rco_stop_helper :: stop_op

definition async_recv :: "nat \<Rightarrow> int \<Rightarrow> span \<Rightarrow> int \<Rightarrow> recv_sender" where
  "async_recv this fd buf flags = \<lparr>rc_ctx = this, rc_fd = fd, rc_buf = buf, rc_flags = flags\<rparr>"

definition recv_connect :: "recv_sender \<Rightarrow> 'rcv \<Rightarrow> 'rcv recv_operation" where
  "recv_connect s r =
     \<lparr>rco_ctx = rc_ctx s, rco_fd = rc_fd s, rco_buf = rc_buf s, rco_flags = rc_flags s, rco_receiver = r, rco_stop_helper = op_init\<rparr>"

definition recv_submit ::
  "'r liburing \<Rightarrow> 'rcv recv_operation \<Rightarrow> address \<Rightarrow> ('r, 'rcv) io_context
    \<Rightarrow> io_fault + address \<times> ('r, 'rcv) io_context" where
  "recv_submit L op a c = submit_recv L (rco_fd op) (rco_buf op) (rco_flags op) a (rco_receiver op) c"

definition recv_request :: "recv_sender \<Rightarrow> sqe_op" where
  "recv_request s = PrepRecv (rc_fd s) (span_data (rc_buf s)) (span_size (rc_buf s)) (rc_flags s)"

subsection \<open>\<open>async_send\<close>\<close>

record send_sender =
  sd_ctx :: nat
  sd_fd :: int
  sd_buf :: span
  sd_flags :: int

record 'rcv send_operation =
  sdo_ctx :: nat
  sdo_fd :: int
  sdo_buf :: span
  sdo_flags :: int
  sdo_receiver :: 'rcv
  sdo_stop_helper :: stop_op

definition async_send :: "nat \<Rightarrow> int \<Rightarrow> span \<Rightarrow> int \<Rightarrow> send_sender" where
  "async_send this fd buf flags = \<lparr>sd_ctx = this, sd_fd = fd, sd_buf = buf, sd_flags = flags\<rparr>"

definition send_connect :: "send_sender \<Rightarrow> 'rcv \<Rightarrow> 'rcv send_operation" where
  "send_connect s r =
     \<lparr>sdo_ctx = sd_ctx s, sdo_fd = sd_fd s, sdo_buf = sd_buf s, sdo_flags = sd_flags s, sdo_receiver = r, sdo_stop_helper = op_init\<rparr>"

definition send_submit ::
  "'r liburing \<Rightarrow> 'rcv send_operation \<Rightarrow> address \<Rightarrow> ('r, 'rcv) io_context
    \<Rightarrow> io_fault + address \<times> ('r, 'rcv) io_context" where
  "send_submit L op a c = submit_send L (sdo_fd op) (sdo_buf op) (sdo_flags op) a (sdo_receiver op) c"

definition send_request :: "send_sender \<Rightarrow> sqe_op" where
  "send_request s = PrepSend (sd_fd s) (span_data (sd_buf s)) (span_size (sd_buf s)) (sd_flags s)"

subsection \<open>\<open>async_read_fixed\<close>\<close>

record read_fixed_sender =
  rf_ctx :: nat
  rf_fd :: int
  rf_buf_index :: u32
  rf_buf :: span
  rf_offset :: u64

record 'rcv read_fixed_operation =
  rfo_ctx :: nat
  rfo_fd :: int
  rfo_buf_index :: u32
  rfo_buf :: span
  rfo_offset :: u64
  rfo_receiver :: 'rcv
  rfo_stop_helper :: stop_op

definition async_read_fixed :: "nat \<Rightarrow> int \<Rightarrow> u32 \<Rightarrow> span \<Rightarrow> u64 \<Rightarrow> read_fixed_sender" where
  "async_read_fixed this fd buf_index buf offset = \<lparr>rf_ctx = this, rf_fd = fd, rf_buf_index = buf_index, rf_buf = buf, rf_offset = offset\<rparr>"

definition read_fixed_connect :: "read_fixed_sender \<Rightarrow> 'rcv \<Rightarrow> 'rcv read_fixed_operation" where
  "read_fixed_connect s r =
     \<lparr>rfo_ctx = rf_ctx s, rfo_fd = rf_fd s, rfo_buf_index = rf_buf_index s, rfo_buf = rf_buf s, rfo_offset = rf_offset s, rfo_receiver = r, rfo_stop_helper = op_init\<rparr>"

definition read_fixed_submit ::
  "'r liburing \<Rightarrow> 'rcv read_fixed_operation \<Rightarrow> address \<Rightarrow> ('r, 'rcv) io_context
    \<Rightarrow> io_fault + address \<times> ('r, 'rcv) io_context" where
  "read_fixed_submit L op a c = submit_read_fixed L (rfo_fd op) (rfo_buf_index op) (rfo_buf op) (rfo_offset op) a (rfo_receiver op) c"

definition read_fixed_request :: "read_fixed_sender \<Rightarrow> sqe_op" where
  "read_fixed_request s = PrepReadFixed (rf_fd s) (span_data (rf_buf s)) (ucast (span_size (rf_buf s))) (rf_offset s) (sint (rf_buf_index s))"

subsection \<open>\<open>async_write_fixed\<close>\<close>

record write_fixed_sender =
  wf_ctx :: nat
  wf_fd :: int
  wf_buf_index :: u32
  wf_buf :: span
  wf_offset :: u64

record 'rcv write_fixed_operation =
  wfo_ctx :: nat
  wfo_fd :: int
  wfo_buf_index :: u32
  wfo_buf :: span
  wfo_offset :: u64
  wfo_receiver :: 'rcv
  wfo_stop_helper :: stop_op

definition async_write_fixed :: "nat \<Rightarrow> int \<Rightarrow> u32 \<Rightarrow> span \<Rightarrow> u64 \<Rightarrow> write_fixed_sender" where
  "async_write_fixed this fd buf_index buf offset = \<lparr>wf_ctx = this, wf_fd = fd, wf_buf_index = buf_index, wf_buf = buf, wf_offset = offset\<rparr>"

definition write_fixed_connect :: "write_fixed_sender \<Rightarrow> 'rcv \<Rightarrow> 'rcv write_fixed_operation" where
  "write_fixed_connect s r =
     \<lparr>wfo_ctx = wf_ctx s, wfo_fd = wf_fd s, wfo_buf_index = wf_buf_index s, wfo_buf = wf_buf s, wfo_offset = wf_offset s, wfo_receiver = r, wfo_stop_helper = op_init\<rparr>"

definition write_fixed_submit ::
  "'r liburing \<Rightarrow> 'rcv write_fixed_operation \<Rightarrow> address \<Rightarrow> ('r, 'rcv) io_context
    \<Rightarrow> io_fault + address \<times> ('r, 'rcv) io_context" where
  "write_fixed_submit L op a c = submit_write_fixed L (wfo_fd op) (wfo_buf_index op) (wfo_buf op) (wfo_offset op) a (wfo_receiver op) c"

definition write_fixed_request :: "write_fixed_sender \<Rightarrow> sqe_op" where
  "write_fixed_request s = PrepWriteFixed (wf_fd s) (span_data (wf_buf s)) (ucast (span_size (wf_buf s))) (wf_offset s) (sint (wf_buf_index s))"

section \<open>The contract\<close>

definition starts_request ::
  "'r liburing \<Rightarrow> ('r \<Rightarrow> sqe list) \<Rightarrow> ('r \<Rightarrow> sqe multiset) \<Rightarrow> ('r, 'rcv) start_outcome \<Rightarrow> sqe_op
    \<Rightarrow> address \<Rightarrow> 'rcv \<Rightarrow> ('r, 'rcv) io_context \<Rightarrow> bool" where
  "starts_request L sq kern outcome req a r c \<longleftrightarrow>
     (\<exists>c'. outcome = Started a c' \<and> heap c' = (heap c)(a \<mapsto> r) \<and> running c' = running c \<and>
        entries sq kern (ring c') = insert \<lparr>sqe_request = req, sqe_data = a\<rparr> (entries sq kern (ring c)) \<and>
        lu_cqes L (ring c') = lu_cqes L (ring c))"

lemma submit_op_starts:
  assumes ok: "liburing_ok L sq kern" and slot: "get_sqe L (ring c) = (Some i, r1)"
  shows "starts_request L sq kern (helper_start False (submit_op L req a r) c) req a r c"
  using slot entries_get_sqe [OF ok slot] refs_get_sqe [OF ok slot]
  by (simp add: starts_request_def helper_start_def submit_op_def submit_with_cb_def)

locale io_sender =
  fixes connect_to :: "'s \<Rightarrow> 'rcv \<Rightarrow> 'op"
    and op_submit :: "'r liburing \<Rightarrow> 'op \<Rightarrow> address \<Rightarrow> ('r, 'rcv) io_context
      \<Rightarrow> io_fault + address \<times> ('r, 'rcv) io_context"
    and request :: "'s \<Rightarrow> sqe_op"
  assumes submit_request: "op_submit L (connect_to s r) a c = submit_op L (request s) a r c"
begin

lemma start_eq: "helper_start b (op_submit L (connect_to s r) a) c = helper_start b (submit_op L (request s) a r) c"
  by (simp add: helper_start_def submit_request)

lemma start_submits:
  "liburing_ok L sq kern \<Longrightarrow> get_sqe L (ring c) = (Some i, r1) \<Longrightarrow>
    starts_request L sq kern (helper_start False (op_submit L (connect_to s r) a) c) (request s) a r c"
  unfolding start_eq by (rule submit_op_starts)

lemma start_stopped: "helper_start True (op_submit L (connect_to s r) a) c = StoppedEarly"
  by (simp add: helper_start_def)

lemma start_no_slot:
  "get_sqe L (ring c) = (None, r1) \<Longrightarrow>
    helper_start False (op_submit L (connect_to s r) a) c = Faulted NullSqe"
  by (simp add: helper_start_def submit_request submit_op_def)

end

interpretation reads: io_sender read_connect read_submit read_request
  by unfold_locales (simp add: read_connect_def read_submit_def submit_read_def read_request_def)

interpretation writes: io_sender write_connect write_submit write_request
  by unfold_locales (simp add: write_connect_def write_submit_def submit_write_def write_request_def)

interpretation accepts: io_sender accept_connect accept_submit accept_request
  by unfold_locales (simp add: accept_connect_def accept_submit_def submit_accept_def accept_request_def)

interpretation recvs: io_sender recv_connect recv_submit recv_request
  by unfold_locales (simp add: recv_connect_def recv_submit_def submit_recv_def recv_request_def)

interpretation sends: io_sender send_connect send_submit send_request
  by unfold_locales (simp add: send_connect_def send_submit_def submit_send_def send_request_def)

interpretation read_fixeds: io_sender read_fixed_connect read_fixed_submit read_fixed_request
  by unfold_locales (simp add: read_fixed_connect_def read_fixed_submit_def submit_read_fixed_def read_fixed_request_def)

interpretation write_fixeds: io_sender write_fixed_connect write_fixed_submit write_fixed_request
  by unfold_locales (simp add: write_fixed_connect_def write_fixed_submit_def submit_write_fixed_def write_fixed_request_def)

lemmas sender_requests =
  async_read_def read_request_def async_write_def write_request_def async_accept_def accept_request_def
  async_recv_def recv_request_def async_send_def send_request_def
  async_read_fixed_def read_fixed_request_def async_write_fixed_def write_fixed_request_def

section \<open>Properties\<close>



end
