(* ===== verification/Echo_Server.thy ===== *)
theory Echo_Server
  imports Senders
begin

text \<open>
  \<open>src/examples/echo_server.cpp\<close>: the listening socket with its error paths, and the chain of
  detached operations accept, receive, send, as callbacks of the machine of \<open>io_context\<close>.
\<close>

section \<open>The listening socket\<close>

text \<open>
  The system calls are parameters: \<open>sock\<close> is what \<open>socket\<close> returns, \<open>bind\<close> and \<open>listen\<close> are
  functions of the descriptor. The second component is the list of descriptors closed.
\<close>

definition make_listen_socket :: "int \<Rightarrow> (int \<Rightarrow> int) \<Rightarrow> (int \<Rightarrow> int) \<Rightarrow> int \<times> int list" where
  "make_listen_socket sock bind listen =
     (if sock < 0 then (- 1, [])
      else if bind sock < 0 then (- 1, [sock])
      else if listen sock < 0 then (- 1, [sock])
      else (sock, []))"

section \<open>The handlers\<close>

datatype (discs_sels) echo_cb = OnAccept | OnRecv int | OnSend int

text \<open>
  The three functions given to \<open>stdexec::then\<close>: the calls they make and the descriptors they
  close. \<open>buf\<close> is the address of the static array of 4096 bytes.
\<close>

definition on_accept :: "address \<Rightarrow> io_result \<Rightarrow> echo_cb io_call list" where
  "on_accept buf accept_result =
     (if res accept_result < 0 then []
      else
        (let client_fd = res accept_result in
         [Submit (recv_request (async_recv 0 client_fd \<lparr>span_data = buf, span_size = 4096\<rparr> 0)) (OnRecv client_fd)]))"

definition on_recv :: "address \<Rightarrow> int \<Rightarrow> io_result \<Rightarrow> echo_cb io_call list \<times> int list" where
  "on_recv buf client_fd recv_result =
     (if res recv_result \<le> 0 then ([], [client_fd])
      else
        (let n = word_of_int (res recv_result) in
         ([Submit (send_request (async_send 0 client_fd \<lparr>span_data = buf, span_size = n\<rparr> 0)) (OnSend client_fd)], [])))"

definition on_send :: "int \<Rightarrow> echo_cb io_call list \<times> int list" where
  "on_send client_fd = ([], [client_fd])"

text \<open>\<open>then\<close> runs its function for a value only; errors and \<open>stopped\<close> pass it by.\<close>

definition echo_handle :: "address \<Rightarrow> echo_cb \<Rightarrow> io_result \<Rightarrow> echo_cb io_call list \<times> int list" where
  "echo_handle buf cb z =
     (case make_io_callback z of
        SetValue v \<Rightarrow>
          (case cb of OnAccept \<Rightarrow> (on_accept buf v, []) | OnRecv fd \<Rightarrow> on_recv buf fd v | OnSend fd \<Rightarrow> on_send fd)
      | _ \<Rightarrow> ([], []))"

definition echo_invoke :: "address \<Rightarrow> echo_cb \<Rightarrow> io_result \<Rightarrow> echo_cb io_call list" where
  "echo_invoke buf cb z = fst (echo_handle buf cb z)"

definition echo_closes :: "address \<Rightarrow> (echo_cb \<times> sqe_op \<times> io_result) list \<Rightarrow> int list" where
  "echo_closes buf ds = concat (map (\<lambda>(cb, req, z). snd (echo_handle buf cb z)) ds)"

text \<open>What \<open>main\<close> starts.\<close>

definition echo_start :: "int \<Rightarrow> echo_cb io_call" where
  "echo_start listen_fd = Submit (accept_request (async_accept 0 listen_fd)) OnAccept"

section \<open>Submissions come from threads and handlers\<close>

fun submits :: "'cb io_call list \<Rightarrow> ('cb \<times> sqe_op) list" where
  "submits [] = []"
| "submits (Submit req cb # ks) = (cb, req) # submits ks"
| "submits (k # ks) = submits ks"

fun pending_calls :: "'cb run_pc \<Rightarrow> 'cb io_call list" where
  "pending_calls (Invoked n a ks) = ks"
| "pending_calls _ = []"

fun thread_calls :: "'cb io_action list \<Rightarrow> 'cb io_call list" where
  "thread_calls [] = []"
| "thread_calls (ThreadCall a k # as) = k # thread_calls as"
| "thread_calls (act # as) = thread_calls as"

definition calls_made :: "('cb \<Rightarrow> io_result \<Rightarrow> 'cb io_call list) \<Rightarrow> ('cb \<times> sqe_op \<times> io_result) list \<Rightarrow> ('cb \<times> sqe_op) list" where
  "calls_made invoke ds = concat (map (\<lambda>(cb, req, z). submits (invoke cb z)) ds)"

lemma submits_Cons: "submits (k # ks) = submits [k] @ submits ks"
  by (cases k) simp_all

lemma do_call_submissions:
  assumes "do_call L a k m = Some m'" and "fault m' = None"
  shows "submissions m' = submissions m @ submits [k] \<and> deliveries m' = deliveries m \<and> run_pc m' = run_pc m"
  using assms
  by (cases k) (auto simp: submit_op_def submit_cancel_def split: if_splits prod.splits option.splits)

lemma io_step_submissions:
  assumes step: "io_step L invoke act m = Some m'" and ok: "fault m' = None"
  shows "mset (submissions m') + mset (submits (pending_calls (run_pc m'))) + mset (calls_made invoke (deliveries m))
    = mset (submissions m) + mset (submits (pending_calls (run_pc m)))
      + mset (calls_made invoke (deliveries m')) + mset (submits (thread_calls [act]))"
proof (cases act)
  case (ThreadCall a k)
  then show ?thesis using step do_call_submissions [OF _ ok, of L a k m] by (auto split: if_splits)
next
  case (Complete e z f)
  then show ?thesis using step by (auto split: if_splits)
next
  case (RunStep a)
  then have run: "run_step L invoke a m = Some m'"
    using step by (auto simp del: run_step.simps split: if_splits)
  show ?thesis
  proof (cases "run_pc m")
    case (Invoked n b ks)
    show ?thesis
    proof (cases ks)
      case (Cons k ks')
      then obtain m1 where m1: "do_call L a k m = Some m1" "m' = m1\<lparr>run_pc := Invoked n b ks'\<rparr>"
        using run Invoked by auto
      have "fault m1 = None" using ok m1(2) by simp
      from do_call_submissions [OF m1(1) this] show ?thesis
        using Invoked Cons RunStep submits_Cons [of k ks'] by (simp add: m1(2))
    qed (use run Invoked RunStep in auto)
  next
    case (Each n)
    then show ?thesis
      using run ok RunStep
      by (auto simp: visit_def Let_def calls_made_def split: if_splits option.splits)
  qed (use run RunStep in \<open>auto split: option.splits\<close>)
qed

lemma balance_trans:
  fixes u :: "'a :: cancel_comm_monoid_add"
  assumes "u + cm = s + cu + t" and "s' + cu = u + c' + ts"
  shows "s' + cm = s + c' + (t + ts)"
proof (rule add_right_imp_eq)
  have "s' + cm + cu = (s' + cu) + cm" by (simp add: ac_simps)
  also have "\<dots> = (u + cm) + (c' + ts)" unfolding assms(2) by (simp add: ac_simps)
  also have "\<dots> = s + c' + (t + ts) + cu" unfolding assms(1) by (simp add: ac_simps)
  finally show "s' + cm + cu = s + c' + (t + ts) + cu" .
qed

lemma exec_submissions:
  assumes "exec (io_step L invoke) as m = Some m'" and "fault m' = None"
  shows "mset (submissions m') + mset (submits (pending_calls (run_pc m'))) + mset (calls_made invoke (deliveries m))
    = mset (submissions m) + mset (submits (pending_calls (run_pc m)))
      + mset (calls_made invoke (deliveries m')) + mset (submits (thread_calls as))"
  using assms(1)
proof (induction as arbitrary: m)
  case (Cons act as)
  then obtain u where u: "io_step L invoke act m = Some u" "exec (io_step L invoke) as u = Some m'"
    by (auto simp del: io_step.simps split: option.splits)
  have "fault u = None" using u(2) assms(2) by (cases as) (auto split: if_splits)
  have "thread_calls (act # as) = thread_calls [act] @ thread_calls as" by (cases act) simp_all
  then have "submits (thread_calls (act # as)) = submits (thread_calls [act]) @ submits (thread_calls as)"
    by (cases act) (simp_all add: submits_Cons [of _ "thread_calls as"])
  then have new: "mset (submits (thread_calls (act # as)))
      = mset (submits (thread_calls [act])) + mset (submits (thread_calls as))" by simp
  show ?case
    unfolding new by (rule balance_trans [OF io_step_submissions [OF u(1) \<open>fault u = None\<close>] Cons.IH [OF u(2)]])
qed simp

section \<open>The echo chain\<close>

lemmas echo_defs = echo_invoke_def echo_handle_def on_accept_def on_recv_def on_send_def
  recv_request_def send_request_def async_recv_def async_send_def make_io_callback_def Let_def

lemma echo_submits:
  "submits (echo_invoke buf cb z) =
    (case cb of
       OnAccept \<Rightarrow> if 0 \<le> res z then [(OnRecv (res z), PrepRecv (res z) buf 4096 0)] else []
     | OnRecv fd \<Rightarrow> if 0 < res z then [(OnSend fd, PrepSend fd buf (word_of_int (res z)) 0)] else []
     | OnSend fd \<Rightarrow> [])"
  by (cases cb) (simp_all add: echo_defs ECANCELED_def)

lemma echo_closed:
  "snd (echo_handle buf cb z) =
    (case cb of
       OnAccept \<Rightarrow> []
     | OnRecv fd \<Rightarrow> if res z = 0 then [fd] else []
     | OnSend fd \<Rightarrow> if 0 \<le> res z then [fd] else [])"
  by (cases cb) (simp_all add: echo_defs ECANCELED_def)

lemma calls_made_Cons: "calls_made invoke ((cb, req, z) # ds) = submits (invoke cb z) @ calls_made invoke ds"
  by (simp add: calls_made_def)

lemma echo_closes_Cons: "echo_closes buf ((cb, req, z) # ds) = snd (echo_handle buf cb z) @ echo_closes buf ds"
  by (simp add: echo_closes_def)

lemma echo_recvs:
  "length (filter (\<lambda>(cb, req). is_OnRecv cb) (calls_made (echo_invoke buf) ds))
     \<le> length (filter (\<lambda>(cb, req, z). cb = OnAccept) ds)"
proof (induction ds)
  case (Cons d ds)
  obtain cb req z where "d = (cb, req, z)" by (cases d)
  then show ?case using Cons by (cases cb) (simp_all add: calls_made_Cons echo_submits)
qed (simp add: calls_made_def)

lemma echo_sends:
  "length (echo_closes buf ds) + length (filter (\<lambda>(cb, req). is_OnSend cb) (calls_made (echo_invoke buf) ds))
     \<le> length (filter (\<lambda>(cb, req, z). is_OnRecv cb) ds) + length (filter (\<lambda>(cb, req, z). is_OnSend cb) ds)"
proof (induction ds)
  case (Cons d ds)
  obtain cb req z where "d = (cb, req, z)" by (cases d)
  then show ?case
    using Cons by (cases cb) (simp_all add: calls_made_Cons echo_closes_Cons echo_submits echo_closed)
qed (simp add: calls_made_def echo_closes_def)

lemma echo_accepts: "filter (\<lambda>(cb, req). cb = OnAccept) (calls_made (echo_invoke buf) ds) = []"
proof (induction ds)
  case (Cons d ds)
  obtain cb req z where "d = (cb, req, z)" by (cases d)
  then show ?case using Cons by (cases cb) (simp_all add: calls_made_Cons echo_submits)
qed (simp add: calls_made_def)

section \<open>Properties\<close>

lemma filter_length_subset: "mset xs \<subseteq># mset ys \<Longrightarrow> length (filter P xs) \<le> length (filter P ys)"
  by (metis multiset_filter_mono mset_filter size_mset size_mset_mono)

text \<open>Where a submission comes from, for logs \<open>S\<close> and \<open>D\<close> that are balanced as above.\<close>

definition echo_logs :: "address \<Rightarrow> int \<Rightarrow> (echo_cb \<times> sqe_op) list \<Rightarrow> (echo_cb \<times> sqe_op \<times> io_result) list \<Rightarrow> bool" where
  "echo_logs buf fd S D \<longleftrightarrow>
     mset S \<subseteq># mset ((OnAccept, PrepAccept fd) # calls_made (echo_invoke buf) D) \<and>
     mset (map (\<lambda>(cb, req, z). (cb, req)) D) \<subseteq># mset S"

lemma echo_origin:
  assumes "echo_logs buf fd S D" and "(cb, req) \<in> set S"
  shows "(cb, req) = (OnAccept, PrepAccept fd) \<or>
    (\<exists>cb' req' z. (cb', req', z) \<in> set D \<and> (cb', req') \<in> set S \<and> (cb, req) \<in> set (submits (echo_invoke buf cb' z)))"
proof -
  have "(cb, req) \<in> set ((OnAccept, PrepAccept fd) # calls_made (echo_invoke buf) D)"
    using assms mset_subset_eqD by (fastforce simp: echo_logs_def)
  then have "(cb, req) = (OnAccept, PrepAccept fd) \<or>
      (\<exists>cb' req' z. (cb', req', z) \<in> set D \<and> (cb, req) \<in> set (submits (echo_invoke buf cb' z)))"
    by (auto simp: calls_made_def)
  moreover have "(cb', req') \<in> set S" if "(cb', req', z) \<in> set D" for cb' req' z
  proof -
    have "(cb', req') \<in># mset (map (\<lambda>(cb, req, z). (cb, req)) D)" using that by force
    then show ?thesis using assms(1) mset_subset_eqD by (fastforce simp: echo_logs_def)
  qed
  ultimately show ?thesis by blast
qed

lemma echo_accept_origin: "echo_logs buf fd S D \<Longrightarrow> (OnAccept, req) \<in> set S \<Longrightarrow> req = PrepAccept fd"
  by (auto dest!: echo_origin simp: echo_submits split: echo_cb.splits if_splits)

lemma echo_recv_origin:
  assumes "echo_logs buf fd S D" and "(OnRecv client, req) \<in> set S"
  shows "req = PrepRecv client buf 4096 0 \<and>
    (\<exists>z. (OnAccept, PrepAccept fd, z) \<in> set D \<and> res z = client \<and> 0 \<le> client)"
proof -
  obtain cb' req' z where d: "(cb', req', z) \<in> set D" "(cb', req') \<in> set S"
    "(OnRecv client, req) \<in> set (submits (echo_invoke buf cb' z))"
    using echo_origin [OF assms] by auto
  then have "cb' = OnAccept" "0 \<le> res z" "client = res z" "req = PrepRecv client buf 4096 0"
    by (auto simp: echo_submits split: echo_cb.splits if_splits)
  then show ?thesis using d echo_accept_origin [OF assms(1)] by auto
qed

lemma echo_send_origin:
  assumes "echo_logs buf fd S D" and "(OnSend client, req) \<in> set S"
  shows "\<exists>z. (OnRecv client, PrepRecv client buf 4096 0, z) \<in> set D \<and> 0 < res z \<and>
    req = PrepSend client buf (word_of_int (res z)) 0"
proof -
  obtain cb' req' z where d: "(cb', req', z) \<in> set D" "(cb', req') \<in> set S"
    "(OnSend client, req) \<in> set (submits (echo_invoke buf cb' z))"
    using echo_origin [OF assms] by auto
  then have "cb' = OnRecv client" "0 < res z" "req = PrepSend client buf (word_of_int (res z)) 0"
    by (auto simp: echo_submits split: echo_cb.splits if_splits)
  then show ?thesis using d echo_recv_origin [OF assms(1)] by auto
qed

lemma echo_closes_once:
  assumes "echo_logs buf fd S D"
  shows "length (echo_closes buf D) \<le> 1"
proof -
  let ?C = "calls_made (echo_invoke buf) D"
  have le: "length (filter (\<lambda>(cb, req, z). P cb) D) \<le> length (filter (\<lambda>(cb, req). P cb) ((OnAccept, PrepAccept fd) # ?C))"
    for P
  proof -
    have "length (filter (\<lambda>(cb, req, z). P cb) D) = length (filter (\<lambda>(cb, req). P cb) (map (\<lambda>(cb, req, z). (cb, req)) D))"
      by (induction D) auto
    also have "\<dots> \<le> length (filter (\<lambda>(cb, req). P cb) S)"
      using assms unfolding echo_logs_def by (intro filter_length_subset) simp
    also have "\<dots> \<le> length (filter (\<lambda>(cb, req). P cb) ((OnAccept, PrepAccept fd) # ?C))"
      using assms unfolding echo_logs_def by (intro filter_length_subset) simp
    finally show ?thesis .
  qed
  have "length (echo_closes buf D) \<le> length (filter (\<lambda>(cb, req, z). is_OnRecv cb) D)"
    using echo_sends [of buf D] le [of is_OnSend] by simp
  also have "\<dots> \<le> length (filter (\<lambda>(cb, req, z). cb = OnAccept) D)"
    using le [of is_OnRecv] echo_recvs [of buf D] by simp
  also have "\<dots> \<le> 1"
    using le [of "\<lambda>cb. cb = OnAccept"] echo_accepts [of buf D] by simp
  finally show ?thesis .
qed

lemma echo_logs_exec:
  assumes "liburing_ok L sq kern" and "ring_ctor L depth = Inr c"
    and "exec (io_step L (echo_invoke buf)) as (io_init c) = Some m" and "fault m = None"
    and "submits (thread_calls as) = submits [echo_start fd]"
  shows "echo_logs buf fd (submissions m) (deliveries m)"
proof -
  have "mset (submissions m) + mset (submits (pending_calls (run_pc m)))
      = mset ((OnAccept, PrepAccept fd) # calls_made (echo_invoke buf) (deliveries m))"
    using exec_submissions [OF assms(3,4)] assms(5)
    by (simp add: io_init_def calls_made_def echo_start_def accept_request_def async_accept_def)
  then have "mset (submissions m) \<subseteq># mset ((OnAccept, PrepAccept fd) # calls_made (echo_invoke buf) (deliveries m))"
    by (metis mset_subset_eq_add_left)
  moreover have "mset (map (\<lambda>(cb, req, z). (cb, req)) (deliveries m)) \<subseteq># mset (submissions m)"
    using io_ok_exec(1) [OF assms(1-3)] by (simp add: io_inv_def)
  ultimately show ?thesis by (simp add: echo_logs_def)
qed

text \<open>
  C22. The echo server answers with what it received: a receive is started only for the descriptor
  that the accept returned, into the buffer of 4096 bytes; a send is started only after a
  receive on the same descriptor returned a positive count, and it sends exactly that many
  bytes from the same buffer. At most one descriptor is closed, and it is closed once.
\<close>

theorem echo_chain:
  assumes "liburing_ok L sq kern" and "ring_ctor L depth = Inr c"
    and "exec (io_step L (echo_invoke buf)) as (io_init c) = Some m" and "fault m = None"
    and "submits (thread_calls as) = submits [echo_start fd]"
  shows "(\<forall>client req. (OnRecv client, req) \<in> set (submissions m) \<longrightarrow>
       req = PrepRecv client buf 4096 0 \<and>
       (\<exists>z. (OnAccept, PrepAccept fd, z) \<in> set (deliveries m) \<and> res z = client \<and> 0 \<le> client)) \<and>
    (\<forall>client req. (OnSend client, req) \<in> set (submissions m) \<longrightarrow>
       (\<exists>z. (OnRecv client, PrepRecv client buf 4096 0, z) \<in> set (deliveries m) \<and> 0 < res z \<and>
          req = PrepSend client buf (word_of_int (res z)) 0)) \<and>
    length (echo_closes buf (deliveries m)) \<le> 1"
  using echo_recv_origin echo_send_origin echo_closes_once echo_logs_exec [OF assms] by blast

text \<open>One client: accept descriptor 5, receive 3 bytes, send them, close.\<close>

abbreviation echo_ctx :: "(list_ring, echo_cb) io_context" where
  "echo_ctx \<equiv> \<lparr>ring = \<lparr>lr_depth = 8, lr_busy = False, lr_sq = [], lr_kern = [], lr_cq = []\<rparr>,
     running = False, heap = (\<lambda>_. None)\<rparr>"

lemma echo_ctor: "ring_ctor list_liburing 8 = Inr echo_ctx"
  by (simp add: ring_ctor_def list_liburing_def)

abbreviation echo_run :: "echo_cb io_action list" where
  "echo_run \<equiv>
     [ThreadCall 10 (echo_start 4), RunStep 0, RunStep 0,
      Complete \<lparr>sqe_request = PrepAccept 4, sqe_data = 10\<rparr> 5 0, RunStep 0, RunStep 0, RunStep 20, RunStep 0,
      Complete \<lparr>sqe_request = PrepRecv 5 64 4096 0, sqe_data = 20\<rparr> 3 0, RunStep 0, RunStep 30, RunStep 0]"

lemma echo_run_ends:
  "\<exists>m. exec (io_step list_liburing (echo_invoke 64)) echo_run (io_init echo_ctx) = Some m \<and> fault m = None \<and>
     submissions m = [(OnAccept, PrepAccept 4), (OnRecv 5, PrepRecv 5 64 4096 0), (OnSend 5, PrepSend 5 64 3 0)]"
  by (simp add: io_eval echo_start_def accept_request_def async_accept_def echo_defs ECANCELED_def)

theorem echo_chain_witness:
  "\<exists>m. exec (io_step list_liburing (echo_invoke 64)) echo_run (io_init echo_ctx) = Some m \<and>
     (OnSend 5, PrepSend 5 64 3 0) \<in> set (submissions m) \<and>
     (\<exists>z. (OnRecv 5, PrepRecv 5 64 4096 0, z) \<in> set (deliveries m) \<and> 0 < res z)"
proof -
  obtain m where m: "exec (io_step list_liburing (echo_invoke 64)) echo_run (io_init echo_ctx) = Some m" "fault m = None"
    and sub: "submissions m = [(OnAccept, PrepAccept 4), (OnRecv 5, PrepRecv 5 64 4096 0), (OnSend 5, PrepSend 5 64 3 0)]"
    using echo_run_ends by blast
  have "submits (thread_calls echo_run) = submits [echo_start 4]" by (simp add: echo_start_def)
  from echo_chain [OF list_liburing_ok echo_ctor m this] sub
  have "\<exists>z. (OnRecv 5, PrepRecv 5 64 4096 0, z) \<in> set (deliveries m) \<and> 0 < res z" by fastforce
  with m(1) sub show ?thesis by auto
qed

text \<open>
  Error paths of the handlers: a function given to \<open>then\<close> never sees a negative result, so the
  test for one in the accept handler is never true, and when a receive or a send fails, with an
  error or by cancellation, nothing is submitted and the client's descriptor is not closed.
\<close>

lemma echo_errors_leak:
  "(make_io_callback z = SetValue v \<longrightarrow> \<not> res v < 0) \<and>
   (res z < 0 \<longrightarrow> echo_handle buf (OnRecv client) z = ([], []) \<and> echo_handle buf (OnSend client) z = ([], []))"
  by (auto simp: echo_handle_def make_io_callback_def split: if_splits)

text \<open>
  \<open>make_listen_socket\<close> returns a usable descriptor exactly if all three calls succeed; otherwise
  it returns \<open>-1\<close>, and it has closed the descriptor if \<open>socket\<close> had given one.
\<close>

lemma listen_socket_result:
  "(fst (make_listen_socket sock bind listen) \<ge> 0 \<longleftrightarrow> sock \<ge> 0 \<and> bind sock \<ge> 0 \<and> listen sock \<ge> 0) \<and>
   (if fst (make_listen_socket sock bind listen) \<ge> 0
    then make_listen_socket sock bind listen = (sock, [])
    else make_listen_socket sock bind listen = (- 1, if sock \<ge> 0 then [sock] else []))"
  by (auto simp: make_listen_socket_def)

end
