(* ===== verification/Runtime.thy ===== *)
theory Runtime
  imports Scheduler Senders
begin

text \<open>
  \<open>src/src/runtime.cpp\<close>: a thread pool and an I/O context in one object. The two share no state, so
  an execution of the runtime is an interleaving of one execution of each, and what holds of
  the components holds of the runtime.
\<close>

section \<open>Model\<close>

record ('r, 'cb, 't) runtime =
  rt_pool :: "'t pool"
  rt_io :: "('r, 'cb) io_machine"

text \<open>
  The pool is constructed first; if the constructor of the I/O context throws, so does the
  runtime. \<open>m\<close> is the number of threads outside the pool.
\<close>

definition rt_ctor :: "'r liburing \<Rightarrow> nat \<Rightarrow> u32 \<Rightarrow> nat \<Rightarrow> error_code + ('r, 'cb, 't) runtime" where
  "rt_ctor L thread_count io_queue_depth m =
     (case ring_ctor L io_queue_depth of
        Inl e \<Rightarrow> Inl e
      | Inr c \<Rightarrow> Inr \<lparr>rt_pool = pool_ctor thread_count m, rt_io = io_init c\<rparr>)"

text \<open>\<open>get_scheduler\<close>; the pool of the runtime is at address \<open>p\<close>.\<close>

definition rt_get_scheduler :: "nat \<Rightarrow> thread_pool_scheduler" where
  "rt_get_scheduler p = get_scheduler p"

definition rt_get_io_context :: "('r, 'cb, 't) runtime \<Rightarrow> ('r, 'cb) io_context" where
  "rt_get_io_context rt = ctx (rt_io rt)"

text \<open>One step of \<open>runtime::run\<close>.\<close>

definition rt_run ::
  "'r liburing \<Rightarrow> ('cb \<Rightarrow> io_result \<Rightarrow> 'cb io_call list) \<Rightarrow> address \<Rightarrow> ('r, 'cb, 't) runtime
    \<Rightarrow> ('r, 'cb, 't) runtime option" where
  "rt_run L invoke a rt = map_option (\<lambda>m. rt\<lparr>rt_io := m\<rparr>) (run_step L invoke a (rt_io rt))"

definition rt_stop :: "'r liburing \<Rightarrow> ('r, 'cb, 't) runtime \<Rightarrow> ('r, 'cb, 't) runtime" where
  "rt_stop L rt = rt\<lparr>rt_io := (rt_io rt)\<lparr>ctx := stop L (ctx (rt_io rt))\<rparr>\<rparr>"

text \<open>The body of the destructor.\<close>

definition rt_dtor :: "'r liburing \<Rightarrow> ('r, 'cb, 't) runtime \<Rightarrow> ('r, 'cb, 't) runtime" where
  "rt_dtor L rt = rt_stop L rt"

datatype ('cb, 't) rt_action = PoolAct "'t pool_action" | IoAct "'cb io_action"

fun rt_step ::
  "'r liburing \<Rightarrow> ('cb \<Rightarrow> io_result \<Rightarrow> 'cb io_call list) \<Rightarrow> ('cb, 't) rt_action \<Rightarrow> ('r, 'cb, 't) runtime
    \<Rightarrow> ('r, 'cb, 't) runtime option" where
  "rt_step L invoke (PoolAct a) rt = map_option (\<lambda>p. rt\<lparr>rt_pool := p\<rparr>) (pool_step a (rt_pool rt))"
| "rt_step L invoke (IoAct a) rt = map_option (\<lambda>m. rt\<lparr>rt_io := m\<rparr>) (io_step L invoke a (rt_io rt))"

fun pool_part :: "('cb, 't) rt_action list \<Rightarrow> 't pool_action list" where
  "pool_part [] = []"
| "pool_part (PoolAct a # as) = a # pool_part as"
| "pool_part (IoAct a # as) = pool_part as"

fun io_part :: "('cb, 't) rt_action list \<Rightarrow> 'cb io_action list" where
  "io_part [] = []"
| "io_part (PoolAct a # as) = io_part as"
| "io_part (IoAct a # as) = a # io_part as"

section \<open>Properties\<close>

lemma rt_exec:
  "exec (rt_step L invoke) as rt = Some rt' \<longleftrightarrow>
     exec pool_step (pool_part as) (rt_pool rt) = Some (rt_pool rt') \<and>
     exec (io_step L invoke) (io_part as) (rt_io rt) = Some (rt_io rt')"
proof (induction as arbitrary: rt rule: pool_part.induct)
  case 1
  show ?case by (cases rt; cases rt') auto
next
  case (2 a as)
  then show ?case by (cases "pool_step a (rt_pool rt)") (auto simp del: io_step.simps)
next
  case (3 a as)
  then show ?case by (cases "io_step L invoke a (rt_io rt)") (auto simp del: io_step.simps)
qed

text \<open>
  The runtime composes its parts: an execution of the runtime is exactly an execution of its
  pool together with one of its I/O context, and \<open>run\<close> and \<open>stop\<close> are steps of the context that
  leave the pool alone.
\<close>

lemma runtime_components:
  "(exec (rt_step L invoke) as rt = Some rt' \<longleftrightarrow>
      exec pool_step (pool_part as) (rt_pool rt) = Some (rt_pool rt') \<and>
      exec (io_step L invoke) (io_part as) (rt_io rt) = Some (rt_io rt')) \<and>
   (fault (rt_io rt) = None \<longrightarrow>
      rt_step L invoke (IoAct (RunStep a)) rt = rt_run L invoke a rt \<and>
      exec (rt_step L invoke) [IoAct (ThreadCall a StopStore), IoAct (ThreadCall a StopNop)] rt = Some (rt_stop L rt)) \<and>
   rt_pool (rt_stop L rt) = rt_pool rt \<and> \<not> running (rt_get_io_context (rt_dtor L rt))"
  using rt_exec [of L invoke as rt rt']
  by (auto simp: rt_run_def rt_stop_def rt_dtor_def rt_get_io_context_def stop_def stop_store_def stop_nop_def
      simp del: run_step.simps split: prod.splits option.splits)



end
