(* ===== verification/Echo_Main.thy ===== *)
theory Echo_Main
  imports Echo_Server Runtime
begin

text \<open>
  \<open>main\<close> of \<open>src/examples/echo_server.cpp\<close> as a whole: the listening socket, the runtime, the I/O thread that
  runs \<open>rt.run()\<close>, the start of the accept chain, \<open>rt.stop()\<close>, the join, and the destructors of
  the runtime and its members, interleaved with the I/O thread, the workers of the pool and
  the kernel.
\<close>

section \<open>The machine\<close>

datatype main_pc =
    MSpawn          \<comment> \<open>\<open>std::thread io_thread\<close>\<close>
  | MAccept         \<comment> \<open>\<open>exec::start_detached(...)\<close>\<close>
  | MSleep          \<comment> \<open>\<open>sleep_for\<close>\<close>
  | MStopStore      \<comment> \<open>\<open>rt.stop()\<close>, the store to \<open>running\<close>\<close>
  | MStopNop        \<comment> \<open>\<open>rt.stop()\<close>, the empty request\<close>
  | MJoin           \<comment> \<open>\<open>io_thread.join()\<close>\<close>
  | MClose          \<comment> \<open>\<open>close(listen_fd)\<close>\<close>
  | MDtorStore      \<comment> \<open>\<open>runtime::~runtime\<close>: \<open>stop()\<close>, the store to \<open>running\<close>\<close>
  | MDtorNop        \<comment> \<open>\<open>runtime::~runtime\<close>: \<open>stop()\<close>, the empty request\<close>
  | MDtorIo         \<comment> \<open>the destructor of \<open>io_ctx_\<close>\<close>
  | MDtorPool       \<comment> \<open>the destructor of \<open>pool_\<close>\<close>
  | MExit

record ('r, 't) main_state =
  main_pc :: main_pc
  main_rt :: "('r, echo_cb, 't) runtime"
  main_closed :: "int list"

text \<open>
  The beginning: \<open>return 1\<close> without a socket, an exception of the constructor, or the descriptor and
  the state with a runtime of the default queue depth. \<open>n\<close> is \<open>hardware_concurrency()\<close>.
\<close>

datatype ('r, 't) main_entry = Exit1 "int list" | Throws error_code | Entered int "('r, 't) main_state"

definition main_enter ::
  "'r liburing \<Rightarrow> int \<Rightarrow> (int \<Rightarrow> int) \<Rightarrow> (int \<Rightarrow> int) \<Rightarrow> nat \<Rightarrow> ('r, 't) main_entry" where
  "main_enter L sock bind listen n =
     (case make_listen_socket sock bind listen of
        (listen_fd, closed) \<Rightarrow>
          if listen_fd < 0 then Exit1 closed
          else
            (case rt_ctor L n 256 0 of
               Inl e \<Rightarrow> Throws e
             | Inr rt \<Rightarrow> Entered listen_fd \<lparr>main_pc = MSpawn, main_rt = rt, main_closed = []\<rparr>))"

text \<open>A step of \<open>main\<close> that is a call on the I/O context.\<close>

definition main_call ::
  "'r liburing \<Rightarrow> address \<Rightarrow> address \<Rightarrow> echo_cb io_call \<Rightarrow> main_pc \<Rightarrow> ('r, 't) main_state \<Rightarrow> ('r, 't) main_state option" where
  "main_call L buf a k pc s =
     map_option (\<lambda>rt. s\<lparr>main_rt := rt, main_pc := pc\<rparr>)
       (rt_step L (echo_invoke buf) (IoAct (ThreadCall a k)) (main_rt s))"

definition main_step ::
  "'r liburing \<Rightarrow> address \<Rightarrow> int \<Rightarrow> address \<Rightarrow> ('r, 't) main_state \<Rightarrow> ('r, 't) main_state option" where
  "main_step L buf listen_fd a s =
     (case main_pc s of
        MSpawn \<Rightarrow> Some (s\<lparr>main_pc := MAccept\<rparr>)
      | MAccept \<Rightarrow> main_call L buf a (echo_start listen_fd) MSleep s
      | MSleep \<Rightarrow> Some (s\<lparr>main_pc := MStopStore\<rparr>)
      | MStopStore \<Rightarrow> main_call L buf a StopStore MStopNop s
      | MStopNop \<Rightarrow> main_call L buf a StopNop MJoin s
      | MJoin \<Rightarrow> (if run_pc (rt_io (main_rt s)) = Returned then Some (s\<lparr>main_pc := MClose\<rparr>) else None)
      | MClose \<Rightarrow> Some (s\<lparr>main_pc := MDtorStore, main_closed := main_closed s @ [listen_fd]\<rparr>)
      | MDtorStore \<Rightarrow> main_call L buf a StopStore MDtorNop s
      | MDtorNop \<Rightarrow> main_call L buf a StopNop MDtorIo s
      | MDtorIo \<Rightarrow>
          (let rt = main_rt s; m = rt_io rt in
           Some (s\<lparr>main_pc := MDtorPool, main_rt := rt\<lparr>rt_io := m\<lparr>ctx := ring_dtor L (ctx m)\<rparr>\<rparr>\<rparr>))
      | MDtorPool \<Rightarrow>
          map_option (\<lambda>p. s\<lparr>main_rt := (main_rt s)\<lparr>rt_pool := p\<rparr>,
                            main_pc := (if destroyer p = Destroyed then MExit else MDtorPool)\<rparr>)
            (destroy_step (rt_pool (main_rt s)))
      | MExit \<Rightarrow> None)"

datatype 't main_action = MainStep address | IoThread address | Kernel sqe int u32 | PoolThread "'t pool_action"

fun ring_open :: "main_pc \<Rightarrow> bool" where
  "ring_open MDtorPool = False"
| "ring_open MExit = False"
| "ring_open _ = True"

definition main_rt_act ::
  "'r liburing \<Rightarrow> address \<Rightarrow> (echo_cb, 't) rt_action \<Rightarrow> ('r, 't) main_state \<Rightarrow> ('r, 't) main_state option" where
  "main_rt_act L buf act s = map_option (\<lambda>rt. s\<lparr>main_rt := rt\<rparr>) (rt_step L (echo_invoke buf) act (main_rt s))"

fun main_machine ::
  "'r liburing \<Rightarrow> address \<Rightarrow> int \<Rightarrow> 't main_action \<Rightarrow> ('r, 't) main_state \<Rightarrow> ('r, 't) main_state option" where
  "main_machine L buf fd (MainStep a) s = main_step L buf fd a s"
| "main_machine L buf fd (IoThread a) s =
     (if main_pc s \<noteq> MSpawn \<and> ring_open (main_pc s) then main_rt_act L buf (IoAct (RunStep a)) s else None)"
| "main_machine L buf fd (Kernel e z f) s =
     (if ring_open (main_pc s) then main_rt_act L buf (IoAct (Complete e z f)) s else None)"
| "main_machine L buf fd (PoolThread act) s =
     (if act = DestroyStep \<or> main_pc s = MExit then None else main_rt_act L buf (PoolAct act) s)"

section \<open>Invariant\<close>

lemma thread_calls_append: "thread_calls (as @ bs) = thread_calls as @ thread_calls bs"
  by (induction as rule: thread_calls.induct) simp_all

lemma submits_append: "submits (ks @ ls) = submits ks @ submits ls"
  by (induction ks rule: submits.induct) simp_all

fun accept_started :: "main_pc \<Rightarrow> bool" where
  "accept_started MSpawn = False"
| "accept_started MAccept = False"
| "accept_started _ = True"

fun joined :: "main_pc \<Rightarrow> bool" where
  "joined MClose = True"
| "joined MDtorStore = True"
| "joined MDtorNop = True"
| "joined MDtorIo = True"
| "joined pc = (\<not> ring_open pc)"

fun fd_closed :: "main_pc \<Rightarrow> bool" where
  "fd_closed MClose = False"
| "fd_closed pc = joined pc"

text \<open>The context of \<open>main\<close> is that of an execution of the I/O machine, until its destructor has run.\<close>

definition io_part_ok ::
  "'r liburing \<Rightarrow> address \<Rightarrow> int \<Rightarrow> ('r, echo_cb) io_context \<Rightarrow> main_pc \<Rightarrow> ('r, echo_cb) io_machine \<Rightarrow> bool" where
  "io_part_ok L buf fd c pc m \<longleftrightarrow> (\<exists>as m0.
     exec (io_step L (echo_invoke buf)) as (io_init c) = Some m0 \<and>
     submits (thread_calls as) = (if accept_started pc then submits [echo_start fd] else []) \<and>
     m = (if ring_open pc then m0 else m0\<lparr>ctx := ring_dtor L (ctx m0)\<rparr>) \<and>
     (joined pc \<longrightarrow> run_pc m0 = Returned) \<and> (pc = MDtorIo \<or> \<not> ring_open pc \<longrightarrow> fault m0 = None))"

definition pool_part_ok :: "nat \<Rightarrow> main_pc \<Rightarrow> 't pool \<Rightarrow> bool" where
  "pool_part_ok n pc p \<longleftrightarrow> (\<exists>bs. exec pool_step bs (pool_ctor n 0) = Some p) \<and> (pc = MExit \<longrightarrow> destroyer p = Destroyed)"

definition main_inv ::
  "'r liburing \<Rightarrow> address \<Rightarrow> int \<Rightarrow> ('r, echo_cb) io_context \<Rightarrow> nat \<Rightarrow> ('r, 't) main_state \<Rightarrow> bool" where
  "main_inv L buf fd c n s \<longleftrightarrow>
     io_part_ok L buf fd c (main_pc s) (rt_io (main_rt s)) \<and> pool_part_ok n (main_pc s) (rt_pool (main_rt s)) \<and>
     main_closed s = (if fd_closed (main_pc s) then [fd] else [])"

text \<open>A step of the I/O machine while \<open>main\<close> goes from \<open>pc\<close> to \<open>pc'\<close>.\<close>

lemma io_part_step:
  assumes "io_part_ok L buf fd c pc m" and "ring_open pc" and "ring_open pc'"
    and step: "io_step L (echo_invoke buf) act m = Some m'"
    and "accept_started pc \<longrightarrow> accept_started pc'"
    and "submits (thread_calls [act]) = (if accept_started pc' \<and> \<not> accept_started pc then submits [echo_start fd] else [])"
    and "joined pc' \<longrightarrow> run_pc m' = Returned" and "pc' = MDtorIo \<longrightarrow> fault m' = None"
  shows "io_part_ok L buf fd c pc' m'"
proof -
  obtain as where as: "exec (io_step L (echo_invoke buf)) as (io_init c) = Some m"
    "submits (thread_calls as) = (if accept_started pc then submits [echo_start fd] else [])"
    using assms(1,2) by (auto simp: io_part_ok_def)
  have "exec (io_step L (echo_invoke buf)) (as @ [act]) (io_init c) = Some m'"
    using as(1) step by (simp add: exec_append del: io_step.simps)
  moreover have "submits (thread_calls (as @ [act])) = (if accept_started pc' then submits [echo_start fd] else [])"
    using as(2) assms(5,6) by (auto simp: thread_calls_append submits_append)
  ultimately show ?thesis
    unfolding io_part_ok_def using assms(3,7,8) by (intro exI [of _ "as @ [act]"] exI [of _ m']) simp
qed

lemma io_part_joined:
  "io_part_ok L buf fd c pc m \<Longrightarrow> ring_open pc \<Longrightarrow> (joined pc \<longrightarrow> run_pc m = Returned) \<and> (pc = MDtorIo \<longrightarrow> fault m = None)"
  by (auto simp: io_part_ok_def)

lemma io_call_step:
  assumes "io_step L invoke (ThreadCall a k) m = Some m'"
  shows "run_pc m' = run_pc m \<and> (k = StopNop \<longrightarrow> fault m' = None)"
  using assms do_call_control [of L a k m m'] by (auto split: if_splits)

lemma io_part_thread:
  assumes "io_part_ok L buf fd c pc m" and "ring_open pc"
    and step: "io_step L (echo_invoke buf) act m = Some m'" and "\<forall>a k. act \<noteq> ThreadCall a k"
  shows "io_part_ok L buf fd c pc m'"
proof -
  have "(joined pc \<longrightarrow> run_pc m' = Returned) \<and> (pc = MDtorIo \<longrightarrow> fault m' = None)"
    using io_part_joined [OF assms(1,2)] step assms(4)
    by (cases act; cases pc) (auto split: if_splits)
  then show ?thesis
    using io_part_step [OF assms(1,2,2) step] assms(4) by (cases act) auto
qed

lemma pool_part_step:
  assumes "pool_part_ok n pc p" and "pool_step act p = Some p'" and "pc' = MExit \<longrightarrow> destroyer p' = Destroyed"
  shows "pool_part_ok n pc' p'"
proof -
  obtain bs where "exec pool_step bs (pool_ctor n 0) = Some p" using assms(1) by (auto simp: pool_part_ok_def)
  then have "exec pool_step (bs @ [act]) (pool_ctor n 0) = Some p'" using assms(2) by (simp add: exec_append)
  then show ?thesis using assms(3) unfolding pool_part_ok_def by blast
qed

text \<open>Steps of \<open>main\<close> that leave the runtime alone, calls, and the two destructors.\<close>

lemma main_inv_pc:
  assumes "main_inv L buf fd c n s" and "ring_open (main_pc s)" and "ring_open pc"
    and "accept_started pc = accept_started (main_pc s)" and "pc \<noteq> MDtorIo"
    and "joined pc \<longrightarrow> run_pc (rt_io (main_rt s)) = Returned"
    and "closed = (if fd_closed pc then [fd] else [])"
  shows "main_inv L buf fd c n (s\<lparr>main_pc := pc, main_closed := closed\<rparr>)"
proof -
  have "io_part_ok L buf fd c pc (rt_io (main_rt s))"
    using assms unfolding main_inv_def io_part_ok_def by auto
  moreover have "pool_part_ok n pc (rt_pool (main_rt s))"
    using assms(1,3) by (auto simp: main_inv_def pool_part_ok_def)
  ultimately show ?thesis using assms(7) by (simp add: main_inv_def)
qed

lemma main_inv_call:
  assumes inv: "main_inv L buf fd c n s" and call: "main_call L buf a k pc s = Some s'"
    and open_pc: "ring_open (main_pc s)" "ring_open pc" and "accept_started (main_pc s) \<longrightarrow> accept_started pc"
    and "submits [k] = (if accept_started pc \<and> \<not> accept_started (main_pc s) then submits [echo_start fd] else [])"
    and "joined pc \<longrightarrow> joined (main_pc s)" and "pc = MDtorIo \<longrightarrow> k = StopNop" and "fd_closed pc = fd_closed (main_pc s)"
  shows "main_inv L buf fd c n s'"
proof -
  obtain m where m: "io_step L (echo_invoke buf) (ThreadCall a k) (rt_io (main_rt s)) = Some m"
    "s' = s\<lparr>main_rt := (main_rt s)\<lparr>rt_io := m\<rparr>, main_pc := pc\<rparr>"
    using call by (auto simp: main_call_def simp del: io_step.simps)
  have io: "io_part_ok L buf fd c (main_pc s) (rt_io (main_rt s))" using inv by (simp add: main_inv_def)
  have "io_part_ok L buf fd c pc m"
    using io_part_step [OF io open_pc m(1)] io_part_joined [OF io open_pc(1)] io_call_step [OF m(1)] assms(5-8)
    by simp
  then show ?thesis
    using inv assms(9) open_pc by (auto simp: main_inv_def pool_part_ok_def m(2))
qed

lemma main_inv_dtor_io:
  assumes "main_inv L buf fd c n s" and "main_pc s = MDtorIo"
  shows "main_inv L buf fd c n (s\<lparr>main_pc := MDtorPool,
    main_rt := (main_rt s)\<lparr>rt_io := (rt_io (main_rt s))\<lparr>ctx := ring_dtor L (ctx (rt_io (main_rt s)))\<rparr>\<rparr>\<rparr>)"
  using assms by (auto simp: main_inv_def io_part_ok_def pool_part_ok_def)

lemma main_inv_dtor_pool:
  assumes "main_inv L buf fd c n s" and "main_pc s = MDtorPool" and "destroy_step (rt_pool (main_rt s)) = Some p"
  shows "main_inv L buf fd c n (s\<lparr>main_rt := (main_rt s)\<lparr>rt_pool := p\<rparr>,
    main_pc := (if destroyer p = Destroyed then MExit else MDtorPool)\<rparr>)"
  using assms pool_part_step [of n "main_pc s" "rt_pool (main_rt s)" DestroyStep p]
  by (simp add: main_inv_def io_part_ok_def)

lemma main_inv_main_step:
  assumes inv: "main_inv L buf fd c n s" and step: "main_step L buf fd a s = Some s'"
  shows "main_inv L buf fd c n s'"
proof (cases "main_pc s")
  case MClose
  have "run_pc (rt_io (main_rt s)) = Returned" "main_closed s = []"
    using inv MClose io_part_joined [of L buf fd c MClose] by (simp_all add: main_inv_def)
  then show ?thesis
    using main_inv_pc [OF inv, of MDtorStore "[fd]"] step MClose by (simp add: main_step_def)
next
  case MDtorIo
  then show ?thesis using main_inv_dtor_io [OF inv] step by (simp add: main_step_def Let_def)
next
  case MDtorPool
  then show ?thesis using main_inv_dtor_pool [OF inv] step by (auto simp: main_step_def)
qed (use step main_inv_pc [OF inv, of _ "main_closed s"] main_inv_call [OF inv] inv in
    \<open>auto simp: main_step_def main_inv_def echo_start_def split: if_splits\<close>)

lemma main_inv_step:
  assumes inv: "main_inv L buf fd c n s" and step: "main_machine L buf fd act s = Some s'"
  shows "main_inv L buf fd c n s'"
proof (cases act)
  case (MainStep a)
  with main_inv_main_step [OF inv] step show ?thesis by simp
next
  case (IoThread a)
  then show ?thesis
    using inv step io_part_thread [of L buf fd c "main_pc s" "rt_io (main_rt s)" "RunStep a"]
    by (auto simp: main_rt_act_def main_inv_def simp del: io_step.simps split: if_splits)
next
  case (Kernel e z f)
  then show ?thesis
    using inv step io_part_thread [of L buf fd c "main_pc s" "rt_io (main_rt s)" "Complete e z f"]
    by (auto simp: main_rt_act_def main_inv_def simp del: io_step.simps split: if_splits)
next
  case (PoolThread b)
  then show ?thesis
    using inv step pool_part_step [of n "main_pc s" "rt_pool (main_rt s)" b _ "main_pc s"]
    by (auto simp: main_rt_act_def main_inv_def split: if_splits)
qed

lemma main_enter_inv:
  assumes "main_enter L sock bind listen n = Entered fd s"
  shows "\<exists>c. ring_ctor L 256 = Inr c \<and> main_inv L buf fd c n s"
proof -
  obtain c where c: "ring_ctor L 256 = Inr c"
    "s = \<lparr>main_pc = MSpawn, main_rt = \<lparr>rt_pool = pool_ctor n 0, rt_io = io_init c\<rparr>, main_closed = []\<rparr>"
    using assms by (auto simp: main_enter_def rt_ctor_def split: prod.splits if_splits sum.splits)
  have "exec (io_step L (echo_invoke buf)) [] (io_init c) = Some (io_init c)"
    "exec pool_step [] (pool_ctor n 0) = Some (pool_ctor n 0)" by simp_all
  then have "main_inv L buf fd c n s"
    unfolding main_inv_def io_part_ok_def pool_part_ok_def c(2) by (force intro: exI [of _ "[]"])
  with c(1) show ?thesis by blast
qed

lemma main_exec_inv:
  "main_inv L buf fd c n s \<Longrightarrow> exec (main_machine L buf fd) as s = Some t \<Longrightarrow> main_inv L buf fd c n t"
  by (induction as arbitrary: s) (auto split: option.splits intro: main_inv_step)

section \<open>Properties\<close>

text \<open>
  C23. What \<open>main\<close> leaves behind when it returns 0, in every execution: \<open>run\<close> has returned, all
  workers of the pool have exited, the listening descriptor has been closed exactly once and at most
  one client descriptor by the handlers. Every operation was either delivered to its handler
  exactly once or is still outstanding, and the callbacks of the outstanding ones are the cells
  of the heap that nobody frees.
\<close>

theorem echo_main_outcome:
  assumes "liburing_ok L sq kern" and "main_enter L sock bind listen n = Entered fd s"
    and "exec (main_machine L buf fd) as s = Some t" and "main_pc t = MExit"
  shows "let m = rt_io (main_rt t) in
    run_pc m = Returned \<and> list_all (\<lambda>pc. pc = Exited) (workers (rt_pool (main_rt t))) \<and>
    main_closed t = [fd] \<and> length (echo_closes buf (deliveries m)) \<le> 1 \<and>
    mset (submissions m) = mset (map (\<lambda>(cb, req, z). (cb, req)) (deliveries m))
      + image_mset (\<lambda>a. (the (heap (ctx m) a), requests m a)) (mset_set (dom (heap (ctx m))))"
proof -
  obtain c where c: "ring_ctor L 256 = Inr c" "main_inv L buf fd c n t"
    using main_enter_inv [OF assms(2)] main_exec_inv [OF _ assms(3)] by blast
  then obtain bs m0 where m0: "exec (io_step L (echo_invoke buf)) bs (io_init c) = Some m0"
    "submits (thread_calls bs) = submits [echo_start fd]"
    "rt_io (main_rt t) = m0\<lparr>ctx := ring_dtor L (ctx m0)\<rparr>" "run_pc m0 = Returned" "fault m0 = None"
    using assms(4) by (auto simp: main_inv_def io_part_ok_def)
  have closes: "length (echo_closes buf (deliveries m0)) \<le> 1"
    by (rule echo_closes_once [OF echo_logs_exec [OF assms(1) c(1) m0(1,5,2)]])
  have inv: "io_inv L sq kern m0" by (rule io_ok_exec(1) [OF assms(1) c(1) m0(1)])
  then have "outstanding L sq kern m0 = mset_set (dom (heap (ctx m0)))" using m0(4) by (simp add: io_inv_def)
  moreover have "\<forall>pc \<in> set (workers (rt_pool (main_rt t))). pc = Exited"
  proof -
    obtain ps where "exec pool_step ps (pool_ctor n 0) = Some (rt_pool (main_rt t))"
      "destroyer (rt_pool (main_rt t)) = Destroyed"
      using c(2) assms(4) by (auto simp: main_inv_def pool_part_ok_def)
    then show ?thesis using pool_inv_exec by (fastforce simp: pool_inv_def destroy_inv_def)
  qed
  ultimately show ?thesis
    using m0(3,4) closes inv c(2) assms(4)
    by (simp add: Let_def io_inv_def ring_dtor_def main_inv_def list_all_iff)
qed

text \<open>A run on the ring of lists, with one worker and no client.\<close>

abbreviation no_client :: "bool main_action list" where
  "no_client \<equiv>
     [MainStep 0, IoThread 0, IoThread 0, MainStep 10, MainStep 0, MainStep 0, MainStep 0,
      Kernel \<lparr>sqe_request = PrepNop, sqe_data = 0\<rparr> 0 0, IoThread 0, IoThread 0, IoThread 0, IoThread 0,
      MainStep 0, MainStep 0, MainStep 0, MainStep 0, MainStep 0, MainStep 0, MainStep 0]
     @ replicate 4 (PoolThread (WorkerStep 0 False)) @ [MainStep 0]"

abbreviation main_start :: "(list_ring, bool) main_state" where
  "main_start \<equiv> \<lparr>main_pc = MSpawn,
     main_rt = \<lparr>rt_pool = pool_ctor 1 0,
       rt_io = io_init \<lparr>ring = \<lparr>lr_depth = 256, lr_busy = False, lr_sq = [], lr_kern = [], lr_cq = []\<rparr>,
         running = False, heap = (\<lambda>_. None)\<rparr>\<rparr>,
     main_closed = []\<rparr>"

lemma enter_main: "main_enter list_liburing 4 (\<lambda>_. 0) (\<lambda>_. 0) 1 = Entered 4 main_start"
  by (simp add: main_enter_def make_listen_socket_def rt_ctor_def ring_ctor_def list_liburing_def)

lemmas main_eval = main_step_def main_call_def main_rt_act_def io_eval pool_eval echo_start_def
  accept_request_def async_accept_def echo_defs ring_dtor_def

theorem echo_main_outcome_witness:
  "\<exists>t. exec (main_machine list_liburing 64 4) no_client main_start = Some t \<and> main_pc t = MExit \<and>
     main_closed t = [4] \<and> run_pc (rt_io (main_rt t)) = Returned"
proof -
  obtain t where t: "exec (main_machine list_liburing 64 4) no_client main_start = Some t" "main_pc t = MExit"
    by (simp add: main_eval)
  from echo_main_outcome [OF list_liburing_ok enter_main t] t show ?thesis by (auto simp: Let_def)
qed


end
