(* ===== verification/Buffer_Pool.thy ===== *)
theory Buffer_Pool
  imports IO_Context
begin

text \<open>
  \<open>FixedBufferPool\<close> of \<open>src/benchmarks/server_async_engine_fixed.cpp\<close>: 64 buffers of 128 bytes in one block of
  memory, registered with the ring, with a stack of free indices.
\<close>

section \<open>Operations\<close>

definition BUFFER_SIZE :: nat where "BUFFER_SIZE = 128"

definition NUM_BUFFERS :: nat where "NUM_BUFFERS = 64"

record buffer_pool =
  bp_registered :: bool
  bp_memory :: address
  free_indices :: "u32 list"

text \<open>The constructor; \<open>mem\<close> is the address of the block.\<close>

definition bp_ctor :: "'r liburing \<Rightarrow> address \<Rightarrow> ('r, 'cb) io_context \<Rightarrow> buffer_pool \<times> ('r, 'cb) io_context" where
  "bp_ctor L mem c =
     (let spans = map (\<lambda>i. \<lparr>span_data = mem + i * BUFFER_SIZE, span_size = word_of_nat BUFFER_SIZE\<rparr>) [0..<NUM_BUFFERS] in
      case register_buffers L spans c of
        (Inr _, c') \<Rightarrow>
          (\<lparr>bp_registered = True, bp_memory = mem,
            free_indices = map (\<lambda>i. word_of_nat (NUM_BUFFERS - 1 - i)) [0..<NUM_BUFFERS]\<rparr>, c')
      | (Inl _, c') \<Rightarrow> (\<lparr>bp_registered = False, bp_memory = mem, free_indices = []\<rparr>, c'))"

definition bp_dtor :: "'r liburing \<Rightarrow> buffer_pool \<Rightarrow> ('r, 'cb) io_context \<Rightarrow> ('r, 'cb) io_context" where
  "bp_dtor L b c = (if bp_registered b then snd (unregister_buffers L c) else c)"

definition bp_acquire :: "buffer_pool \<Rightarrow> u32 option \<times> buffer_pool" where
  "bp_acquire b =
     (if \<not> bp_registered b \<or> free_indices b = [] then (None, b)
      else (Some (last (free_indices b)), b\<lparr>free_indices := butlast (free_indices b)\<rparr>))"

definition bp_release :: "u32 \<Rightarrow> buffer_pool \<Rightarrow> buffer_pool" where
  "bp_release i b = (if bp_registered b then b\<lparr>free_indices := free_indices b @ [i]\<rparr> else b)"

definition bp_get_span :: "buffer_pool \<Rightarrow> u32 \<Rightarrow> span" where
  "bp_get_span b i = \<lparr>span_data = bp_memory b + unat i * BUFFER_SIZE, span_size = word_of_nat BUFFER_SIZE\<rparr>"

section \<open>Ownership of the buffers\<close>

text \<open>\<open>H\<close> is the set of indices that are handed out.\<close>

definition all_indices :: "u32 set" where
  "all_indices = word_of_nat ` {..<NUM_BUFFERS}"

definition bp_inv :: "u32 set \<Rightarrow> buffer_pool \<Rightarrow> bool" where
  "bp_inv H b \<longleftrightarrow> distinct (free_indices b) \<and> set (free_indices b) \<inter> H = {} \<and>
     set (free_indices b) \<union> H = (if bp_registered b then all_indices else {})"

definition region :: "span \<Rightarrow> address set" where
  "region s = {span_data s ..< span_data s + unat (span_size s)}"

lemma index_inj: "inj_on (word_of_nat :: nat \<Rightarrow> u32) {..<NUM_BUFFERS}"
proof (rule inj_onI)
  have unat: "unat (word_of_nat i :: u32) = i" if "i \<in> {..<NUM_BUFFERS}" for i
    using that by (simp add: NUM_BUFFERS_def unsigned_of_nat take_bit_eq_mod)
  show "i = j" if "i \<in> {..<NUM_BUFFERS}" "j \<in> {..<NUM_BUFFERS}" "word_of_nat i = (word_of_nat j :: u32)" for i j
    using unat [OF that(1)] unat [OF that(2)] that(3) by metis
qed

lemma bp_inv_ctor: "bp_inv {} (fst (bp_ctor L mem c))"
proof -
  have "inj_on (\<lambda>i. word_of_nat (NUM_BUFFERS - 1 - i) :: u32) {0..<NUM_BUFFERS}"
    using index_inj by (auto simp: inj_on_def NUM_BUFFERS_def)
  moreover have "(\<lambda>i. word_of_nat (NUM_BUFFERS - 1 - i) :: u32) ` {0..<NUM_BUFFERS} = all_indices"
  proof -
    have "(\<lambda>i. NUM_BUFFERS - 1 - i) ` {0..<NUM_BUFFERS} = {..<NUM_BUFFERS}"
    proof
      show "{..<NUM_BUFFERS} \<subseteq> (\<lambda>i. NUM_BUFFERS - 1 - i) ` {0..<NUM_BUFFERS}"
      proof
        fix x assume "x \<in> {..<NUM_BUFFERS}"
        then show "x \<in> (\<lambda>i. NUM_BUFFERS - 1 - i) ` {0..<NUM_BUFFERS}"
          by (intro image_eqI [of _ _ "NUM_BUFFERS - 1 - x"]) (auto simp: NUM_BUFFERS_def)
      qed
    qed (auto simp: NUM_BUFFERS_def)
    then show ?thesis unfolding all_indices_def by (metis image_image)
  qed
  ultimately show ?thesis
    by (auto simp: bp_inv_def bp_ctor_def distinct_map Let_def split: prod.splits sum.splits)
qed

lemma bp_inv_acquire:
  assumes "bp_inv H b" and "bp_acquire b = (r, b')"
  shows "(case r of None \<Rightarrow> b' = b | Some i \<Rightarrow> i \<notin> H \<and> i \<in> all_indices \<and> bp_inv (insert i H) b') \<and>
    bp_registered b' = bp_registered b \<and> bp_memory b' = bp_memory b"
proof (cases "free_indices b = []")
  case False
  then obtain xs i where "free_indices b = xs @ [i]" by (metis rev_exhaust)
  then show ?thesis using assms by (auto simp: bp_inv_def bp_acquire_def split: if_splits)
qed (use assms in \<open>auto simp: bp_acquire_def\<close>)

lemma bp_inv_release: "bp_inv H b \<Longrightarrow> i \<in> H \<Longrightarrow> bp_inv (H - {i}) (bp_release i b)"
  by (auto simp: bp_inv_def bp_release_def split: if_splits)

lemma bp_release_sel [simp]:
  "bp_registered (bp_release i b) = bp_registered b" "bp_memory (bp_release i b) = bp_memory b"
  by (simp_all add: bp_release_def)

lemma unat_index: "i \<in> all_indices \<Longrightarrow> unat i < NUM_BUFFERS"
  by (auto simp: all_indices_def NUM_BUFFERS_def unsigned_of_nat take_bit_eq_mod)

lemma region_get_span:
  "region (bp_get_span b i) = {bp_memory b + unat i * BUFFER_SIZE ..< bp_memory b + unat i * BUFFER_SIZE + BUFFER_SIZE}"
  by (simp add: region_def bp_get_span_def BUFFER_SIZE_def)

lemma spans_disjoint:
  assumes "i \<noteq> j"
  shows "region (bp_get_span b i) \<inter> region (bp_get_span b j) = {}"
proof -
  have "unat i \<noteq> unat j" using assms unsigned_word_eqI by blast
  then consider "unat i + 1 \<le> unat j" | "unat j + 1 \<le> unat i" by linarith
  then show ?thesis
  proof cases
    case 1
    then have "(unat i + 1) * BUFFER_SIZE \<le> unat j * BUFFER_SIZE" by (rule mult_le_mono1)
    then show ?thesis by (auto simp: region_get_span)
  next
    case 2
    then have "(unat j + 1) * BUFFER_SIZE \<le> unat i * BUFFER_SIZE" by (rule mult_le_mono1)
    then show ?thesis by (auto simp: region_get_span)
  qed
qed

lemma span_in_memory:
  assumes "i \<in> all_indices"
  shows "region (bp_get_span b i) \<subseteq> {bp_memory b ..< bp_memory b + NUM_BUFFERS * BUFFER_SIZE}"
proof -
  have "(unat i + 1) * BUFFER_SIZE \<le> NUM_BUFFERS * BUFFER_SIZE" using unat_index [OF assms] by (intro mult_le_mono1) simp
  then show ?thesis by (auto simp: region_get_span)
qed

end
