(* ===== verification/Echo_Contract.thy ===== *)
theory Echo_Contract
  imports Prelude "HOL-Library.Sublist"
begin

text \<open>
  What the programs of \<open>src/benchmarks\<close> share: the answers of the kernel, the set-up of a listening socket, and the contract of an echo server.
\<close>

text \<open>What the kernel answers to \<open>recv\<close> and \<open>send\<close> on a non-blocking descriptor; 0 bytes received are the end of the stream.\<close>

datatype recv_answer = RecvBytes "u8 list" | RecvAgain | RecvFail
datatype send_answer = SendBytes nat | SendAgain | SendFail

text \<open>
  The set-up of the listening descriptor, with the results of \<open>socket\<close>, \<open>bind\<close> and \<open>listen\<close>: the descriptors closed before an early
  return, or the descriptor.
\<close>

definition listen_setup :: "int \<Rightarrow> int \<Rightarrow> int \<Rightarrow> int list + int" where
  "listen_setup sock bnd lsn =
     (if sock < 0 then Inl []
      else if bnd < 0 then Inl [sock]
      else if lsn < 0 then Inl [sock]
      else Inr sock)"

lemma slice_split: "n \<le> m \<Longrightarrow> take m (drop a xs) = take n (drop a xs) @ take (m - n) (drop (a + n) xs)"
  using take_add [of n "m - n" "drop a xs"] by (simp add: add.commute)

text \<open>
  The contract of an echo server, whatever its structure: on every connection, what has been sent is a prefix of
  what has been received, and bytes that have been received or sent stay so.
\<close>

locale echo_service = invariant_system init step inv
  for init :: 's and step :: "'a \<Rightarrow> 's \<Rightarrow> 's option" and inv +
  fixes received :: "'s \<Rightarrow> 'c \<Rightarrow> u8 list"
    and sent :: "'s \<Rightarrow> 'c \<Rightarrow> u8 list"
  assumes echo: "inv s \<Longrightarrow> prefix (sent s c) (received s c)"
    and grows: "inv s \<Longrightarrow> step a s = Some t \<Longrightarrow> prefix (received s c) (received t c) \<and> prefix (sent s c) (sent t c)"
begin

lemma grows_exec:
  assumes "inv s" and "exec step as s = Some t"
  shows "inv t \<and> prefix (received s c) (received t c) \<and> prefix (sent s c) (sent t c)"
  using assms
proof (induction as arbitrary: s)
  case (Cons a as)
  then obtain u where u: "step a s = Some u" "exec step as u = Some t" by (auto split: option.splits)
  then show ?case
    using Cons.IH [OF inv_step [OF Cons.prems(1) u(1)] u(2)] grows [OF Cons.prems(1) u(1), of c]
    by (auto intro: prefix_order.trans)
qed simp

text \<open>Any two moments of an execution: the bytes sent at the first are sent at the second, and are an echo.\<close>

lemma echoes:
  assumes "exec step as init = Some s" and "exec step bs s = Some t"
  shows "prefix (sent s c) (sent t c) \<and> prefix (sent t c) (received t c) \<and> prefix (received s c) (received t c)"
proof -
  have "inv s" using inv_reach [OF exec_reach [OF assms(1)]] .
  then show ?thesis using grows_exec [OF _ assms(2), of c] echo [of t c] by blast
qed

end

end
