(* ===== verification/Bench_Server.thy ===== *)
theory Bench_Server
  imports Buffer_Pool Senders IO_Properties Echo_Contract
begin

text \<open>
  The echo servers \<open>src/benchmarks/server_async_engine_fixed.cpp\<close> and
  \<open>src/benchmarks/server_async_engine.cpp\<close>: accept loop, connections, and the loops that read and write
  back. The second server is the case of a pool that is not registered, with a buffer of 4096 bytes in
  each connection. All handlers of a server thread run in its \<open>io.run()\<close>, one after the other.
  Bytes are modelled, in one memory for all connections. An operation in progress is one whose request
  has been submitted; that its sender submits the request is shown in \<open>Senders\<close>.
\<close>

section \<open>State\<close>

text \<open>A connection: \<open>conn_buf\<close> is the span of its pool buffer or of its own memory.\<close>

record connection =
  conn_fd :: int
  buf_index :: "u32 option"
  conn_buf :: span

text \<open>
  The operations in progress, each with the connection that its handler keeps alive by \<open>self\<close>;
  \<open>OpWrite\<close> has \<open>total_bytes\<close> and \<open>bytes_sent\<close>.
\<close>

datatype op = OpAccept | OpRead nat | OpWrite nat nat nat

fun op_conn :: "op \<Rightarrow> nat option" where
  "op_conn OpAccept = None"
| "op_conn (OpRead c) = Some c"
| "op_conn (OpWrite c m n) = Some c"

text \<open>
  \<open>accepted\<close> and \<open>closed\<close> record descriptors; \<open>inb\<close> and \<open>outb\<close> the bytes that a connection has
  received from its client and sent to it.
\<close>

record server =
  srv_running :: bool
  bpool :: buffer_pool
  bytes :: "address \<Rightarrow> u8"
  conns :: "nat \<Rightarrow> connection option"
  ops :: "op list"
  accepted :: "int list"
  closed :: "int list"
  inb :: "nat \<Rightarrow> u8 list"
  outb :: "nat \<Rightarrow> u8 list"

section \<open>Operations\<close>

text \<open>The requests behind the operations.\<close>

definition read_op_request :: "connection \<Rightarrow> sqe_op" where
  "read_op_request k =
     (case buf_index k of
        Some i \<Rightarrow> read_fixed_request (async_read_fixed 0 (conn_fd k) i (conn_buf k) 0)
      | None \<Rightarrow> recv_request (async_recv 0 (conn_fd k) (conn_buf k) 0))"

definition rest_span :: "connection \<Rightarrow> nat \<Rightarrow> nat \<Rightarrow> span" where
  "rest_span k total_bytes bytes_sent =
     \<lparr>span_data = span_data (conn_buf k) + bytes_sent, span_size = word_of_nat (total_bytes - bytes_sent)\<rparr>"

definition write_op_request :: "connection \<Rightarrow> nat \<Rightarrow> nat \<Rightarrow> sqe_op" where
  "write_op_request k total_bytes bytes_sent =
     (case buf_index k of
        Some i \<Rightarrow> write_fixed_request (async_write_fixed 0 (conn_fd k) i (rest_span k total_bytes bytes_sent) 0)
      | None \<Rightarrow> send_request (async_send 0 (conn_fd k) (rest_span k total_bytes bytes_sent) 0))"

text \<open>The functions that start operations.\<close>

definition read_loop :: "nat \<Rightarrow> server \<Rightarrow> server" where
  "read_loop c s = s\<lparr>ops := ops s @ [OpRead c]\<rparr>"

definition write_loop :: "nat \<Rightarrow> nat \<Rightarrow> nat \<Rightarrow> server \<Rightarrow> server" where
  "write_loop c total_bytes bytes_sent s = s\<lparr>ops := ops s @ [OpWrite c total_bytes bytes_sent]\<rparr>"

definition run_accept_loop :: "server \<Rightarrow> server" where
  "run_accept_loop s = s\<lparr>ops := ops s @ [OpAccept]\<rparr>"

text \<open>
  \<open>Connection::Connection\<close>, for the new object \<open>c\<close>; \<open>fb\<close> is the address and \<open>fbsize\<close> the size of
  the buffer of its own that it uses if the pool gives none.
\<close>

definition conn_ctor :: "nat \<Rightarrow> nat \<Rightarrow> int \<Rightarrow> address \<Rightarrow> server \<Rightarrow> server" where
  "conn_ctor fbsize c client_fd fb s =
     (case bp_acquire (bpool s) of
        (r, b) \<Rightarrow>
          s\<lparr>bpool := b,
            conns := (conns s)(c \<mapsto>
              \<lparr>conn_fd = client_fd, buf_index = r,
               conn_buf = (case r of Some i \<Rightarrow> bp_get_span b i
                           | None \<Rightarrow> \<lparr>span_data = fb, span_size = word_of_nat fbsize\<rparr>)\<rparr>)\<rparr>)"

definition conn_dtor :: "nat \<Rightarrow> server \<Rightarrow> server" where
  "conn_dtor c s =
     (case conns s c of
        None \<Rightarrow> s
      | Some k \<Rightarrow>
          s\<lparr>bpool := (case buf_index k of Some i \<Rightarrow> bp_release i (bpool s) | None \<Rightarrow> bpool s),
            closed := closed s @ [conn_fd k], conns := (conns s)(c := None)\<rparr>)"

text \<open>The end of a handler: \<open>self\<close> is dropped, and the last owner destroys the connection.\<close>

definition drop_self :: "nat \<Rightarrow> server \<Rightarrow> server" where
  "drop_self c s = (if Some c \<in> op_conn ` set (ops s) then s else conn_dtor c s)"

text \<open>
  The handlers. \<open>then\<close> runs its function for a value only; \<open>upon_error\<close> and \<open>upon_stopped\<close> do nothing.
\<close>

definition handle_read :: "nat \<Rightarrow> io_result \<Rightarrow> server \<Rightarrow> server" where
  "handle_read c z s =
     (case make_io_callback z of
        SetValue v \<Rightarrow> if res v \<le> 0 then s else write_loop c (nat (res v)) 0 s
      | _ \<Rightarrow> s)"

definition handle_write :: "nat \<Rightarrow> nat \<Rightarrow> nat \<Rightarrow> io_result \<Rightarrow> server \<Rightarrow> server" where
  "handle_write c total_bytes bytes_sent z s =
     (case make_io_callback z of
        SetValue v \<Rightarrow>
          if res v \<le> 0 then s
          else
            (let sent_now = nat (res v) in
             if bytes_sent + sent_now < total_bytes then write_loop c total_bytes (bytes_sent + sent_now) s
             else read_loop c s)
      | _ \<Rightarrow> s)"

definition handle_accept :: "nat \<Rightarrow> nat \<Rightarrow> address \<Rightarrow> io_result \<Rightarrow> server \<Rightarrow> server" where
  "handle_accept fbsize c fb z s =
     (case make_io_callback z of
        SetValue v \<Rightarrow>
          if \<not> srv_running s then s
          else
            run_accept_loop
              (if res v \<ge> 0
               then drop_self c (read_loop c ((conn_ctor fbsize c (res v) fb s)\<lparr>accepted := accepted s @ [res v]\<rparr>))
               else s)
      | _ \<Rightarrow> s)"

section \<open>Completions\<close>

definition read_bytes :: "(address \<Rightarrow> u8) \<Rightarrow> address \<Rightarrow> nat \<Rightarrow> u8 list" where
  "read_bytes m a n = map (\<lambda>i. m (a + i)) [0..<n]"

definition write_bytes :: "address \<Rightarrow> u8 list \<Rightarrow> (address \<Rightarrow> u8) \<Rightarrow> address \<Rightarrow> u8" where
  "write_bytes a ds m = (\<lambda>x. if a \<le> x \<and> x < a + length ds then ds ! (x - a) else m x)"

text \<open>
  The kernel completes operation \<open>n\<close>. A read that gives a positive result has put that many bytes
  into the buffer, and not more than fit; a write has sent at most what it was given.
\<close>

definition complete_read :: "nat \<Rightarrow> io_result \<Rightarrow> u8 list \<Rightarrow> server \<Rightarrow> server option" where
  "complete_read c z ds s =
     (case conns s c of
        None \<Rightarrow> None
      | Some k \<Rightarrow>
          if length ds = nat (res z) \<and> length ds \<le> unat (span_size (conn_buf k))
          then Some (drop_self c (handle_read c z
                 (s\<lparr>bytes := write_bytes (span_data (conn_buf k)) ds (bytes s), inb := (inb s)(c := inb s c @ ds)\<rparr>)))
          else None)"

definition complete_write :: "nat \<Rightarrow> nat \<Rightarrow> nat \<Rightarrow> io_result \<Rightarrow> server \<Rightarrow> server option" where
  "complete_write c total_bytes bytes_sent z s =
     (case conns s c of
        None \<Rightarrow> None
      | Some k \<Rightarrow>
          if nat (res z) \<le> total_bytes - bytes_sent
          then Some (drop_self c (handle_write c total_bytes bytes_sent z
                 (s\<lparr>outb := (outb s)(c := outb s c @
                      read_bytes (bytes s) (span_data (conn_buf k) + bytes_sent) (nat (res z)))\<rparr>)))
          else None)"

text \<open>
  A new connection is a new object (\<open>c\<close> has not been used), and a buffer of its own is new memory.
\<close>

definition fresh_memory :: "address set \<Rightarrow> server \<Rightarrow> bool" where
  "fresh_memory A s \<longleftrightarrow>
     A \<inter> {bp_memory (bpool s) ..< bp_memory (bpool s) + NUM_BUFFERS * BUFFER_SIZE} = {} \<and>
     (\<forall>c k. conns s c = Some k \<longrightarrow> A \<inter> region (conn_buf k) = {})"

definition complete_accept :: "nat \<Rightarrow> nat \<Rightarrow> address \<Rightarrow> io_result \<Rightarrow> server \<Rightarrow> server option" where
  "complete_accept fbsize c fb z s =
     (if conns s c = None \<and> inb s c = [] \<and> outb s c = [] \<and> fresh_memory {fb ..< fb + fbsize} s
      then Some (handle_accept fbsize c fb z s) else None)"

text \<open>\<open>n\<close> is the operation, \<open>ds\<close> the bytes received, \<open>c\<close> and \<open>fb\<close> what a new connection gets.\<close>

datatype server_action = Completed nat io_result "u8 list" nat address

fun server_step :: "nat \<Rightarrow> server_action \<Rightarrow> server \<Rightarrow> server option" where
  "server_step fbsize (Completed n z ds c fb) s =
     (if n < length (ops s)
      then
        (let s' = s\<lparr>ops := take n (ops s) @ drop (n + 1) (ops s)\<rparr> in
         case ops s ! n of
           OpAccept \<Rightarrow> complete_accept fbsize c fb z s'
         | OpRead d \<Rightarrow> complete_read d z ds s'
         | OpWrite d total_bytes bytes_sent \<Rightarrow> complete_write d total_bytes bytes_sent z s')
      else None)"

text \<open>A server thread when it enters \<open>io.run()\<close>.\<close>

definition server_init :: "buffer_pool \<Rightarrow> (address \<Rightarrow> u8) \<Rightarrow> server" where
  "server_init b m =
     run_accept_loop \<lparr>srv_running = True, bpool = b, bytes = m, conns = (\<lambda>_. None), ops = [], accepted = [],
       closed = [], inb = (\<lambda>_. []), outb = (\<lambda>_. [])\<rparr>"

text \<open>
  The function of a server thread up to \<open>io.run()\<close>, with the results of its system calls; the constructor of the \<open>io_context\<close> may
  throw. \<open>main\<close> starts such threads and joins them.
\<close>

datatype thread_entry = NoSocket "int list" | Throws error_code | Serving int server

definition server_thread :: "'r liburing \<Rightarrow> address \<Rightarrow> (address \<Rightarrow> u8) \<Rightarrow> int \<Rightarrow> int \<Rightarrow> int \<Rightarrow> thread_entry" where
  "server_thread L mem m sock bnd lsn =
     (case listen_setup sock bnd lsn of
        Inl cs \<Rightarrow> NoSocket cs
      | Inr l \<Rightarrow>
          (case ring_ctor L 1024 :: error_code + ('r, unit) io_context of
             Inl e \<Rightarrow> Throws e
           | Inr c \<Rightarrow> Serving l (server_init (fst (bp_ctor L mem c)) m)))"

section \<open>Invariant\<close>

subsection \<open>Memory\<close>

lemma length_read_bytes [simp]: "length (read_bytes m a n) = n"
  by (simp add: read_bytes_def)

lemma read_bytes_0 [simp]: "read_bytes m a 0 = []"
  by (simp add: read_bytes_def)

lemma read_bytes_add: "read_bytes m a (i + j) = read_bytes m a i @ read_bytes m (a + i) j"
  by (rule nth_equalityI) (auto simp: read_bytes_def nth_append add.assoc)

lemma read_written: "read_bytes (write_bytes a ds m) a (length ds) = ds"
  by (rule nth_equalityI) (simp_all add: read_bytes_def write_bytes_def)

lemma read_other:
  assumes "{b ..< b + n} \<inter> {a ..< a + length ds} = {}"
  shows "read_bytes (write_bytes a ds m) b n = read_bytes m b n"
proof (rule nth_equalityI)
  fix i assume "i < length (read_bytes (write_bytes a ds m) b n)"
  then have "b + i \<notin> {a ..< a + length ds}" using assms by auto
  then show "read_bytes (write_bytes a ds m) b n ! i = read_bytes m b n ! i"
    using \<open>i < _\<close> by (auto simp: read_bytes_def write_bytes_def)
qed simp

subsection \<open>The parts\<close>

definition held :: "server \<Rightarrow> u32 set" where
  "held s = {i. \<exists>c k. conns s c = Some k \<and> buf_index k = Some i}"

abbreviation pool_memory :: "server \<Rightarrow> address set" where
  "pool_memory s \<equiv> {bp_memory (bpool s) ..< bp_memory (bpool s) + NUM_BUFFERS * BUFFER_SIZE}"

text \<open>Each index is free or with one connection, and a connection with an index uses its buffer.\<close>

definition pool_ok :: "server \<Rightarrow> bool" where
  "pool_ok s \<longleftrightarrow> bp_inv (held s) (bpool s) \<and>
     (\<forall>c d k l i. conns s c = Some k \<and> conns s d = Some l \<and> buf_index k = Some i \<and> buf_index l = Some i \<longrightarrow> c = d) \<and>
     (\<forall>c k i. conns s c = Some k \<and> buf_index k = Some i \<longrightarrow> conn_buf k = bp_get_span (bpool s) i)"

definition mem_ok :: "server \<Rightarrow> bool" where
  "mem_ok s \<longleftrightarrow>
     (\<forall>c d k l. conns s c = Some k \<and> conns s d = Some l \<and> c \<noteq> d \<longrightarrow> region (conn_buf k) \<inter> region (conn_buf l) = {}) \<and>
     (\<forall>c k. conns s c = Some k \<and> buf_index k = None \<longrightarrow> region (conn_buf k) \<inter> pool_memory s = {}) \<and>
     (\<forall>c k. conns s c = Some k \<longrightarrow> unat (span_size (conn_buf k)) < 2 ^ 32)"

text \<open>Each connection has one operation in progress, apart from \<open>X\<close>, whose handler is running.\<close>

definition ops_of :: "nat \<Rightarrow> server \<Rightarrow> nat" where
  "ops_of c s = size (filter_mset (\<lambda>p. op_conn p = Some c) (mset (ops s)))"

definition ops_ok :: "nat option \<Rightarrow> server \<Rightarrow> bool" where
  "ops_ok X s \<longleftrightarrow> (\<forall>c. ops_of c s = (if conns s c = None \<or> X = Some c then 0 else 1))"

text \<open>What is still to be sent is in the buffer.\<close>

fun op_data :: "server \<Rightarrow> op \<Rightarrow> bool" where
  "op_data s OpAccept = True"
| "op_data s (OpRead c) = (inb s c = outb s c)"
| "op_data s (OpWrite c m n) =
     (n < m \<and> (\<exists>k. conns s c = Some k \<and> m \<le> unat (span_size (conn_buf k)) \<and>
        inb s c = outb s c @ read_bytes (bytes s) (span_data (conn_buf k) + n) (m - n)))"

definition data_ok :: "server \<Rightarrow> bool" where
  "data_ok s \<longleftrightarrow> (\<forall>p \<in> set (ops s). op_data s p) \<and> (\<forall>c. prefix (outb s c) (inb s c))"

definition fds_ok :: "server \<Rightarrow> bool" where
  "fds_ok s \<longleftrightarrow> finite (dom (conns s)) \<and>
     mset (accepted s) = mset (closed s) + image_mset (\<lambda>c. conn_fd (the (conns s c))) (mset_set (dom (conns s)))"

definition srv_inv :: "nat option \<Rightarrow> server \<Rightarrow> bool" where
  "srv_inv X s \<longleftrightarrow> pool_ok s \<and> mem_ok s \<and> ops_ok X s \<and> data_ok s \<and> fds_ok s"

lemmas parts = pool_ok_def mem_ok_def data_ok_def fds_ok_def held_def

lemma op_data_ops [simp]: "op_data (s\<lparr>ops := os\<rparr>) p = op_data s p"
  by (cases p) simp_all

text \<open>The record of accepted descriptors is in one part only.\<close>

lemma inv_accepted:
  "pool_ok (s\<lparr>accepted := as\<rparr>) = pool_ok s" "mem_ok (s\<lparr>accepted := as\<rparr>) = mem_ok s"
  "ops_ok X (s\<lparr>accepted := as\<rparr>) = ops_ok X s" "data_ok (s\<lparr>accepted := as\<rparr>) = data_ok s"
proof -
  have "op_data (s\<lparr>accepted := as\<rparr>) p = op_data s p" for p by (cases p) simp_all
  then show "data_ok (s\<lparr>accepted := as\<rparr>) = data_ok s" by (simp add: data_ok_def)
qed (simp_all add: pool_ok_def held_def mem_ok_def ops_ok_def ops_of_def)

lemma ops_none: "ops_of c s = 0 \<longleftrightarrow> Some c \<notin> op_conn ` set (ops s)"
  by (auto simp: ops_of_def filter_mset_eq_conv image_iff)

lemma ops_of_append: "ops_of c (s\<lparr>ops := ops s @ [p]\<rparr>) = ops_of c s + of_bool (op_conn p = Some c)"
  by (simp add: ops_of_def)

subsection \<open>Handlers\<close>

lemma inv_start_op:
  assumes "srv_inv (Some c) s" and "conns s c \<noteq> None" and "op_conn p = Some c" and "op_data s p"
  shows "srv_inv None (drop_self c (s\<lparr>ops := ops s @ [p]\<rparr>))"
proof -
  have "drop_self c (s\<lparr>ops := ops s @ [p]\<rparr>) = s\<lparr>ops := ops s @ [p]\<rparr>"
    using assms(3) by (simp add: drop_self_def)
  then show ?thesis using assms by (auto simp: srv_inv_def parts ops_ok_def ops_of_append)
qed

lemma inv_accept_op: "srv_inv None s \<Longrightarrow> srv_inv None (run_accept_loop s)"
  by (auto simp: run_accept_loop_def srv_inv_def parts ops_ok_def ops_of_append)

lemma inv_take_op:
  assumes inv: "srv_inv None s" and n: "n < length (ops s)"
  shows "srv_inv (op_conn (ops s ! n)) (s\<lparr>ops := take n (ops s) @ drop (n + 1) (ops s)\<rparr>)" (is "srv_inv _ ?s")
    and "op_data s (ops s ! n)" and "op_conn (ops s ! n) = Some c \<Longrightarrow> conns s c \<noteq> None"
proof -
  have eq: "mset (ops s) = add_mset (ops s ! n) (mset (take n (ops s) @ drop (n + 1) (ops s)))"
    using arg_cong [OF id_take_nth_drop [OF n], of mset] by simp
  have count: "ops_of c s = ops_of c ?s + of_bool (op_conn (ops s ! n) = Some c)" for c
    by (simp only: ops_of_def eq) (simp add: ops_of_def)
  have "ops_ok (op_conn (ops s ! n)) ?s"
  proof -
    have "ops_of c ?s = (if conns ?s c = None \<or> op_conn (ops s ! n) = Some c then 0 else 1)" for c
    proof -
      have "ops_of c s = (if conns s c = None then 0 else 1)" using inv by (simp add: srv_inv_def ops_ok_def)
      then show ?thesis using count [of c] by (auto split: if_splits)
    qed
    then show ?thesis unfolding ops_ok_def by blast
  qed
  moreover have "set (ops ?s) \<subseteq> set (ops s)" by (auto dest: in_set_takeD in_set_dropD)
  ultimately show "srv_inv (op_conn (ops s ! n)) ?s"
    using inv by (auto simp: srv_inv_def parts)
  show "op_data s (ops s ! n)" using inv n by (simp add: srv_inv_def data_ok_def)
  show "conns s c \<noteq> None" if "op_conn (ops s ! n) = Some c"
  proof
    assume "conns s c = None"
    then have "ops_of c s = 0" using inv by (simp add: srv_inv_def ops_ok_def)
    with count [of c] that show False by simp
  qed
qed

lemma conn_dtor_sel:
  assumes "conns s c = Some k"
  shows "conns (conn_dtor c s) = (conns s)(c := None)" "ops (conn_dtor c s) = ops s" "inb (conn_dtor c s) = inb s"
    "outb (conn_dtor c s) = outb s" "bytes (conn_dtor c s) = bytes s" "accepted (conn_dtor c s) = accepted s"
    "closed (conn_dtor c s) = closed s @ [conn_fd k]"
    "bpool (conn_dtor c s) = (case buf_index k of Some i \<Rightarrow> bp_release i (bpool s) | None \<Rightarrow> bpool s)"
  using assms by (simp_all add: conn_dtor_def)

lemma pool_ok_dtor:
  assumes ok: "pool_ok s" and k: "conns s c = Some k"
  shows "pool_ok (conn_dtor c s)" (is "pool_ok ?s")
proof (cases "buf_index k")
  note sel = conn_dtor_sel [OF k]
  case None
  moreover from None k have "held ?s = held s" unfolding held_def sel by (auto simp: fun_upd_def) (metis option.inject option.distinct(1))
  ultimately show ?thesis using ok by (auto simp: pool_ok_def sel)
next
  note sel = conn_dtor_sel [OF k]
  case (Some i)
  have inj: "d = c" if "conns s d = Some l" "buf_index l = Some i" for d l
    using ok k that Some unfolding pool_ok_def by blast
  have "j \<in> held ?s \<longleftrightarrow> j \<in> held s - {i}" for j
  proof
    assume "j \<in> held ?s"
    then show "j \<in> held s - {i}" using inj by (auto simp: held_def sel split: if_splits)
  next
    assume "j \<in> held s - {i}"
    then obtain d l where "conns s d = Some l" "buf_index l = Some j" "j \<noteq> i" by (auto simp: held_def)
    moreover from this have "d \<noteq> c" using k Some by auto
    ultimately show "j \<in> held ?s" unfolding held_def sel by auto
  qed
  then have "i \<in> held s" "held ?s = held s - {i}" using k Some by (auto simp: held_def)
  with Some show ?thesis
    using ok bp_inv_release [of "held s" "bpool s" i] by (auto simp: pool_ok_def sel bp_get_span_def)
qed

lemma inv_dtor:
  assumes inv: "srv_inv (Some c) s" and k: "conns s c = Some k"
  shows "srv_inv None (drop_self c s)"
proof -
  have none: "ops_of c s = 0" using inv by (simp add: srv_inv_def ops_ok_def)
  then have eq: "drop_self c s = conn_dtor c s" by (simp add: drop_self_def ops_none)
  let ?s = "conn_dtor c s"
  note sel = conn_dtor_sel [OF k]
  have "pool_ok ?s" using inv pool_ok_dtor [OF _ k] by (simp add: srv_inv_def)
  moreover have "mem_ok ?s"
  proof -
    have "bp_memory (bpool ?s) = bp_memory (bpool s)" by (simp add: sel split: option.splits)
    then show ?thesis
      using inv unfolding srv_inv_def mem_ok_def sel(1) by (metis fun_upd_apply option.distinct(1))
  qed
  moreover have "ops_ok None ?s"
    using inv none by (auto simp: srv_inv_def ops_ok_def ops_of_def sel)
  moreover have "data_ok ?s"
  proof -
    have "op_data ?s p" if "p \<in> set (ops s)" for p
    proof -
      have "op_data s p" "op_conn p \<noteq> Some c"
        using that inv none by (force simp: srv_inv_def data_ok_def ops_none)+
      then show ?thesis by (cases p) (auto simp: sel)
    qed
    then show ?thesis using inv by (simp add: srv_inv_def data_ok_def sel)
  qed
  moreover have "fds_ok ?s"
  proof -
    have fin: "finite (dom (conns s))" and c: "c \<in> dom (conns s)" using inv k by (auto simp: srv_inv_def fds_ok_def)
    have "mset_set (dom (conns s)) = add_mset c (mset_set (dom (conns s) - {c}))" by (rule mset_set.remove [OF fin c])
    moreover have "image_mset (\<lambda>d. conn_fd (the (((conns s)(c := None)) d))) (mset_set (dom (conns s) - {c}))
        = image_mset (\<lambda>d. conn_fd (the (conns s d))) (mset_set (dom (conns s) - {c}))"
      using fin by (intro image_mset_cong) auto
    ultimately show ?thesis using inv k fin by (simp add: srv_inv_def fds_ok_def sel dom_fun_upd)
  qed
  ultimately show ?thesis by (simp add: eq srv_inv_def)
qed

text \<open>Bytes received into the buffer of the connection whose handler is running, and bytes sent from it.\<close>

lemma busy_ops: "srv_inv (Some c) s \<Longrightarrow> p \<in> set (ops s) \<Longrightarrow> op_conn p \<noteq> Some c \<and> op_data s p"
proof -
  assume inv: "srv_inv (Some c) s" and p: "p \<in> set (ops s)"
  have "ops_of c s = 0" using inv by (simp add: srv_inv_def ops_ok_def)
  then have "Some c \<notin> op_conn ` set (ops s)" by (simp add: ops_none)
  then show ?thesis using inv p by (force simp: srv_inv_def data_ok_def)
qed

lemma inv_received:
  assumes inv: "srv_inv (Some c) s" and k: "conns s c = Some k" and len: "length ds \<le> unat (span_size (conn_buf k))"
  shows "srv_inv (Some c) (s\<lparr>bytes := write_bytes (span_data (conn_buf k)) ds (bytes s), inb := (inb s)(c := inb s c @ ds)\<rparr>)"
    (is "srv_inv _ ?s")
proof -
  have "op_data ?s p" if p: "p \<in> set (ops s)" for p
  proof (cases p)
    case (OpWrite d m n)
    have data: "op_data s p" and "d \<noteq> c" using busy_ops [OF inv p] OpWrite by auto
    then obtain l where l: "conns s d = Some l" "m \<le> unat (span_size (conn_buf l))" using OpWrite by auto
    have "region (conn_buf l) \<inter> region (conn_buf k) = {}"
      using inv k l(1) \<open>d \<noteq> c\<close> unfolding srv_inv_def mem_ok_def by blast
    then have "{span_data (conn_buf l) + n ..< span_data (conn_buf l) + n + (m - n)}
        \<inter> {span_data (conn_buf k) ..< span_data (conn_buf k) + length ds} = {}"
      using l(2) len by (fastforce simp: region_def)
    then show ?thesis using data OpWrite \<open>d \<noteq> c\<close> l(1) by (simp add: read_other)
  next
    case (OpRead d)
    then show ?thesis using busy_ops [OF inv p] by auto
  qed simp
  then show ?thesis
    using inv by (auto simp: srv_inv_def parts ops_ok_def ops_of_def)
qed

lemma inv_sent:
  assumes inv: "srv_inv (Some c) s" and out: "prefix (outb s c @ ds) (inb s c)"
  shows "srv_inv (Some c) (s\<lparr>outb := (outb s)(c := outb s c @ ds)\<rparr>)" (is "srv_inv _ ?s")
proof -
  have "op_data ?s p" if p: "p \<in> set (ops s)" for p
    using busy_ops [OF inv p] by (cases p) auto
  then show ?thesis using inv out by (auto simp: srv_inv_def parts ops_ok_def ops_of_def)
qed

lemma value_iff: "make_io_callback z = SetValue v \<longleftrightarrow> v = z \<and> 0 \<le> res z"
  using make_io_callback_cases(1) [of z v] by auto

lemma inv_complete_read:
  assumes inv: "srv_inv (Some c) s" and data: "inb s c = outb s c" and step: "complete_read c z ds s = Some t"
  shows "srv_inv None t"
proof -
  obtain k where k: "conns s c = Some k" "length ds = nat (res z)" "length ds \<le> unat (span_size (conn_buf k))"
    using step by (auto simp: complete_read_def split: option.splits if_splits)
  let ?s = "s\<lparr>bytes := write_bytes (span_data (conn_buf k)) ds (bytes s), inb := (inb s)(c := inb s c @ ds)\<rparr>"
  have t: "t = drop_self c (handle_read c z ?s)" using step k by (simp add: complete_read_def)
  have rcv: "srv_inv (Some c) ?s" by (rule inv_received [OF inv k(1,3)])
  show ?thesis
  proof (cases "0 < res z")
    case True
    then have "handle_read c z ?s = ?s\<lparr>ops := ops ?s @ [OpWrite c (length ds) 0]\<rparr>"
      using k(2) by (simp add: handle_read_def write_loop_def make_io_callback_def ECANCELED_def)
    moreover have "op_data ?s (OpWrite c (length ds) 0)"
      using True k data read_written [of "span_data (conn_buf k)" ds "bytes s"] by simp
    ultimately show ?thesis using inv_start_op [OF rcv, of "OpWrite c (length ds) 0"] k(1) by (simp add: t)
  next
    case False
    then have "handle_read c z ?s = ?s" by (auto simp: handle_read_def value_iff split: completion.splits)
    then show ?thesis using inv_dtor [OF rcv, of k] k(1) by (simp add: t)
  qed
qed

lemma inv_complete_write:
  assumes inv: "srv_inv (Some c) s" and data: "op_data s (OpWrite c m n)"
    and step: "complete_write c m n z s = Some t"
  shows "srv_inv None t"
proof -
  obtain k where k: "conns s c = Some k" "nat (res z) \<le> m - n"
    using step by (auto simp: complete_write_def split: option.splits if_splits)
  let ?r = "nat (res z)" and ?b = "span_data (conn_buf k) + n"
  let ?ds = "read_bytes (bytes s) ?b ?r"
  let ?s = "s\<lparr>outb := (outb s)(c := outb s c @ ?ds)\<rparr>"
  have t: "t = drop_self c (handle_write c m n z ?s)" using step k by (simp add: complete_write_def)
  have n: "n < m" "m \<le> unat (span_size (conn_buf k))" using data k(1) by auto
  have all: "inb s c = outb s c @ ?ds @ read_bytes (bytes s) (?b + ?r) (m - n - ?r)"
    using data k by (auto simp flip: read_bytes_add)
  have snt: "srv_inv (Some c) ?s" by (rule inv_sent [OF inv]) (simp add: all)
  consider "res z \<le> 0" | "0 < res z" "n + ?r < m" | "0 < res z" "n + ?r = m" using k(2) n by linarith
  then show ?thesis
  proof cases
    case 1
    then have "handle_write c m n z ?s = ?s" by (auto simp: handle_write_def value_iff split: completion.splits)
    then show ?thesis using inv_dtor [OF snt, of k] k(1) by (simp add: t)
  next
    case 2
    then have "handle_write c m n z ?s = ?s\<lparr>ops := ops ?s @ [OpWrite c m (n + ?r)]\<rparr>"
      by (simp add: handle_write_def write_loop_def make_io_callback_def ECANCELED_def Let_def)
    moreover have "op_data ?s (OpWrite c m (n + ?r))" using 2 k n all by (simp add: add.assoc)
    ultimately show ?thesis using inv_start_op [OF snt, of "OpWrite c m (n + ?r)"] k(1) by (simp add: t)
  next
    case 3
    then have "handle_write c m n z ?s = ?s\<lparr>ops := ops ?s @ [OpRead c]\<rparr>"
      by (simp add: handle_write_def read_loop_def make_io_callback_def ECANCELED_def Let_def)
    moreover have "op_data ?s (OpRead c)" using 3 all by simp
    ultimately show ?thesis using inv_start_op [OF snt, of "OpRead c"] k(1) by (simp add: t)
  qed
qed

text \<open>
  A new connection \<open>k\<close> with the buffer that the pool gave it, or with one of its own: \<open>new_conn\<close> is what
  the constructor establishes, and enough for each part of the invariant.
\<close>

definition new_conn :: "server \<Rightarrow> connection \<Rightarrow> buffer_pool \<Rightarrow> bool" where
  "new_conn s k b \<longleftrightarrow>
     bp_memory b = bp_memory (bpool s) \<and> bp_inv (held s \<union> set_option (buf_index k)) b \<and>
     (case buf_index k of
        Some i \<Rightarrow> i \<notin> held s \<and> i \<in> all_indices \<and> conn_buf k = bp_get_span (bpool s) i
      | None \<Rightarrow> fresh_memory (region (conn_buf k)) s) \<and>
     unat (span_size (conn_buf k)) < 2 ^ 32"

lemma conn_ctor_new:
  assumes inv: "srv_inv X s" and fresh: "fresh_memory {fb ..< fb + fbsize} s" and fb: "fbsize < 2 ^ 32"
  obtains k b where "conn_ctor fbsize c fd fb s = s\<lparr>bpool := b, conns := (conns s)(c \<mapsto> k)\<rparr>"
    and "conn_fd k = fd" and "new_conn s k b"
proof -
  obtain r b where acq: "bp_acquire (bpool s) = (r, b)" by (cases "bp_acquire (bpool s)")
  define k where "k = \<lparr>conn_fd = fd, buf_index = r,
    conn_buf = (case r of Some i \<Rightarrow> bp_get_span b i | None \<Rightarrow> \<lparr>span_data = fb, span_size = word_of_nat fbsize\<rparr>)\<rparr>"
  have pool: "bp_inv (held s) (bpool s)" using inv by (simp add: srv_inv_def pool_ok_def)
  note acq_inv = bp_inv_acquire [OF pool acq]
  have "new_conn s k b"
  proof (cases r)
    case None
    then have "region (conn_buf k) = {fb ..< fb + fbsize}"
      using fb by (simp add: k_def region_def unsigned_of_nat take_bit_eq_mod)
    then show ?thesis
      using None acq_inv pool fresh fb by (simp add: new_conn_def k_def unsigned_of_nat take_bit_eq_mod)
  next
    case (Some i)
    then show ?thesis using acq_inv by (simp add: new_conn_def k_def bp_get_span_def BUFFER_SIZE_def)
  qed
  moreover have "conn_ctor fbsize c fd fb s = s\<lparr>bpool := b, conns := (conns s)(c \<mapsto> k)\<rparr>"
    by (simp add: conn_ctor_def acq k_def)
  ultimately show thesis using that by (simp add: k_def)
qed

lemma held_new:
  assumes c: "conns s c = None"
  shows "held (s\<lparr>bpool := b, conns := (conns s)(c \<mapsto> k)\<rparr>) = held s \<union> set_option (buf_index k)" (is "held ?s = _")
proof (intro set_eqI iffI)
  fix i assume "i \<in> held s \<union> set_option (buf_index k)"
  then consider d l where "conns s d = Some l" "buf_index l = Some i" | "buf_index k = Some i"
    by (auto simp: held_def)
  then show "i \<in> held ?s"
  proof cases
    case 1
    with c have "conns ?s d = Some l" by auto
    with 1 show ?thesis unfolding held_def by blast
  next
    case 2
    moreover have "conns ?s c = Some k" by simp
    ultimately show ?thesis unfolding held_def by blast
  qed
qed (auto simp: held_def split: if_splits)

lemma pool_ok_new:
  assumes ok: "pool_ok s" and c: "conns s c = None" and new: "new_conn s k b"
  shows "pool_ok (s\<lparr>bpool := b, conns := (conns s)(c \<mapsto> k)\<rparr>)"
proof -
  have "bp_get_span b i = bp_get_span (bpool s) i" for i using new by (simp add: new_conn_def bp_get_span_def)
  moreover have "\<not> (conns s d = Some l \<and> buf_index l = Some i)" if "buf_index k = Some i" for d l i
    using new that by (auto simp: new_conn_def held_def)
  ultimately show ?thesis
    using ok new c unfolding pool_ok_def held_new [OF c] by (auto simp: new_conn_def split: if_splits)
qed

lemma new_region:
  assumes ok: "pool_ok s" "mem_ok s" and new: "new_conn s k b" and l: "conns s d = Some l"
  shows "region (conn_buf k) \<inter> region (conn_buf l) = {}"
proof (cases "buf_index k")
  case None
  then show ?thesis using new l unfolding new_conn_def fresh_memory_def by auto
next
  case (Some i)
  then have i: "i \<notin> held s" "i \<in> all_indices" "conn_buf k = bp_get_span (bpool s) i" using new by (auto simp: new_conn_def)
  show ?thesis
  proof (cases "buf_index l")
    case None
    then have "region (conn_buf l) \<inter> pool_memory s = {}" using ok l unfolding mem_ok_def by blast
    then show ?thesis using span_in_memory [OF i(2), of "bpool s"] i(3) by auto
  next
    case (Some j)
    then have "j \<in> held s" "conn_buf l = bp_get_span (bpool s) j" using ok l unfolding pool_ok_def held_def by blast+
    then show ?thesis using i spans_disjoint [of i j "bpool s"] by auto
  qed
qed

lemma mem_ok_new:
  assumes ok: "pool_ok s" "mem_ok s" and new: "new_conn s k b"
  shows "mem_ok (s\<lparr>bpool := b, conns := (conns s)(c \<mapsto> k)\<rparr>)" (is "mem_ok ?s")
proof -
  note nr = new_region [OF ok new]
  have "region (conn_buf k') \<inter> region (conn_buf l) = {}"
    if that: "conns ?s d = Some k'" "conns ?s e = Some l" "d \<noteq> e" for d e k' l
  proof (cases "d = c \<or> e = c")
    case True
    then show ?thesis using that nr [of e l] nr [of d k'] by (auto simp: Int_commute)
  next
    case False
    then have "conns s d = Some k'" "conns s e = Some l" using that by simp_all
    then show ?thesis using ok that(3) unfolding mem_ok_def by blast
  qed
  moreover have "region (conn_buf l) \<inter> pool_memory s = {}" if "conns ?s d = Some l" "buf_index l = None" for d l
  proof (cases "d = c")
    case True
    then show ?thesis using that new by (simp add: new_conn_def fresh_memory_def)
  next
    case False
    then have "conns s d = Some l" using that by simp
    then show ?thesis using ok that(2) unfolding mem_ok_def by blast
  qed
  moreover have "pool_memory ?s = pool_memory s" using new by (simp add: new_conn_def)
  moreover have "unat (span_size (conn_buf l)) < 2 ^ 32" if "conns ?s d = Some l" for d l
    using ok that new unfolding mem_ok_def new_conn_def by (cases "d = c") auto
  ultimately show ?thesis unfolding mem_ok_def by blast
qed

lemma inv_conn_ctor:
  assumes inv: "srv_inv None s" and c: "conns s c = None" and fresh: "fresh_memory {fb ..< fb + fbsize} s"
    and fb: "fbsize < 2 ^ 32"
  shows "srv_inv (Some c) ((conn_ctor fbsize c fd fb s)\<lparr>accepted := accepted s @ [fd]\<rparr>)" (is "srv_inv _ ?t")
proof -
  obtain k b where s: "conn_ctor fbsize c fd fb s = s\<lparr>bpool := b, conns := (conns s)(c \<mapsto> k)\<rparr>" (is "_ = ?s")
    and k: "conn_fd k = fd" "new_conn s k b" by (rule conn_ctor_new [OF inv fresh fb])
  have ok: "pool_ok ?s" "mem_ok ?s" using inv c k pool_ok_new mem_ok_new by (simp_all add: srv_inv_def)
  have "ops_ok (Some c) ?s" using inv c by (auto simp: srv_inv_def ops_ok_def ops_of_def)
  moreover have "data_ok ?s"
  proof -
    have "op_data ?s p" if p: "p \<in> set (ops s)" for p
    proof -
      have "op_data s p" using inv p by (simp add: srv_inv_def data_ok_def)
      then show ?thesis using c by (cases p) auto
    qed
    then show ?thesis using inv by (simp add: srv_inv_def data_ok_def)
  qed
  moreover have "fds_ok (?s\<lparr>accepted := accepted s @ [fd]\<rparr>)"
  proof -
    have fin: "finite (dom (conns s))" "c \<notin> dom (conns s)" using inv c by (auto simp: srv_inv_def fds_ok_def)
    then have "image_mset (\<lambda>d. conn_fd (the (((conns s)(c \<mapsto> k)) d))) (mset_set (dom (conns s)))
        = image_mset (\<lambda>d. conn_fd (the (conns s d))) (mset_set (dom (conns s)))"
      by (intro image_mset_cong) auto
    then show ?thesis using inv fin k by (simp add: srv_inv_def fds_ok_def)
  qed
  ultimately show ?thesis unfolding s srv_inv_def using ok by (simp add: inv_accepted)
qed

lemma inv_complete_accept:
  assumes inv: "srv_inv None s" and step: "complete_accept fbsize c fb z s = Some t" and fb: "fbsize < 2 ^ 32"
  shows "srv_inv None t"
proof -
  have c: "conns s c = None" "inb s c = []" "outb s c = []" "fresh_memory {fb ..< fb + fbsize} s"
    and t: "t = handle_accept fbsize c fb z s"
    using step by (auto simp: complete_accept_def split: if_splits)
  let ?s = "(conn_ctor fbsize c (res z) fb s)\<lparr>accepted := accepted s @ [res z]\<rparr>"
  have new: "srv_inv (Some c) ?s" by (rule inv_conn_ctor [OF inv c(1,4) fb])
  have "op_data ?s (OpRead c)" "conns ?s c \<noteq> None"
    using c by (auto simp: conn_ctor_def split: prod.splits)
  from inv_start_op [OF new this(2) _ this(1)]
  have "srv_inv None (drop_self c (read_loop c ?s))" by (simp add: read_loop_def)
  then show ?thesis
    using inv by (auto simp: t handle_accept_def value_iff split: completion.splits intro!: inv_accept_op)
qed

lemma inv_server_step:
  assumes inv: "srv_inv None s" and step: "server_step fbsize act s = Some t" and fb: "fbsize < 2 ^ 32"
  shows "srv_inv None t"
proof -
  obtain n z ds c a where act: "act = Completed n z ds c a" by (cases act)
  with step have n: "n < length (ops s)" by (auto split: if_splits)
  let ?s = "s\<lparr>ops := take n (ops s) @ drop (n + 1) (ops s)\<rparr>"
  note taken = inv_take_op [OF inv n]
  show ?thesis
  proof (cases "ops s ! n")
    case OpAccept
    then show ?thesis using taken(1) inv_complete_accept [of ?s fbsize c a z t] step n fb by (simp add: act)
  next
    case (OpRead d)
    then show ?thesis using taken(1,2) inv_complete_read [of d ?s z ds t] step n by (simp add: act)
  next
    case (OpWrite d m k)
    have "op_data ?s (OpWrite d m k)" using taken(2) unfolding OpWrite op_data_ops .
    then show ?thesis using taken(1) inv_complete_write [of d ?s m k z t] step n OpWrite by (simp add: act)
  qed
qed

lemma inv_server_init: "bp_inv {} b \<Longrightarrow> srv_inv None (server_init b m)"
  by (auto simp: server_init_def run_accept_loop_def srv_inv_def parts ops_ok_def ops_of_def)

lemma server_system:
  "fbsize < 2 ^ 32 \<Longrightarrow> invariant_system (server_init (fst (bp_ctor L mem c)) m) (server_step fbsize) (srv_inv None)"
  by unfold_locales (auto intro: inv_server_init [OF bp_inv_ctor] inv_server_step)

lemma server_exec_inv:
  assumes "fbsize < 2 ^ 32" and "exec (server_step fbsize) as (server_init (fst (bp_ctor L mem c)) m) = Some s"
  shows "srv_inv None s"
  using invariant_system.inv_exec [OF server_system invariant_system.inv_init [OF server_system]] assms by blast

text \<open>The bytes received and sent only grow.\<close>

lemma dtor_logs [simp]:
  "inb (drop_self c s) = inb s" "outb (drop_self c s) = outb s" "inb (conn_ctor f c d b s) = inb s" "outb (conn_ctor f c d b s) = outb s"
  by (auto simp: drop_self_def conn_dtor_def conn_ctor_def split: option.splits prod.splits)

lemma handler_logs [simp]:
  "inb (handle_read c z s) = inb s" "outb (handle_read c z s) = outb s" "inb (handle_write c i j z s) = inb s"
  "outb (handle_write c i j z s) = outb s" "inb (handle_accept f c b z s) = inb s" "outb (handle_accept f c b z s) = outb s"
  by (auto simp: handle_read_def handle_write_def handle_accept_def read_loop_def write_loop_def run_accept_loop_def Let_def
      split: completion.splits)

lemma server_logs_grow:
  assumes "server_step fbsize a s = Some t"
  shows "prefix (inb s d) (inb t d) \<and> prefix (outb s d) (outb t d)"
proof -
  obtain n z ds c fb where a: "a = Completed n z ds c fb" by (cases a)
  show ?thesis
    using assms
    by (cases "ops s ! n")
      (auto simp: a complete_accept_def complete_read_def complete_write_def Let_def split: if_splits option.splits)
qed

lemma server_echo_service:
  assumes "fbsize < 2 ^ 32"
  shows "echo_service (server_init (fst (bp_ctor L mem c)) m) (server_step fbsize) (srv_inv None) inb outb"
proof (intro echo_service.intro echo_service_axioms.intro)
  show "invariant_system (server_init (fst (bp_ctor L mem c)) m) (server_step fbsize) (srv_inv None)"
    using assms by (rule server_system)
qed (auto simp: srv_inv_def data_ok_def server_logs_grow)

text \<open>The two servers: their own buffers have 128 and 4096 bytes.\<close>

interpretation fixed_buffers: echo_service "server_init (fst (bp_ctor L mem c)) m" "server_step 128" "srv_inv None" inb outb for L mem c m
  by (rule server_echo_service) simp

interpretation own_buffers: echo_service "server_init (fst (bp_ctor L mem c)) m" "server_step 4096" "srv_inv None" inb outb for L mem c m
  by (rule server_echo_service) simp

section \<open>Requests\<close>

text \<open>The memory that the kernel uses for a request.\<close>

fun request_range :: "sqe_op \<Rightarrow> address set" where
  "request_range (PrepRecv fd a n f) = {a ..< a + unat n}"
| "request_range (PrepSend fd a n f) = {a ..< a + unat n}"
| "request_range (PrepReadFixed fd a n off i) = {a ..< a + unat n}"
| "request_range (PrepWriteFixed fd a n off i) = {a ..< a + unat n}"
| "request_range _ = {}"

lemma read_op_range:
  assumes "unat (span_size (conn_buf k)) < 2 ^ 32"
  shows "request_range (read_op_request k) = region (conn_buf k)"
  using assms by (cases "buf_index k") (simp_all add: read_op_request_def read_fixed_request_def async_read_fixed_def
    recv_request_def async_recv_def region_def unsigned_ucast_eq take_bit_eq_mod)

lemma write_op_range:
  assumes "unat (span_size (conn_buf k)) < 2 ^ 32" and "n < m" and "m \<le> unat (span_size (conn_buf k))"
  shows "request_range (write_op_request k m n) = {span_data (conn_buf k) + n ..< span_data (conn_buf k) + m}"
proof -
  obtain j where j: "m = n + j" using assms(2) less_imp_add_positive by blast
  then have "unat (word_of_nat j :: 64 word) = j" using assms by (simp add: unsigned_of_nat take_bit_eq_mod)
  then show ?thesis
    using assms by (cases "buf_index k") (simp_all add: j add.assoc write_op_request_def write_fixed_request_def async_write_fixed_def
      send_request_def async_send_def rest_span_def unsigned_ucast_eq take_bit_eq_mod)
qed

text \<open>The request of an operation of a connection.\<close>

fun op_request :: "server \<Rightarrow> op \<Rightarrow> (connection \<times> sqe_op) option" where
  "op_request s OpAccept = None"
| "op_request s (OpRead c) = map_option (\<lambda>k. (k, read_op_request k)) (conns s c)"
| "op_request s (OpWrite c m n) = map_option (\<lambda>k. (k, write_op_request k m n)) (conns s c)"

section \<open>The accept loop\<close>

definition accepts :: "server \<Rightarrow> nat" where
  "accepts s = count (mset (ops s)) OpAccept"

lemma accepts_handlers [simp]:
  "accepts (read_loop c s) = accepts s" "accepts (write_loop c m n s) = accepts s"
  "accepts (run_accept_loop s) = accepts s + 1" "accepts (conn_dtor c s) = accepts s"
  "accepts (drop_self c s) = accepts s" "accepts (conn_ctor fbsize c fd fb s) = accepts s"
  "accepts (s\<lparr>accepted := as\<rparr>) = accepts s" "accepts (s\<lparr>outb := os\<rparr>) = accepts s"
  "accepts (s\<lparr>bytes := m'\<rparr>) = accepts s" "accepts (s\<lparr>inb := is\<rparr>) = accepts s"
  by (auto simp: accepts_def read_loop_def write_loop_def run_accept_loop_def drop_self_def conn_dtor_def conn_ctor_def
    split: option.splits prod.splits)

lemma accepted_handlers [simp]:
  "accepted (read_loop c s) = accepted s" "accepted (write_loop c m n s) = accepted s"
  "accepted (conn_dtor c s) = accepted s" "accepted (drop_self c s) = accepted s"
  by (auto simp: read_loop_def write_loop_def drop_self_def conn_dtor_def split: option.splits)

lemma accepts_take:
  assumes "n < length (ops s)"
  shows "accepts s = accepts (s\<lparr>ops := take n (ops s) @ drop (n + 1) (ops s)\<rparr>) + of_bool (ops s ! n = OpAccept)"
proof -
  have "mset (ops s) = add_mset (ops s ! n) (mset (take n (ops s) @ drop (n + 1) (ops s)))"
    using arg_cong [OF id_take_nth_drop [OF assms], of mset] by simp
  then show ?thesis by (simp only: accepts_def) simp
qed

lemma complete_accepts:
  "complete_read c z ds s = Some t \<Longrightarrow> accepts t = accepts s \<and> accepted t = accepted s"
  "complete_write c m n z s = Some t \<Longrightarrow> accepts t = accepts s \<and> accepted t = accepted s"
  "complete_accept fbsize c fb z s = Some t \<Longrightarrow> accepts t \<le> accepts s + of_bool (0 \<le> res z) \<and>
     (res z < 0 \<longrightarrow> accepted t = accepted s)"
  by (auto simp: complete_read_def complete_write_def complete_accept_def handle_read_def handle_write_def handle_accept_def
    value_iff Let_def split: option.splits if_splits completion.splits)

lemma server_step_accepts:
  assumes step: "server_step fbsize (Completed n z ds c fb) s = Some t"
  shows "accepts t \<le> accepts s" and "ops s ! n \<noteq> OpAccept \<or> res z < 0 \<Longrightarrow> accepted t = accepted s"
    and "ops s ! n = OpAccept \<Longrightarrow> res z < 0 \<Longrightarrow> accepts t < accepts s"
proof -
  have n: "n < length (ops s)" using step by (auto split: if_splits)
  let ?s = "s\<lparr>ops := take n (ops s) @ drop (n + 1) (ops s)\<rparr>"
  have "accepts t \<le> accepts s \<and> (ops s ! n \<noteq> OpAccept \<or> res z < 0 \<longrightarrow> accepted t = accepted s) \<and>
    (ops s ! n = OpAccept \<and> res z < 0 \<longrightarrow> accepts t < accepts s)"
  proof (cases "ops s ! n")
    case OpAccept
    then show ?thesis using complete_accepts(3) [of fbsize c fb z ?s t] accepts_take [OF n] step n
      by (auto simp: of_bool_def split: if_splits)
  next
    case (OpRead d)
    then show ?thesis using complete_accepts(1) [of d z ds ?s t] accepts_take [OF n] step n by simp
  next
    case (OpWrite d m k)
    then show ?thesis using complete_accepts(2) [of d m k z ?s t] accepts_take [OF n] step n by simp
  qed
  then show "accepts t \<le> accepts s" "ops s ! n \<noteq> OpAccept \<or> res z < 0 \<Longrightarrow> accepted t = accepted s"
    "ops s ! n = OpAccept \<Longrightarrow> res z < 0 \<Longrightarrow> accepts t < accepts s" by blast+
qed

lemma accepts_zero: "accepts s = 0 \<longleftrightarrow> OpAccept \<notin> set (ops s)"
  by (simp add: accepts_def count_eq_zero_iff)

lemma accepts_exec: "exec (server_step fbsize) as s = Some t \<Longrightarrow> accepts t \<le> accepts s"
proof (induction as arbitrary: s)
  case (Cons a as)
  then obtain u where "server_step fbsize a s = Some u" "exec (server_step fbsize) as u = Some t"
    by (auto split: option.splits)
  with Cons.IH [of u] server_step_accepts(1) show ?case by (cases a) fastforce
qed simp

lemma no_accept_exec:
  "exec (server_step fbsize) as s = Some t \<Longrightarrow> accepts s = 0 \<Longrightarrow> accepts t = 0 \<and> accepted t = accepted s"
proof (induction as arbitrary: s)
  case (Cons a as)
  then obtain u where u: "server_step fbsize a s = Some u" "exec (server_step fbsize) as u = Some t"
    by (auto split: option.splits)
  obtain n z ds c fb where a: "a = Completed n z ds c fb" by (cases a)
  have "n < length (ops s)" using u(1) by (auto simp: a split: if_splits)
  then have "ops s ! n \<noteq> OpAccept" using Cons.prems(2) nth_mem [of n "ops s"] by (metis accepts_zero)
  then have "accepts u = 0" "accepted u = accepted s"
    using server_step_accepts(1,2) [OF u(1) [unfolded a]] Cons.prems(2) by auto
  then show ?case using Cons.IH [OF u(2)] by simp
qed simp

section \<open>Properties\<close>

text \<open>
  A run of the server with registered buffers: a client connects, sends three bytes, and the first two
  are sent back; then a second client connects.
\<close>

abbreviation demo_pool :: buffer_pool where
  "demo_pool \<equiv> fst (bp_ctor list_liburing 1000 demo_ctx)"

definition demo_server :: "server_action list" where
  "demo_server =
     [Completed 0 \<lparr>res = 5, res_flags = 0\<rparr> [] 0 0, Completed 0 \<lparr>res = 3, res_flags = 0\<rparr> [7, 8, 9] 0 0,
      Completed 1 \<lparr>res = 2, res_flags = 0\<rparr> [] 0 0, Completed 0 \<lparr>res = 6, res_flags = 0\<rparr> [] 1 0]"

lemma demo_pool_eq:
  "demo_pool = \<lparr>bp_registered = True, bp_memory = 1000,
     free_indices = map (\<lambda>i. word_of_nat (63 - i)) [0..<62] @ [1, 0]\<rparr>"
  using upt_add_eq_append [of 0 62 2]
  by (simp add: bp_ctor_def register_buffers_def list_liburing_def NUM_BUFFERS_def Let_def upt_rec)

lemmas server_eval = server_init_def run_accept_loop_def demo_pool_eq complete_accept_def complete_read_def
  complete_write_def handle_accept_def handle_read_def handle_write_def make_io_callback_def ECANCELED_def
  conn_ctor_def bp_acquire_def read_loop_def write_loop_def drop_self_def fresh_memory_def bp_get_span_def
  region_def BUFFER_SIZE_def NUM_BUFFERS_def read_bytes_def write_bytes_def

lemma demo_server_runs:
  "\<exists>s. exec (server_step 128) demo_server (server_init demo_pool (\<lambda>_. 0)) = Some s \<and>
     ops s = [OpWrite 0 3 2, OpRead 1, OpAccept] \<and> inb s 0 = [7, 8, 9] \<and> outb s 0 = [7, 8]"
  by (simp add: demo_server_def server_eval upt_rec)



text \<open>
  C10. Resources of the servers: the buffers of two connections do not overlap; each of the 64 indices is free or
  held by a connection, never both and never free twice; each connection has exactly one operation in progress;
  and the accepted descriptors are those closed and those of live connections, so each is closed once.
\<close>

theorem server_resources:
  assumes "fbsize < 2 ^ 32" and "exec (server_step fbsize) as (server_init (fst (bp_ctor L mem c)) m) = Some s"
  shows "(\<forall>d e k l. conns s d = Some k \<and> conns s e = Some l \<and> d \<noteq> e \<longrightarrow>
      region (conn_buf k) \<inter> region (conn_buf l) = {} \<and> (buf_index k = None \<or> buf_index k \<noteq> buf_index l)) \<and>
    distinct (free_indices (bpool s)) \<and> set (free_indices (bpool s)) \<inter> held s = {} \<and>
    set (free_indices (bpool s)) \<union> held s = (if bp_registered (bpool s) then all_indices else {}) \<and>
    (\<forall>d. ops_of d s = (if conns s d = None then 0 else 1)) \<and> finite (dom (conns s)) \<and>
    mset (accepted s) = mset (closed s) + image_mset (\<lambda>d. conn_fd (the (conns s d))) (mset_set (dom (conns s)))"
proof -
  have inv: "srv_inv None s" by (rule server_exec_inv [OF assms])
  have "buf_index k = None \<or> buf_index k \<noteq> buf_index l"
    if "conns s d = Some k" "conns s e = Some l" "d \<noteq> e" for d e k l
    using inv that unfolding srv_inv_def pool_ok_def by (metis option.exhaust)
  moreover have "\<forall>d e k l. conns s d = Some k \<and> conns s e = Some l \<and> d \<noteq> e \<longrightarrow>
      region (conn_buf k) \<inter> region (conn_buf l) = {}" using inv unfolding srv_inv_def mem_ok_def by blast
  ultimately show ?thesis using inv by (simp add: srv_inv_def pool_ok_def bp_inv_def ops_ok_def fds_ok_def) blast
qed

theorem server_resources_witness:
  "\<exists>s. exec (server_step 128) demo_server (server_init demo_pool (\<lambda>_. 0)) = Some s \<and>
     ops s = [OpWrite 0 3 2, OpRead 1, OpAccept] \<and> distinct (free_indices (bpool s)) \<and> ops_of 1 s = 1"
proof -
  obtain s where s: "exec (server_step 128) demo_server (server_init demo_pool (\<lambda>_. 0)) = Some s"
    "ops s = [OpWrite 0 3 2, OpRead 1, OpAccept]" using demo_server_runs by force
  then have "ops_of 1 s = 1" by (simp add: ops_of_def)
  with server_resources [OF _ s(1)] s show ?thesis by auto
qed

text \<open>
  Requests stay inside the buffer: a read uses exactly the buffer of its connection, and a write a part of
  it that is not empty, also with the 32-bit lengths of the requests for registered buffers.
\<close>

lemma requests_in_buffer:
  assumes "fbsize < 2 ^ 32" and "exec (server_step fbsize) as (server_init (fst (bp_ctor L mem c)) m) = Some s"
    and "p \<in> set (ops s)" and "op_conn p = Some d"
  shows "\<exists>k r. conns s d = Some k \<and> op_request s p = Some (k, r) \<and> request_range r \<subseteq> region (conn_buf k) \<and>
    (case p of OpWrite d m n \<Rightarrow> card (request_range r) = m - n \<and> 0 < m - n | _ \<Rightarrow> request_range r = region (conn_buf k))"
proof -
  have inv: "srv_inv None s" by (rule server_exec_inv [OF assms(1,2)])
  obtain i where i: "i < length (ops s)" "ops s ! i = p" using assms(3) by (auto simp: in_set_conv_nth)
  obtain k where k: "conns s d = Some k" using inv_take_op(3) [OF inv i(1), of d] i assms(4) by auto
  have size: "unat (span_size (conn_buf k)) < 2 ^ 32" using inv k unfolding srv_inv_def mem_ok_def by blast
  have data: "op_data s p" using inv_take_op(2) [OF inv i(1)] i by simp
  show ?thesis
  proof (cases p)
    case (OpWrite e m' n)
    then have "n < m'" "m' \<le> unat (span_size (conn_buf k))" "e = d" using data k assms(4) by auto
    then show ?thesis using k OpWrite write_op_range [OF size] by (auto simp: region_def)
  next
    case (OpRead e)
    then show ?thesis using k assms(4) read_op_range [OF size] by auto
  qed (use assms(4) in simp)
qed

text \<open>
  C35. An accept that fails ends the accept loop: the loop is continued by the function given to \<open>then\<close>, which runs
  for values only, so after the first error the server never accepts another client.
\<close>

theorem accept_error_ends:
  assumes "exec (server_step fbsize) as (server_init b m) = Some s"
    and "n < length (ops s)" and "ops s ! n = OpAccept" and "res z < 0"
    and "exec (server_step fbsize) (Completed n z ds d fb # as') s = Some t"
  shows "OpAccept \<notin> set (ops t) \<and> accepted t = accepted s"
proof -
  obtain u where u: "server_step fbsize (Completed n z ds d fb) s = Some u" "exec (server_step fbsize) as' u = Some t"
    using assms(5) by (auto simp del: server_step.simps split: option.splits)
  have "accepts (server_init b m) = 1" by (simp add: server_init_def) (simp add: accepts_def)
  then have "accepts u = 0" "accepted u = accepted s"
    using accepts_exec [OF assms(1)] server_step_accepts(2,3) [OF u(1)] assms(3,4) by auto
  then show ?thesis using no_accept_exec [OF u(2)] by (simp add: accepts_zero)
qed

theorem accept_error_ends_witness:
  "\<exists>s t. exec (server_step 128) demo_server (server_init demo_pool (\<lambda>_. 0)) = Some s \<and>
     exec (server_step 128) [Completed 2 \<lparr>res = - 24, res_flags = 0\<rparr> [] 2 0] s = Some t \<and>
     OpAccept \<notin> set (ops t) \<and> accepted t = accepted s"
proof -
  obtain s where s: "exec (server_step 128) demo_server (server_init demo_pool (\<lambda>_. 0)) = Some s"
    "ops s = [OpWrite 0 3 2, OpRead 1, OpAccept]" "fresh_memory {0..<128} s" "conns s 2 = None \<and> inb s 2 = [] \<and> outb s 2 = []"
    by (simp add: demo_server_def server_eval upt_rec)
  then obtain t where t: "exec (server_step 128) [Completed 2 \<lparr>res = - 24, res_flags = 0\<rparr> [] 2 0] s = Some t"
    by (simp add: complete_accept_def fresh_memory_def)
  show ?thesis using s t accept_error_ends [OF s(1) _ _ _ t] by auto
qed

end
