(* ===== verification/Epoll_Server.thy ===== *)
theory Epoll_Server
  imports Echo_Contract
begin

text \<open>
  The echo server \<open>src/benchmarks/server_epoll.cpp\<close>: one thread runs \<open>run_epoll_reactor\<close>, with the bytes. The kernel
  decides what the system calls return; the answers are arguments of the handlers, and an answer that the kernel does not
  give (more bytes than asked for, a descriptor that is open already) makes the handler \<open>None\<close>.
\<close>

section \<open>State\<close>

definition EPOLLIN :: u32 where "EPOLLIN = 0x1"
definition EPOLLOUT :: u32 where "EPOLLOUT = 0x4"
definition EPOLLERR :: u32 where "EPOLLERR = 0x8"
definition EPOLLHUP :: u32 where "EPOLLHUP = 0x10"
definition EPOLLRDHUP :: u32 where "EPOLLRDHUP = 0x2000"
definition EPOLLET :: u32 where "EPOLLET = 0x80000000"

lemmas epoll_flags = EPOLLIN_def EPOLLOUT_def EPOLLERR_def EPOLLHUP_def EPOLLRDHUP_def EPOLLET_def

text \<open>\<open>ConnectionContext\<close>; \<open>serial\<close> is the number of the connection, for the logs.\<close>

record connection_context =
  fd :: int
  buffer :: "u8 list"
  read_bytes :: nat
  write_bytes :: nat
  want_write :: bool
  serial :: nat

definition ConnectionContext :: "nat \<Rightarrow> int \<Rightarrow> connection_context" where
  "ConnectionContext n client_fd = \<lparr>fd = client_fd, buffer = [], read_bytes = 0, write_bytes = 0, want_write = False, serial = n\<rparr>"

text \<open>What the kernel answers to \<open>accept4\<close>.\<close>

datatype accept_answer = AcceptFd int bool | AcceptFail   \<comment> \<open>the flag: \<open>EPOLL_CTL_ADD\<close> of the descriptor succeeds\<close>

text \<open>
  One visit of a connection: its context, the bytes received and sent, the interest to be registered, and whether the
  connection is to be closed.
\<close>

record conn_visit =
  cx :: connection_context
  got :: "u8 list"
  sent :: "u8 list"
  interest :: "u32 option"
  closing :: bool

section \<open>A connection\<close>

definition resize :: "nat \<Rightarrow> u8 list \<Rightarrow> u8 list" where
  "resize n xs = take n xs @ replicate (n - length xs) 0"

definition receive :: "u8 list \<Rightarrow> connection_context \<Rightarrow> connection_context" where
  "receive xs k =
     (let r = read_bytes k + length xs; b = take (read_bytes k) (buffer k) @ xs @ drop r (buffer k) in
      k\<lparr>buffer := (if r = length b then resize (length b * 2) b else b), read_bytes := r\<rparr>)"

text \<open>The loop around \<open>recv\<close>; the list holds the answers of all its calls.\<close>

fun recv_loop :: "recv_answer list \<Rightarrow> conn_visit \<Rightarrow> conn_visit option" where
  "recv_loop [RecvAgain] v = Some v"
| "recv_loop [RecvFail] v = Some (v\<lparr>closing := True\<rparr>)"
| "recv_loop (RecvBytes xs # rs) v =
     (if length xs \<le> length (buffer (cx v)) - read_bytes (cx v)
      then if xs = [] then (if rs = [] then Some (v\<lparr>closing := True\<rparr>) else None)
           else recv_loop rs (v\<lparr>cx := receive xs (cx v), got := got v @ xs\<rparr>)
      else None)"
| "recv_loop _ v = None"

text \<open>\<open>send\<close> of what is between \<open>write_bytes\<close> and \<open>read_bytes\<close>.\<close>

definition send_rest :: "send_answer \<Rightarrow> conn_visit \<Rightarrow> conn_visit option" where
  "send_rest a v =
     (let k = cx v in
      case a of
        SendBytes n \<Rightarrow>
          if n \<le> read_bytes k - write_bytes k
          then Some (v\<lparr>cx := k\<lparr>write_bytes := write_bytes k + n\<rparr>, sent := sent v @ take n (drop (write_bytes k) (buffer k))\<rparr>)
          else None
      | SendAgain \<Rightarrow> Some v
      | SendFail \<Rightarrow> Some (v\<lparr>closing := True\<rparr>))"

text \<open>After the first \<open>send\<close>: wait for room, or start again at the beginning of the buffer.\<close>

definition want_or_reset :: "conn_visit \<Rightarrow> conn_visit" where
  "want_or_reset v =
     (let k = cx v in
      if write_bytes k < read_bytes k
      then if \<not> want_write k
           then v\<lparr>cx := k\<lparr>want_write := True\<rparr>, interest := Some (EPOLLIN OR EPOLLOUT OR EPOLLRDHUP OR EPOLLET)\<rparr>
           else v
      else v\<lparr>cx := k\<lparr>read_bytes := 0, write_bytes := 0\<rparr>\<rparr>)"

definition on_readable :: "recv_answer list \<Rightarrow> send_answer \<Rightarrow> conn_visit \<Rightarrow> conn_visit option" where
  "on_readable rs a v =
     (case recv_loop rs v of
        None \<Rightarrow> None
      | Some v \<Rightarrow>
          if closing v then Some v
          else if read_bytes (cx v) > write_bytes (cx v)
          then map_option (\<lambda>v. if closing v then v else want_or_reset v) (send_rest a v)
          else Some v)"

definition done_writing :: "conn_visit \<Rightarrow> conn_visit" where
  "done_writing v =
     (let k = cx v in
      if write_bytes k = read_bytes k
      then v\<lparr>cx := k\<lparr>want_write := False, read_bytes := 0, write_bytes := 0\<rparr>, interest := Some (EPOLLIN OR EPOLLRDHUP OR EPOLLET)\<rparr>
      else v)"

definition on_writable :: "send_answer \<Rightarrow> conn_visit \<Rightarrow> conn_visit option" where
  "on_writable a v =
     map_option (\<lambda>v. if closing v then v else done_writing v)
       (if read_bytes (cx v) > write_bytes (cx v) then send_rest a v else Some v)"

section \<open>The reactor\<close>

text \<open>
  \<open>registered\<close> and \<open>open_fds\<close> belong to the kernel: the interest list of the epoll descriptor and the open descriptors.
  \<open>batch\<close> are the events of the last \<open>epoll_wait\<close> that have not been handled.
  \<open>accepted\<close>, \<open>closed\<close>, \<open>inb\<close> and \<open>outb\<close> are logs.
\<close>

record reactor =
  listen_fd :: int
  epoll_fd :: int
  running :: bool
  returned :: bool
  conns :: "int \<Rightarrow> connection_context option"
  batch :: "(int \<times> u32) list"
  registered :: "int \<Rightarrow> u32 option"
  open_fds :: "int set"
  accepted :: "int list"
  closed :: "int list"
  inb :: "nat \<Rightarrow> u8 list"
  outb :: "nat \<Rightarrow> u8 list"

text \<open>
  The beginning of \<open>run_epoll_reactor\<close>, with the results of \<open>socket\<close>, \<open>bind\<close>, \<open>listen\<close> and \<open>epoll_create1\<close> and whether the
  listening descriptor could be registered: the descriptors closed before an early return, or the reactor.
\<close>

definition reactor_init :: "int \<Rightarrow> int \<Rightarrow> bool \<Rightarrow> reactor" where
  "reactor_init sock ep added =
     \<lparr>listen_fd = sock, epoll_fd = ep, running = True, returned = False, conns = (\<lambda>_. None), batch = [],
      registered = (if added then [sock \<mapsto> EPOLLIN] else (\<lambda>_. None)), open_fds = {sock, ep},
      accepted = [], closed = [], inb = (\<lambda>_. []), outb = (\<lambda>_. [])\<rparr>"

definition reactor_start :: "int \<Rightarrow> int \<Rightarrow> int \<Rightarrow> int \<Rightarrow> bool \<Rightarrow> int list + reactor" where
  "reactor_start sock bnd lsn ep added =
     (case listen_setup sock bnd lsn of
        Inl cs \<Rightarrow> Inl cs
      | Inr l \<Rightarrow> if ep < 0 then Inl [l] else Inr (reactor_init l ep added))"

fun accept_loop :: "accept_answer list \<Rightarrow> reactor \<Rightarrow> reactor option" where
  "accept_loop [AcceptFail] r = Some r"
| "accept_loop (AcceptFd client_fd added # as) r =
     (if 0 \<le> client_fd \<and> client_fd \<notin> open_fds r
      then
        (let ctx = ConnectionContext (length (accepted r)) client_fd in
         accept_loop as
           (r\<lparr>conns := (conns r)(client_fd \<mapsto> ctx\<lparr>buffer := resize 4096 (buffer ctx)\<rparr>),
              registered := (registered r)(client_fd := (if added then Some (EPOLLIN OR EPOLLRDHUP OR EPOLLET) else None)),
              open_fds := insert client_fd (open_fds r), accepted := accepted r @ [client_fd]\<rparr>))
      else None)"
| "accept_loop _ r = None"

text \<open>\<open>EPOLL_CTL_DEL\<close>, \<open>close\<close> and \<open>erase\<close>.\<close>

definition close_conn :: "int \<Rightarrow> reactor \<Rightarrow> reactor" where
  "close_conn c r =
     r\<lparr>registered := (registered r)(c := None), open_fds := open_fds r - {c}, closed := closed r @ [c],
       conns := (conns r)(c := None)\<rparr>"

text \<open>\<open>conns[fd]\<close>, which makes a new context for a key that is not in the map.\<close>

definition conn_at :: "int \<Rightarrow> reactor \<Rightarrow> connection_context" where
  "conn_at c r = (case conns r c of Some k \<Rightarrow> k | None \<Rightarrow> ConnectionContext 0 (- 1))"

definition leave :: "int \<Rightarrow> conn_visit \<Rightarrow> reactor \<Rightarrow> reactor" where
  "leave c v r =
     (let n = serial (cx v);
          r = r\<lparr>conns := (conns r)(c \<mapsto> cx v), inb := (inb r)(n := inb r n @ got v), outb := (outb r)(n := outb r n @ sent v)\<rparr> in
      if closing v then close_conn c r
      else case interest v of
             Some m \<Rightarrow> if registered r c \<noteq> None then r\<lparr>registered := (registered r)(c \<mapsto> m)\<rparr> else r
           | None \<Rightarrow> r)"

text \<open>The answers to the calls during one event.\<close>

record answers =
  accepts :: "accept_answer list"
  recvs :: "recv_answer list"
  send_in :: send_answer
  send_out :: send_answer

definition handle_conn :: "int \<Rightarrow> u32 \<Rightarrow> answers \<Rightarrow> reactor \<Rightarrow> reactor option" where
  "handle_conn c revents z r =
     (if revents AND (EPOLLERR OR EPOLLHUP OR EPOLLRDHUP) \<noteq> 0 then Some (close_conn c r)
      else
        (let v = \<lparr>cx = conn_at c r, got = [], sent = [], interest = None, closing = False\<rparr> in
         case (if revents AND EPOLLIN \<noteq> 0 then on_readable (recvs z) (send_in z) v else Some v) of
           None \<Rightarrow> None
         | Some v \<Rightarrow>
             if closing v \<or> revents AND EPOLLOUT = 0 then Some (leave c v r)
             else map_option (\<lambda>v. leave c v r) (on_writable (send_out z) v)))"

definition handle_event :: "int \<times> u32 \<Rightarrow> answers \<Rightarrow> reactor \<Rightarrow> reactor option" where
  "handle_event e z r =
     (case e of (c, revents) \<Rightarrow>
        if c = listen_fd r then accept_loop (accepts z) r else handle_conn c revents z r)"

text \<open>
  \<open>epoll_wait\<close> reports registered descriptors, each once; \<open>StopFlag\<close> is another thread that clears \<open>running\<close>.
\<close>

datatype reactor_action = EpollWait "(int \<times> u32) list" | Event answers | StopFlag | Leave

fun reactor_step :: "reactor_action \<Rightarrow> reactor \<Rightarrow> reactor option" where
  "reactor_step (EpollWait es) r =
     (if running r \<and> batch r = [] \<and> \<not> returned r \<and> length es \<le> 1024 \<and> distinct (map fst es) \<and>
         list_all (\<lambda>(c, m). registered r c \<noteq> None) es
      then Some (r\<lparr>batch := es\<rparr>) else None)"
| "reactor_step (Event z) r =
     (case batch r of [] \<Rightarrow> None | e # es \<Rightarrow> handle_event e z (r\<lparr>batch := es\<rparr>))"
| "reactor_step StopFlag r = Some (r\<lparr>running := False\<rparr>)"
| "reactor_step Leave r =
     (if \<not> running r \<and> batch r = [] \<and> \<not> returned r
      then Some (r\<lparr>returned := True, open_fds := open_fds r - {listen_fd r, epoll_fd r},
        closed := closed r @ [listen_fd r, epoll_fd r]\<rparr>) else None)"

section \<open>Invariants of a connection\<close>

definition pending :: "connection_context \<Rightarrow> u8 list" where
  "pending k = take (read_bytes k - write_bytes k) (drop (write_bytes k) (buffer k))"

text \<open>There is always room for another byte, and what has been received is what has been sent and what is pending.\<close>

definition sized :: "connection_context \<Rightarrow> bool" where
  "sized k \<longleftrightarrow> 4096 \<le> length (buffer k) \<and> read_bytes k < length (buffer k) \<and> write_bytes k \<le> read_bytes k"

definition visit_ok :: "u8 list \<Rightarrow> u8 list \<Rightarrow> conn_visit \<Rightarrow> bool" where
  "visit_ok i p v \<longleftrightarrow> sized (cx v) \<and> i @ got v = (p @ sent v) @ pending (cx v)"

text \<open>Output that is pending is waited for; the registered interest says so.\<close>

definition waits :: "connection_context \<Rightarrow> bool" where
  "waits k \<longleftrightarrow> (write_bytes k < read_bytes k \<longrightarrow> want_write k)"

definition tracks :: "u32 \<Rightarrow> conn_visit \<Rightarrow> bool" where
  "tracks m v \<longleftrightarrow> (want_write (cx v) \<longleftrightarrow> (case interest v of Some m' \<Rightarrow> m' | None \<Rightarrow> m) AND EPOLLOUT \<noteq> 0)"

definition same_conn :: "conn_visit \<Rightarrow> conn_visit \<Rightarrow> bool" where
  "same_conn v v' \<longleftrightarrow> fd (cx v') = fd (cx v) \<and> serial (cx v') = serial (cx v)"

lemma length_resize [simp]: "length (resize n xs) = n"
  by (simp add: resize_def)

lemma receive_ok:
  assumes "sized k" and "length xs \<le> length (buffer k) - read_bytes k" and "xs \<noteq> []"
  shows "sized (receive xs k)" and "pending (receive xs k) = pending k @ xs"
    and "fd (receive xs k) = fd k" and "serial (receive xs k) = serial k" and "want_write (receive xs k) = want_write k"
proof -
  let ?r = "read_bytes k + length xs" and ?b = "take (read_bytes k) (buffer k) @ xs @ drop (read_bytes k + length xs) (buffer k)"
  have len: "length ?b = length (buffer k)" "?r \<le> length (buffer k)" "0 < length (buffer k)" using assms by (auto simp: sized_def)
  then show "sized (receive xs k)" using assms(1) by (auto simp: sized_def receive_def Let_def)
  have "take (?r - write_bytes k) (drop (write_bytes k) (?b @ zs)) = pending k @ xs" for zs
    using assms(1,2) by (auto simp: pending_def sized_def drop_take)
  from this [of "[]"] this [of "replicate (length ?b) 0"]
  show "pending (receive xs k) = pending k @ xs"
    using len by (auto simp: pending_def receive_def resize_def Let_def mult_2_right)
qed (simp_all add: receive_def Let_def)

lemma recv_loop_ok:
  assumes "recv_loop rs v = Some v'" and "visit_ok i p v"
  shows "visit_ok i p v' \<and> same_conn v v' \<and> (tracks m v \<longrightarrow> tracks m v') \<and> sent v' = sent v"
  using assms
proof (induction rs v rule: recv_loop.induct)
  case (3 xs rs v)
  show ?case
  proof (cases "xs = []")
    case True
    then show ?thesis using 3 by (auto simp: visit_ok_def same_conn_def tracks_def split: if_splits)
  next
    case False
    then have room: "length xs \<le> length (buffer (cx v)) - read_bytes (cx v)" using 3(2) by (auto split: if_splits)
    note rcv = receive_ok [OF _ room False]
    let ?v = "v\<lparr>cx := receive xs (cx v), got := got v @ xs\<rparr>"
    have "visit_ok i p ?v" using 3(3) rcv(1,2) by (simp add: visit_ok_def)
    moreover have "recv_loop rs ?v = Some v'" using 3(2) False room by simp
    ultimately have "visit_ok i p v' \<and> same_conn ?v v' \<and> (tracks m ?v \<longrightarrow> tracks m v') \<and> sent v' = sent ?v"
      using 3(1) [OF room False] by simp
    then show ?thesis using rcv 3(3) by (simp add: same_conn_def tracks_def visit_ok_def)
  qed
qed (auto simp: visit_ok_def same_conn_def tracks_def)

lemma send_rest_ok:
  assumes "send_rest a v = Some v'" and "visit_ok i p v"
  shows "visit_ok i p v' \<and> same_conn v v' \<and> (tracks m v \<longrightarrow> tracks m v') \<and>
    (waits (cx v) \<longrightarrow> waits (cx v'))"
proof (cases a)
  case (SendBytes n)
  let ?k = "cx v"
  have n: "n \<le> read_bytes ?k - write_bytes ?k" and v': "v' = v\<lparr>cx := ?k\<lparr>write_bytes := write_bytes ?k + n\<rparr>,
      sent := sent v @ take n (drop (write_bytes ?k) (buffer ?k))\<rparr>"
    using assms(1) SendBytes by (auto simp: send_rest_def Let_def split: if_splits)
  have "pending ?k = take n (drop (write_bytes ?k) (buffer ?k)) @ pending (cx v')"
    using slice_split [OF n, of "write_bytes ?k" "buffer ?k"] by (simp add: v' pending_def)
  then show ?thesis using assms(2) n by (auto simp: v' visit_ok_def sized_def same_conn_def tracks_def waits_def)
qed (use assms in \<open>auto simp: send_rest_def visit_ok_def same_conn_def tracks_def\<close>)

lemma pending_empty: "read_bytes k \<le> write_bytes k \<Longrightarrow> pending k = []"
  by (simp add: pending_def)

lemma want_or_reset_ok:
  assumes "visit_ok i p v"
  shows "visit_ok i p (want_or_reset v) \<and> same_conn v (want_or_reset v) \<and> (tracks m v \<longrightarrow> tracks m (want_or_reset v)) \<and>
    waits (cx (want_or_reset v))"
  using assms pending_empty [of "cx v"]
  by (auto simp: want_or_reset_def visit_ok_def sized_def same_conn_def tracks_def waits_def pending_def Let_def epoll_flags)

lemma done_writing_ok:
  assumes "visit_ok i p v"
  shows "visit_ok i p (done_writing v) \<and> same_conn v (done_writing v) \<and> (tracks m v \<longrightarrow> tracks m (done_writing v)) \<and>
    (waits (cx v) \<longrightarrow> waits (cx (done_writing v)))"
  using assms pending_empty [of "cx v"]
  by (auto simp: done_writing_def visit_ok_def sized_def same_conn_def tracks_def waits_def pending_def Let_def epoll_flags)

lemma same_conn_trans [trans]: "same_conn u v \<Longrightarrow> same_conn v w \<Longrightarrow> same_conn u w"
  by (simp add: same_conn_def)

lemma on_readable_ok:
  assumes "on_readable rs a v = Some v'" and "visit_ok i p v"
  shows "visit_ok i p v' \<and> same_conn v v' \<and> (tracks m v \<longrightarrow> tracks m v') \<and> (closing v' \<or> waits (cx v'))"
proof -
  obtain u where u: "recv_loop rs v = Some u" using assms(1) by (auto simp: on_readable_def split: option.splits)
  note rcv = recv_loop_ok [OF u assms(2), of m]
  have "v' = u \<and> (closing u \<or> \<not> write_bytes (cx u) < read_bytes (cx u)) \<or>
      (\<exists>w. send_rest a u = Some w \<and> v' = (if closing w then w else want_or_reset w))"
    using assms(1) u by (auto simp: on_readable_def split: if_splits)
  then show ?thesis
  proof
    assume "\<exists>w. send_rest a u = Some w \<and> v' = (if closing w then w else want_or_reset w)"
    then obtain w where w: "send_rest a u = Some w" "v' = (if closing w then w else want_or_reset w)" by blast
    have snd: "visit_ok i p w \<and> same_conn u w \<and> (tracks m u \<longrightarrow> tracks m w)" using send_rest_ok [OF w(1)] rcv by blast
    then show ?thesis
      using rcv want_or_reset_ok [of i p w m] w(2) by (auto intro: same_conn_trans)
  qed (use rcv in \<open>auto simp: waits_def\<close>)
qed

lemma on_writable_ok:
  assumes "on_writable a v = Some v'" and "visit_ok i p v" and "waits (cx v)"
  shows "visit_ok i p v' \<and> same_conn v v' \<and> (tracks m v \<longrightarrow> tracks m v') \<and> waits (cx v')"
proof -
  obtain u where u: "(if read_bytes (cx v) > write_bytes (cx v) then send_rest a v else Some v) = Some u"
    and v': "v' = (if closing u then u else done_writing u)" using assms(1) by (auto simp: on_writable_def)
  have "visit_ok i p u \<and> same_conn v u \<and> (tracks m v \<longrightarrow> tracks m u) \<and> waits (cx u)"
    using u assms send_rest_ok [of a v u i p m] by (auto simp: same_conn_def split: if_splits)
  then show ?thesis using done_writing_ok [of i p u m] v' by (auto intro: same_conn_trans)
qed

section \<open>Invariants of the reactor\<close>

definition conn_ok :: "reactor \<Rightarrow> int \<Rightarrow> connection_context \<Rightarrow> bool" where
  "conn_ok r c k \<longleftrightarrow> fd k = c \<and> serial k < length (accepted r) \<and> sized k \<and> waits k \<and>
     inb r (serial k) = outb r (serial k) @ pending k \<and>
     (\<forall>m. registered r c = Some m \<longrightarrow> (want_write k \<longleftrightarrow> m AND EPOLLOUT \<noteq> 0))"

definition own_fds :: "reactor \<Rightarrow> int list" where
  "own_fds r = [listen_fd r, epoll_fd r]"

definition fds_ok :: "reactor \<Rightarrow> bool" where
  "fds_ok r \<longleftrightarrow> finite (dom (conns r)) \<and> dom (conns r) \<inter> set (own_fds r) = {} \<and>
     open_fds r = dom (conns r) \<union> (if returned r then {} else set (own_fds r)) \<and>
     dom (registered r) \<subseteq> insert (listen_fd r) (dom (conns r)) \<and>
     mset (closed r) + mset_set (dom (conns r)) = mset (accepted r) + (if returned r then mset (own_fds r) else {#})"

definition batch_ok :: "reactor \<Rightarrow> bool" where
  "batch_ok r \<longleftrightarrow> distinct (map fst (batch r)) \<and> fst ` set (batch r) \<subseteq> insert (listen_fd r) (dom (conns r)) \<and>
     (returned r \<longrightarrow> batch r = [] \<and> \<not> running r)"

definition logs_ok :: "reactor \<Rightarrow> bool" where
  "logs_ok r \<longleftrightarrow> (\<forall>n. prefix (outb r n) (inb r n)) \<and> (\<forall>n \<ge> length (accepted r). inb r n = []) \<and>
     (\<forall>c d k l. conns r c = Some k \<and> conns r d = Some l \<and> serial k = serial l \<longrightarrow> c = d)"

definition reactor_inv :: "reactor \<Rightarrow> bool" where
  "reactor_inv r \<longleftrightarrow> (\<forall>c k. conns r c = Some k \<longrightarrow> conn_ok r c k) \<and> fds_ok r \<and> batch_ok r \<and> logs_ok r"

lemma inv_init: "reactor_inv (reactor_init sock ep added)"
  by (auto simp: reactor_init_def reactor_inv_def fds_ok_def batch_ok_def logs_ok_def own_fds_def split: if_splits)

lemma inv_accept_loop:
  assumes "accept_loop as r = Some r'" and "reactor_inv r" and "\<not> returned r"
  shows "reactor_inv r' \<and> listen_fd r' = listen_fd r"
  using assms
proof (induction as r rule: accept_loop.induct)
  case (2 c added as r)
  have c: "0 \<le> c" "c \<notin> open_fds r" using 2(2) by (auto split: if_splits)
  let ?k = "(ConnectionContext (length (accepted r)) c)\<lparr>buffer := resize 4096 []\<rparr>"
  let ?m = "if added then Some (EPOLLIN OR EPOLLRDHUP OR EPOLLET) else None"
  let ?r = "r\<lparr>conns := (conns r)(c \<mapsto> ?k), registered := (registered r)(c := ?m),
      open_fds := insert c (open_fds r), accepted := accepted r @ [c]\<rparr>"
  have new: "c \<notin> dom (conns r)" "c \<notin> set (own_fds r)" using c 2(3,4) by (auto simp: reactor_inv_def fds_ok_def)
  have old: "conn_ok ?r d l" if "conns r d = Some l" "d \<noteq> c" for d l
  proof -
    have "conn_ok r d l" using 2(3) that by (simp add: reactor_inv_def)
    then show ?thesis using that by (auto simp: conn_ok_def)
  qed
  have logs: "inb r (length (accepted r)) = []" "outb r (length (accepted r)) = []"
    using 2(3) by (auto simp: reactor_inv_def logs_ok_def dest: spec [of _ "length (accepted r)"])
  then have "conn_ok ?r c ?k"
    by (auto simp: conn_ok_def ConnectionContext_def sized_def waits_def pending_def epoll_flags split: if_splits)
  moreover have "fds_ok ?r"
    using 2(3,4) new by (auto simp: reactor_inv_def fds_ok_def own_fds_def)
  moreover have "batch_ok ?r" using 2(3) by (auto simp: reactor_inv_def batch_ok_def)
  moreover have "logs_ok ?r"
  proof -
    have "serial l < length (accepted r)" if "conns r d = Some l" for d l
      using 2(3) that by (auto simp: reactor_inv_def conn_ok_def)
    then show ?thesis
      using 2(3) by (fastforce simp: reactor_inv_def logs_ok_def ConnectionContext_def)
  qed
  ultimately have "reactor_inv ?r" using old by (auto simp: reactor_inv_def)
  moreover have "accept_loop as ?r = Some r'"
    using 2(2) c by (simp add: Let_def ConnectionContext_def)
  ultimately show ?case using 2(1) [OF _ refl] 2(4) c by (simp add: ConnectionContext_def)
qed auto

lemma inv_close:
  assumes inv: "reactor_inv r" and c: "c \<in> dom (conns r)" and batch: "c \<notin> fst ` set (batch r)"
  shows "reactor_inv (close_conn c r)"
proof -
  have "conn_ok (close_conn c r) d k" if "conns r d = Some k" "d \<noteq> c" for d k
  proof -
    have "conn_ok r d k" using inv that(1) by (simp add: reactor_inv_def)
    then show ?thesis using that(2) by (simp add: conn_ok_def close_conn_def)
  qed
  moreover have "fds_ok (close_conn c r)"
  proof -
    have fds: "fds_ok r" using inv by (simp add: reactor_inv_def)
    then have "mset_set (dom (conns r)) = add_mset c (mset_set (dom (conns r) - {c}))"
      using c by (intro mset_set.remove) (simp_all add: fds_ok_def)
    then show ?thesis using fds c by (auto simp: fds_ok_def close_conn_def own_fds_def)
  qed
  moreover have "batch_ok (close_conn c r)" using inv batch by (auto simp: reactor_inv_def batch_ok_def close_conn_def)
  moreover have "logs_ok (close_conn c r)"
    using inv by (auto simp: reactor_inv_def logs_ok_def close_conn_def split: if_splits)
  ultimately show ?thesis by (auto simp: reactor_inv_def close_conn_def split: if_splits)
qed

text \<open>The context, the logs and the interest after a visit.\<close>

lemma inv_visited:
  assumes inv: "reactor_inv r" and k: "conns r c = Some k" and v: "visit_ok (inb r (serial k)) (outb r (serial k)) v"
    and same: "fd (cx v) = fd k" "serial (cx v) = serial k" and waits: "waits (cx v)"
    and m: "dom rg = dom (registered r)" "\<And>d. d \<noteq> c \<Longrightarrow> rg d = registered r d"
      "\<And>m. rg c = Some m \<Longrightarrow> want_write (cx v) \<longleftrightarrow> m AND EPOLLOUT \<noteq> 0"
  shows "reactor_inv (r\<lparr>conns := (conns r)(c \<mapsto> cx v), inb := (inb r)(serial k := inb r (serial k) @ got v),
    outb := (outb r)(serial k := outb r (serial k) @ sent v), registered := rg\<rparr>)" (is "reactor_inv ?r")
proof -
  have ok: "conn_ok r c k" using inv k by (simp add: reactor_inv_def)
  have other: "serial l \<noteq> serial k" if "conns r d = Some l" "d \<noteq> c" for d l
    using inv k that unfolding reactor_inv_def logs_ok_def by blast
  have "conn_ok ?r d l" if "conns r d = Some l" "d \<noteq> c" for d l
  proof -
    have "conn_ok r d l" using inv that(1) by (simp add: reactor_inv_def)
    then show ?thesis using m(2) that(2) other [OF that] by (simp add: conn_ok_def)
  qed
  moreover have "conn_ok ?r c (cx v)" using ok v same waits m(3) by (auto simp: conn_ok_def visit_ok_def)
  moreover have "insert c (dom (conns r)) = dom (conns r)" using k by auto
  then have "fds_ok ?r" "batch_ok ?r"
    using inv m(1) by (simp_all add: reactor_inv_def fds_ok_def batch_ok_def own_fds_def)
  moreover have "logs_ok ?r"
  proof -
    have "logs_ok r" "serial k < length (accepted r)" "prefix (outb r (serial k) @ sent v) (inb r (serial k) @ got v)"
      using inv ok v by (simp_all add: reactor_inv_def conn_ok_def visit_ok_def)
    then show ?thesis using k same other by (auto simp: logs_ok_def split: if_splits)
  qed
  ultimately show ?thesis by (auto simp: reactor_inv_def)
qed

lemma inv_leave:
  assumes inv: "reactor_inv r" and k: "conns r c = Some k" and batch: "c \<notin> fst ` set (batch r)"
    and v: "visit_ok (inb r (serial k)) (outb r (serial k)) v" "fd (cx v) = fd k" "serial (cx v) = serial k"
    and ends: "closing v \<or> waits (cx v)" and m: "\<And>m. registered r c = Some m \<Longrightarrow> tracks m v"
  shows "reactor_inv (leave c v r)"
proof (cases "closing v")
  case True
  let ?v = "v\<lparr>cx := (cx v)\<lparr>want_write := True\<rparr>\<rparr>" and ?rg = "(registered r)(c := map_option (\<lambda>_. EPOLLOUT) (registered r c))"
  let ?r = "r\<lparr>conns := (conns r)(c \<mapsto> cx ?v), inb := (inb r)(serial k := inb r (serial k) @ got ?v),
    outb := (outb r)(serial k := outb r (serial k) @ sent ?v), registered := ?rg\<rparr>"
  have "reactor_inv ?r"
    by (rule inv_visited [OF inv k])
      (use v in \<open>auto simp: visit_ok_def sized_def pending_def waits_def epoll_flags split: if_splits\<close>)
  then have "reactor_inv (close_conn c ?r)" using k batch by (intro inv_close) auto
  then show ?thesis using True v(3) by (simp add: leave_def close_conn_def Let_def)
next
  case False
  let ?rg = "case interest v of Some m' \<Rightarrow> if registered r c \<noteq> None then (registered r)(c \<mapsto> m') else registered r | None \<Rightarrow> registered r"
  have "reactor_inv (r\<lparr>conns := (conns r)(c \<mapsto> cx v), inb := (inb r)(serial k := inb r (serial k) @ got v),
    outb := (outb r)(serial k := outb r (serial k) @ sent v), registered := ?rg\<rparr>)"
  proof (rule inv_visited [OF inv k v])
    show "waits (cx v)" using ends False by simp
    show "dom ?rg = dom (registered r)" by (auto split: option.splits if_splits)
    show "?rg d = registered r d" if "d \<noteq> c" for d using that by (simp split: option.splits)
    show "want_write (cx v) \<longleftrightarrow> m' AND EPOLLOUT \<noteq> 0" if "?rg c = Some m'" for m'
      using that m by (auto simp: tracks_def split: option.splits if_splits)
  qed
  then show ?thesis using False v(3) by (auto simp: leave_def Let_def split: option.splits)
qed

lemma inv_handle_conn:
  assumes inv: "reactor_inv r" and k: "conns r c = Some k" and batch: "c \<notin> fst ` set (batch r)"
    and step: "handle_conn c revents z r = Some r'"
  shows "reactor_inv r'"
proof (cases "revents AND (EPOLLERR OR EPOLLHUP OR EPOLLRDHUP) \<noteq> 0")
  case True
  then show ?thesis using step inv_close [OF inv _ batch] k by (auto simp: handle_conn_def)
next
  case False
  let ?v = "\<lparr>cx = k, got = [], sent = [], interest = None, closing = False\<rparr>"
  let ?i = "inb r (serial k)" and ?p = "outb r (serial k)"
  have ok: "conn_ok r c k" using inv k by (simp add: reactor_inv_def)
  then have v: "visit_ok ?i ?p ?v" "waits (cx ?v)" "\<And>m. registered r c = Some m \<Longrightarrow> tracks m ?v"
    by (auto simp: conn_ok_def visit_ok_def tracks_def)
  obtain u where u: "(if revents AND EPOLLIN \<noteq> 0 then on_readable (recvs z) (send_in z) ?v else Some ?v) = Some u"
    and r': "if closing u \<or> revents AND EPOLLOUT = 0 then r' = leave c u r
      else \<exists>w. on_writable (send_out z) u = Some w \<and> r' = leave c w r"
    using step False k by (auto simp: handle_conn_def conn_at_def Let_def split: option.splits if_splits)
  have ok_u: "visit_ok ?i ?p u \<and> same_conn ?v u \<and> (tracks m ?v \<longrightarrow> tracks m u) \<and> (closing u \<or> waits (cx u))" for m
    using u v(1,2) on_readable_ok [of "recvs z" "send_in z" ?v u ?i ?p m] by (auto simp: same_conn_def split: if_splits)
  show ?thesis
  proof (cases "closing u \<or> revents AND EPOLLOUT = 0")
    case True
    then show ?thesis using r' ok_u v(3) inv_leave [OF inv k batch, of u] by (simp add: same_conn_def)
  next
    case False
    then obtain w where w: "on_writable (send_out z) u = Some w" "r' = leave c w r" using r' by auto
    have "visit_ok ?i ?p w \<and> same_conn u w \<and> (tracks m u \<longrightarrow> tracks m w) \<and> waits (cx w)" for m
      using on_writable_ok [OF w(1)] ok_u False by blast
    then show ?thesis using w ok_u v(3) inv_leave [OF inv k batch, of w] by (simp add: same_conn_def)
  qed
qed

lemma frame_parts [simp]:
  "conn_ok (r\<lparr>batch := b\<rparr>) = conn_ok r" "fds_ok (r\<lparr>batch := b\<rparr>) = fds_ok r" "logs_ok (r\<lparr>batch := b\<rparr>) = logs_ok r"
  "conn_ok (r\<lparr>running := x\<rparr>) = conn_ok r" "fds_ok (r\<lparr>running := x\<rparr>) = fds_ok r" "logs_ok (r\<lparr>running := x\<rparr>) = logs_ok r"
  by (simp_all add: conn_ok_def fds_ok_def logs_ok_def own_fds_def fun_eq_iff)

lemma inv_wait:
  assumes "reactor_inv r" and "reactor_step (EpollWait es) r = Some r'"
  shows "reactor_inv r'"
proof -
  have "fst ` set es \<subseteq> dom (registered r)" using assms(2) by (auto simp: list_all_iff split: if_splits)
  also have "\<dots> \<subseteq> insert (listen_fd r) (dom (conns r))" using assms(1) by (simp add: reactor_inv_def fds_ok_def)
  finally have "fst ` set es \<subseteq> insert (listen_fd r) (dom (conns r))" .
  moreover have "r' = r\<lparr>batch := es\<rparr>" "distinct (map fst es)" "\<not> returned r" using assms(2) by (simp_all split: if_splits)
  ultimately show ?thesis using assms(1) by (simp add: reactor_inv_def batch_ok_def)
qed

lemma inv_event:
  assumes inv: "reactor_inv r" and step: "reactor_step (Event z) r = Some r'"
  shows "reactor_inv r'"
proof -
  obtain c revents es where b: "batch r = (c, revents) # es" and h: "handle_event (c, revents) z (r\<lparr>batch := es\<rparr>) = Some r'"
    using step by (auto split: list.splits)
  let ?r = "r\<lparr>batch := es\<rparr>"
  have inv': "reactor_inv ?r" using inv b by (simp add: reactor_inv_def batch_ok_def)
  have c: "c \<notin> fst ` set (batch ?r)" "c = listen_fd r \<or> c \<in> dom (conns r)" "\<not> returned r"
    using inv b by (auto simp: reactor_inv_def batch_ok_def)
  show ?thesis
  proof (cases "c = listen_fd r")
    case True
    then show ?thesis using h inv_accept_loop [of "accepts z" ?r r'] inv' c(3) by (simp add: handle_event_def)
  next
    case False
    then show ?thesis using h c inv_handle_conn [OF inv', of c _ revents z r'] by (auto simp: handle_event_def)
  qed
qed

lemma inv_return:
  assumes inv: "reactor_inv r" and step: "reactor_step Leave r = Some r'"
  shows "reactor_inv r'"
proof -
  have r': "r' = r\<lparr>returned := True, open_fds := open_fds r - set (own_fds r), closed := closed r @ own_fds r\<rparr>"
    and r: "\<not> running r" "batch r = []" "\<not> returned r" using step by (auto simp: own_fds_def split: if_splits)
  have "dom (conns r) - set (own_fds r) = dom (conns r)" using inv by (auto simp: reactor_inv_def fds_ok_def)
  then have "fds_ok r'" using inv r(3) by (simp add: reactor_inv_def fds_ok_def r' Un_Diff) (simp add: own_fds_def)
  moreover have "conn_ok r' = conn_ok r" "logs_ok r' = logs_ok r" by (simp_all add: r' conn_ok_def logs_ok_def fun_eq_iff)
  ultimately show ?thesis using inv r by (simp add: reactor_inv_def batch_ok_def r')
qed

lemma inv_reactor_step: "reactor_inv r \<Longrightarrow> reactor_step a r = Some r' \<Longrightarrow> reactor_inv r'"
proof (cases a)
  case StopFlag
  then show "reactor_inv r \<Longrightarrow> reactor_step a r = Some r' \<Longrightarrow> reactor_inv r'"
    by (simp add: reactor_inv_def batch_ok_def) (elim conjE, hypsubst, simp)
qed (use inv_wait inv_event inv_return in blast)+

text \<open>The logs only grow.\<close>

lemma grows_accept: "accept_loop as r = Some r' \<Longrightarrow> inb r' = inb r \<and> outb r' = outb r"
  by (induction as r rule: accept_loop.induct) (auto simp: Let_def split: if_splits)

lemma grows_leave: "prefix (inb r n) (inb (leave c v r) n) \<and> prefix (outb r n) (outb (leave c v r) n)"
  by (auto simp: leave_def close_conn_def Let_def split: option.splits)

lemma grows_conn: "handle_conn c revents z r = Some r' \<Longrightarrow> prefix (inb r n) (inb r' n) \<and> prefix (outb r n) (outb r' n)"
  using grows_leave by (auto simp: handle_conn_def Let_def close_conn_def split: if_splits option.splits)

lemma grows_step: "reactor_step a r = Some r' \<Longrightarrow> prefix (inb r n) (inb r' n) \<and> prefix (outb r n) (outb r' n)"
proof (cases a)
  case (Event z)
  moreover assume "reactor_step a r = Some r'"
  ultimately obtain e es where "handle_event e z (r\<lparr>batch := es\<rparr>) = Some r'" by (auto split: list.splits)
  then show ?thesis
    using grows_conn [of "fst e" "snd e" z "r\<lparr>batch := es\<rparr>" r' n] grows_accept [of "accepts z" "r\<lparr>batch := es\<rparr>" r']
    by (auto simp: handle_event_def split: if_splits prod.splits)
qed (auto split: if_splits)

interpretation epoll: echo_service "reactor_init sock ep added" reactor_step reactor_inv inb outb for sock ep added
proof unfold_locales
  show "reactor_inv (reactor_init sock ep added)" by (rule inv_init)
  fix a r r' c
  assume inv: "reactor_inv r"
  then show "prefix (outb r c) (inb r c)" by (simp add: reactor_inv_def logs_ok_def)
  assume step: "reactor_step a r = Some r'"
  then show "prefix (inb r c) (inb r' c) \<and> prefix (outb r c) (outb r' c)" by (rule grows_step)
  show "reactor_inv r'" using inv step by (rule inv_reactor_step)
qed

lemma epoll_inv:
  assumes "reactor_start sock bnd lsn ep added = Inr r0" and "exec reactor_step as r0 = Some r"
  shows "reactor_inv r"
proof -
  have "r0 = reactor_init sock ep added" using assms(1) by (auto simp: reactor_start_def listen_setup_def split: if_splits)
  then show ?thesis using epoll.inv_reach [OF exec_reach] assms(2) by blast
qed

section \<open>Executions\<close>

text \<open>A client sends a byte; the server reads it, and sends it back or finds no room for it.\<close>

definition no_answers :: answers where
  "no_answers = \<lparr>accepts = [AcceptFail], recvs = [RecvAgain], send_in = SendAgain, send_out = SendAgain\<rparr>"

definition one_byte :: "u8 \<Rightarrow> send_answer \<Rightarrow> reactor_action list" where
  "one_byte x a =
     [EpollWait [(3, EPOLLIN)], Event (no_answers\<lparr>accepts := [AcceptFd 5 True, AcceptFail]\<rparr>),
      EpollWait [(5, EPOLLIN)], Event (no_answers\<lparr>recvs := [RecvBytes [x], RecvAgain], send_in := a\<rparr>)]"

lemmas epoll_eval = one_byte_def no_answers_def reactor_init_def handle_event_def handle_conn_def conn_at_def
  ConnectionContext_def on_readable_def receive_def send_rest_def want_or_reset_def leave_def close_conn_def
  on_writable_def done_writing_def resize_def epoll_flags Let_def

lemma one_byte_run:
  "\<exists>r. exec reactor_step (one_byte x (SendBytes 1)) (reactor_init 3 4 True) = Some r \<and> inb r 0 = [x] \<and> outb r 0 = [x] \<and>
     (\<exists>k. conns r 5 = Some k) \<and> closed r = [] \<and> accepted r = [5]"
  by (simp add: epoll_eval)

lemma start_run: "reactor_start 3 0 0 4 True = Inr (reactor_init 3 4 True)"
  by (simp add: reactor_start_def listen_setup_def)

section \<open>Properties\<close>

text \<open>
  C29. The epoll server sends back exactly what it receives: in every execution, on every connection, the bytes sent are
  a prefix of the bytes received, nothing sent is ever revoked, and on an open connection the rest is in the
  buffer between \<open>write_bytes\<close> and \<open>read_bytes\<close>.
\<close>

theorem epoll_echoes:
  assumes "reactor_start sock bnd lsn ep added = Inr r0" and "exec reactor_step as r0 = Some r" and "exec reactor_step bs r = Some r'"
  shows "(\<forall>n. prefix (outb r n) (outb r' n) \<and> prefix (outb r' n) (inb r' n)) \<and>
    (\<forall>c k. conns r' c = Some k \<longrightarrow>
       inb r' (serial k) = outb r' (serial k) @ take (read_bytes k - write_bytes k) (drop (write_bytes k) (buffer k)))"
proof -
  have r0: "r0 = reactor_init sock ep added" using assms(1) by (auto simp: reactor_start_def listen_setup_def split: if_splits)
  have "reactor_inv r'" using epoll.grows_exec [OF epoll_inv [OF assms(1,2)] assms(3)] by blast
  then show ?thesis
    using epoll.echoes [OF assms(2) [unfolded r0] assms(3)] by (auto simp: reactor_inv_def conn_ok_def pending_def)
qed

theorem epoll_echoes_witness:
  "\<exists>r. exec reactor_step (one_byte 65 (SendBytes 1)) (reactor_init 3 4 True) = Some r \<and> inb r 0 = [65] \<and>
     prefix (outb r 0) (inb r 0)"
proof -
  obtain r where r: "exec reactor_step (one_byte 65 (SendBytes 1)) (reactor_init 3 4 True) = Some r" "inb r 0 = [65]"
    using one_byte_run by blast
  have "exec reactor_step [] r = Some r" by simp
  from epoll_echoes [OF start_run r(1) this] r show ?thesis by blast
qed

text \<open>
  C30. The rules of edge-triggered notification are kept: a visit that leaves the connection open has read until \<open>EAGAIN\<close>;
  every \<open>recv\<close> asks for at least one byte inside the buffer, so that 0 means the end of the stream; and output that is
  pending is waited for, with \<open>EPOLLOUT\<close> in the registered interest.
\<close>

theorem epoll_edge_triggered:
  assumes "reactor_start sock bnd lsn ep added = Inr r0" and "exec reactor_step as r0 = Some r" and "conns r c = Some k"
  shows "read_bytes k < length (buffer k) \<and>
    (\<forall>xs. xs \<noteq> [] \<and> length xs \<le> length (buffer k) - read_bytes k \<longrightarrow>
       read_bytes (receive xs k) < length (buffer (receive xs k))) \<and>
    (\<forall>rs v v'. recv_loop rs v = Some v' \<and> \<not> closing v' \<longrightarrow> last rs = RecvAgain) \<and>
    (write_bytes k < read_bytes k \<longrightarrow> want_write k) \<and>
    (\<forall>m. registered r c = Some m \<longrightarrow> (want_write k \<longleftrightarrow> m AND EPOLLOUT \<noteq> 0))"
proof -
  have "conn_ok r c k" using epoll_inv [OF assms(1,2)] assms(3) by (simp add: reactor_inv_def)
  moreover have "last rs = RecvAgain" if "recv_loop rs v = Some v'" "\<not> closing v'" for rs v v'
    using that by (induction rs v rule: recv_loop.induct) (auto split: if_splits)
  ultimately show ?thesis using receive_ok(1) by (auto simp: conn_ok_def sized_def waits_def)
qed

theorem epoll_edge_triggered_witness:
  "\<exists>r k. exec reactor_step (one_byte 65 SendAgain) (reactor_init 3 4 True) = Some r \<and> conns r 5 = Some k \<and>
     write_bytes k < read_bytes k \<and> want_write k"
proof -
  obtain r k where r: "exec reactor_step (one_byte 65 SendAgain) (reactor_init 3 4 True) = Some r" "conns r 5 = Some k"
    "write_bytes k < read_bytes k"
    by (simp add: epoll_eval)
  from epoll_edge_triggered [OF start_run r(1,2)] r show ?thesis by blast
qed

text \<open>
  Descriptors: every event is for the listening descriptor or for a connection in the map, so that \<open>conns[fd]\<close> never makes a
  context of its own; the open descriptors are those of the live connections and the two of the reactor; every accepted
  descriptor is closed once or belongs to a live connection. When the reactor has returned, its own two are closed, and
  those of the live connections are not.
\<close>

lemma epoll_descriptors:
  assumes "reactor_start sock bnd lsn ep added = Inr r0" and "exec reactor_step as r0 = Some r"
  shows "fst ` set (batch r) \<subseteq> insert (listen_fd r) (dom (conns r)) \<and>
    open_fds r = dom (conns r) \<union> (if returned r then {} else {listen_fd r, epoll_fd r}) \<and>
    mset (closed r) + mset_set (dom (conns r)) =
      mset (accepted r) + (if returned r then {#listen_fd r, epoll_fd r#} else {#})"
proof -
  have "fds_ok r" "batch_ok r" using epoll_inv [OF assms] by (simp_all add: reactor_inv_def)
  then show ?thesis by (simp add: fds_ok_def batch_ok_def own_fds_def)
qed


end
