(* ===== verification/Session_Servers.thy ===== *)
theory Session_Servers
  imports Echo_Contract Io_Callback
begin

text \<open>
  The echo servers that have one flow of control per client: \<open>src/benchmarks/server_thread_per_connection.cpp\<close>, with
  threads and blocking calls, and \<open>src/benchmarks/server_coroutine.cpp\<close>, with coroutines that await the senders of the
  \<open>io_context\<close>. The body of a session is the same loop; what differs is how the result of a call comes back.
  The task type of \<open>stdexec\<close> is the parameter \<open>await\<close>, from the signal of the awaited sender to what the coroutine does.
\<close>

section \<open>A session\<close>

datatype session_pc =
    Receiving   \<comment> \<open>in \<open>recv\<close>\<close>
  | Sending     \<comment> \<open>in \<open>send\<close>\<close>
  | Ended       \<comment> \<open>after \<open>close(client_fd)\<close>\<close>
  | Unwound     \<comment> \<open>the coroutine has been left by an exception or by a stop\<close>

text \<open>
  \<open>closes\<close> counts the calls of \<open>close\<close>, so that the kernel knows which descriptors are open; \<open>s_in\<close> and \<open>s_out\<close> are logs, the
  bytes received and sent.
\<close>

record session =
  spc :: session_pc
  s_fd :: int
  sbuf :: "u8 list"
  bytes_to_send :: nat
  bytes_sent :: nat
  closes :: nat
  s_in :: "u8 list"
  s_out :: "u8 list"

definition end_session :: "session \<Rightarrow> session" where
  "end_session k = k\<lparr>spc := Ended, closes := closes k + 1\<rparr>"

text \<open>The head of the outer loop, with its condition.\<close>

definition loop_head :: "bool \<Rightarrow> session \<Rightarrow> session" where
  "loop_head go k = (if go then k\<lparr>spc := Receiving\<rparr> else end_session k)"

definition new_session :: "bool \<Rightarrow> int \<Rightarrow> session" where
  "new_session go client_fd =
     loop_head go \<lparr>spc = Receiving, s_fd = client_fd, sbuf = replicate 4096 0, bytes_to_send = 0, bytes_sent = 0,
       closes = 0, s_in = [], s_out = []\<rparr>"

text \<open>\<open>recv\<close> into the buffer has returned \<open>n\<close>, with the bytes \<open>xs\<close> if it is positive.\<close>

definition session_recv :: "int \<Rightarrow> u8 list \<Rightarrow> session \<Rightarrow> session option" where
  "session_recv n xs k =
     (if spc k = Receiving \<and> length xs = nat n \<and> length xs \<le> length (sbuf k)
      then Some (if n \<le> 0 then end_session k
        else k\<lparr>spc := Sending, sbuf := xs @ drop (length xs) (sbuf k), bytes_to_send := nat n, bytes_sent := 0, s_in := s_in k @ xs\<rparr>)
      else None)"

text \<open>\<open>send\<close> of the rest has returned \<open>n\<close>; \<open>go\<close> is the condition of the outer loop.\<close>

definition session_send :: "bool \<Rightarrow> int \<Rightarrow> session \<Rightarrow> session option" where
  "session_send go n k =
     (if spc k = Sending \<and> nat n \<le> bytes_to_send k - bytes_sent k
      then Some (if n \<le> 0 then end_session k
        else
          (let k = k\<lparr>bytes_sent := bytes_sent k + nat n, s_out := s_out k @ take (nat n) (drop (bytes_sent k) (sbuf k))\<rparr> in
           if bytes_sent k < bytes_to_send k then k else loop_head go k))
      else None)"

definition session_ok :: "session \<Rightarrow> bool" where
  "session_ok k \<longleftrightarrow> length (sbuf k) = 4096 \<and> prefix (s_out k) (s_in k) \<and> closes k = (if spc k = Ended then 1 else 0) \<and>
     (spc k = Receiving \<longrightarrow> s_in k = s_out k) \<and>
     (spc k = Sending \<longrightarrow> bytes_sent k < bytes_to_send k \<and> bytes_to_send k \<le> 4096 \<and>
        s_in k = s_out k @ take (bytes_to_send k - bytes_sent k) (drop (bytes_sent k) (sbuf k)))"

lemma new_session_ok: "session_ok (new_session go c)"
  by (simp add: new_session_def loop_head_def end_session_def session_ok_def)

text \<open>What every step of a session keeps.\<close>

definition session_moves :: "session \<Rightarrow> session \<Rightarrow> bool" where
  "session_moves k k' \<longleftrightarrow> session_ok k' \<and> s_fd k' = s_fd k \<and> prefix (s_in k) (s_in k') \<and> prefix (s_out k) (s_out k') \<and>
     spc k \<in> {Receiving, Sending}"

lemma session_recv_moves:
  assumes "session_recv n xs k = Some k'" and "session_ok k"
  shows "session_moves k k'"
  using assms by (auto simp: session_recv_def session_moves_def session_ok_def end_session_def split: if_splits)

lemma session_send_moves:
  assumes step: "session_send go n k = Some k'" and ok: "session_ok k"
  shows "session_moves k k'"
proof (cases "n \<le> 0")
  case True
  then show ?thesis using assms by (auto simp: session_send_def session_moves_def session_ok_def end_session_def split: if_splits)
next
  case False
  let ?rest = "bytes_to_send k - bytes_sent k" and ?data = "drop (bytes_sent k) (sbuf k)"
  have pc: "spc k = Sending" and n: "nat n \<le> ?rest" using step by (auto simp: session_send_def split: if_splits)
  have eq: "s_in k = (s_out k @ take (nat n) ?data) @ take (bytes_to_send k - (bytes_sent k + nat n)) (drop (bytes_sent k + nat n) (sbuf k))"
    using ok pc slice_split [OF n, of "bytes_sent k" "sbuf k"] by (simp add: session_ok_def)
  let ?k = "k\<lparr>bytes_sent := bytes_sent k + nat n, s_out := s_out k @ take (nat n) ?data\<rparr>"
  have k': "k' = (if bytes_sent k + nat n < bytes_to_send k then ?k else loop_head go ?k)"
    using step pc n False by (simp add: session_send_def Let_def)
  have k: "length (sbuf k) = 4096" "closes k = 0" "bytes_to_send k \<le> 4096" using ok pc by (simp_all add: session_ok_def)
  show ?thesis
  proof (cases "bytes_sent k + nat n < bytes_to_send k")
    case True
    then show ?thesis unfolding k' session_moves_def session_ok_def using k pc eq by simp
  next
    case False
    then have "s_in k = s_out k @ take (nat n) ?data" using eq by simp
    then show ?thesis
      unfolding k' session_moves_def session_ok_def using False k pc by (simp add: loop_head_def end_session_def)
  qed
qed

section \<open>Sessions of a server\<close>

text \<open>The descriptors of sessions that have not been closed.\<close>

definition open_sessions :: "session list \<Rightarrow> int list" where
  "open_sessions ks = map s_fd (filter (\<lambda>k. closes k = 0) ks)"

text \<open>The kernel gives a descriptor that is not open.\<close>

definition fresh_fd :: "int \<Rightarrow> int \<Rightarrow> session list \<Rightarrow> bool" where
  "fresh_fd c listen_fd ks \<longleftrightarrow> 0 \<le> c \<and> c \<noteq> listen_fd \<and> c \<notin> set (open_sessions ks)"

definition sessions_ok :: "int \<Rightarrow> session list \<Rightarrow> bool" where
  "sessions_ok listen_fd ks \<longleftrightarrow> list_all session_ok ks \<and> distinct (open_sessions ks) \<and> listen_fd \<notin> set (open_sessions ks)"

lemma sessions_ok_new: "sessions_ok l ks \<Longrightarrow> fresh_fd c l ks \<Longrightarrow> sessions_ok l (ks @ [new_session go c])"
  using new_session_ok [of go c]
  by (auto simp: sessions_ok_def open_sessions_def fresh_fd_def new_session_def loop_head_def end_session_def)

lemma open_sessions_update:
  assumes "i < length ks" and "s_fd k' = s_fd (ks ! i)" and "closes (ks ! i) = 0"
  shows "set (open_sessions (ks[i := k'])) \<subseteq> set (open_sessions ks) \<and>
    (distinct (open_sessions ks) \<longrightarrow> distinct (open_sessions (ks[i := k'])))"
proof -
  have ks: "ks = take i ks @ ks ! i # drop (Suc i) ks" using assms(1) by (rule id_take_nth_drop)
  have "ks[i := k'] = take i ks @ k' # drop (Suc i) ks" using assms(1) by (rule upd_conv_take_nth_drop)
  moreover have "open_sessions ks = open_sessions (take i ks) @ s_fd (ks ! i) # open_sessions (drop (Suc i) ks)"
    using assms(3) by (subst ks) (simp add: open_sessions_def)
  ultimately show ?thesis using assms(2) by (auto simp: open_sessions_def)
qed

lemma sessions_ok_update:
  assumes ok: "sessions_ok l ks" and i: "i < length ks" and moves: "session_moves (ks ! i) k'"
  shows "sessions_ok l (ks[i := k'])"
proof -
  have "session_ok (ks ! i)" using ok i by (simp add: sessions_ok_def list_all_length)
  then have "closes (ks ! i) = 0" using moves by (auto simp: session_ok_def session_moves_def)
  then have "set (open_sessions (ks[i := k'])) \<subseteq> set (open_sessions ks)" "distinct (open_sessions (ks[i := k']))"
    using open_sessions_update [OF i _ , of k'] moves ok by (auto simp: session_moves_def sessions_ok_def)
  moreover have "list_all session_ok (ks[i := k'])"
    using ok moves by (auto simp: sessions_ok_def list_all_length nth_update_cases session_moves_def)
  ultimately show ?thesis using ok by (auto simp: sessions_ok_def)
qed

definition bytes_in :: "session list \<Rightarrow> nat \<Rightarrow> u8 list" where
  "bytes_in ks c = (if c < length ks then s_in (ks ! c) else [])"

definition bytes_out :: "session list \<Rightarrow> nat \<Rightarrow> u8 list" where
  "bytes_out ks c = (if c < length ks then s_out (ks ! c) else [])"

lemma sessions_echo: "sessions_ok l ks \<Longrightarrow> prefix (bytes_out ks c) (bytes_in ks c)"
  by (simp add: sessions_ok_def bytes_in_def bytes_out_def list_all_length session_ok_def)

lemma bytes_new: "bytes_in (ks @ [new_session go c]) = bytes_in ks" "bytes_out (ks @ [new_session go c]) = bytes_out ks"
  by (auto simp: bytes_in_def bytes_out_def nth_append new_session_def loop_head_def end_session_def fun_eq_iff less_Suc_eq)

lemma bytes_update:
  "i < length ks \<Longrightarrow> session_moves (ks ! i) k' \<Longrightarrow>
    prefix (bytes_in ks c) (bytes_in (ks[i := k']) c) \<and> prefix (bytes_out ks c) (bytes_out (ks[i := k']) c)"
  by (auto simp: bytes_in_def bytes_out_def nth_update_cases session_moves_def)

section \<open>Threads\<close>

text \<open>
  \<open>handle_client\<close>: the results of its blocking calls, one after the other. The timeouts make a call return \<open>-1\<close>.
\<close>

datatype client_event = Received int "u8 list" | Sent int

fun handle_client :: "client_event \<Rightarrow> session \<Rightarrow> session option" where
  "handle_client (Received n xs) k = session_recv n xs k"
| "handle_client (Sent n) k = session_send True n k"

text \<open>
  \<open>main\<close> from its accept loop on: it returns after the first accept that fails, and then the process ends and the threads with it.
\<close>

record thread_server =
  ts_listen :: int
  ts_sessions :: "session list"
  ts_returned :: bool

datatype thread_action = TsAccept int | TsSession nat client_event

fun thread_step :: "thread_action \<Rightarrow> thread_server \<Rightarrow> thread_server option" where
  "thread_step (TsAccept client_fd) s =
     (if ts_returned s then None
      else if client_fd \<ge> 0
      then (if fresh_fd client_fd (ts_listen s) (ts_sessions s)
            then Some (s\<lparr>ts_sessions := ts_sessions s @ [new_session True client_fd]\<rparr>) else None)
      else Some (s\<lparr>ts_returned := True\<rparr>))"
| "thread_step (TsSession i e) s =
     (if \<not> ts_returned s \<and> i < length (ts_sessions s)
      then map_option (\<lambda>k. s\<lparr>ts_sessions := (ts_sessions s)[i := k]\<rparr>) (handle_client e (ts_sessions s ! i))
      else None)"

definition thread_init :: "int \<Rightarrow> thread_server" where
  "thread_init l = \<lparr>ts_listen = l, ts_sessions = [], ts_returned = False\<rparr>"

definition thread_start :: "int \<Rightarrow> int \<Rightarrow> int \<Rightarrow> int list + thread_server" where
  "thread_start sock bnd lsn =
     (case listen_setup sock bnd lsn of Inl closed \<Rightarrow> Inl closed | Inr listen_fd \<Rightarrow> Inr (thread_init listen_fd))"

definition thread_inv :: "thread_server \<Rightarrow> bool" where
  "thread_inv s \<longleftrightarrow> sessions_ok (ts_listen s) (ts_sessions s)"

lemma handle_client_moves: "handle_client e k = Some k' \<Longrightarrow> session_ok k \<Longrightarrow> session_moves k k'"
  by (cases e) (auto intro: session_recv_moves session_send_moves)

lemma thread_step_cases:
  assumes "thread_step a s = Some t" and "thread_inv s"
  shows "ts_sessions t = ts_sessions s \<or>
    (\<exists>c. fresh_fd c (ts_listen s) (ts_sessions s) \<and> ts_sessions t = ts_sessions s @ [new_session True c]) \<or>
    (\<exists>i k'. i < length (ts_sessions s) \<and> session_moves (ts_sessions s ! i) k' \<and> ts_sessions t = (ts_sessions s)[i := k'])"
    and "ts_listen t = ts_listen s"
  using assms by (cases a; auto simp: thread_inv_def sessions_ok_def list_all_length split: if_splits dest!: handle_client_moves)+

interpretation threads: echo_service "thread_init l" thread_step thread_inv "bytes_in \<circ> ts_sessions" "bytes_out \<circ> ts_sessions" for l
proof unfold_locales
  show "thread_inv (thread_init l)" by (simp add: thread_inv_def thread_init_def sessions_ok_def open_sessions_def)
  fix a s t c
  assume inv: "thread_inv s"
  then show "prefix ((bytes_out \<circ> ts_sessions) s c) ((bytes_in \<circ> ts_sessions) s c)" by (simp add: thread_inv_def sessions_echo)
  assume "thread_step a s = Some t"
  note step = thread_step_cases [OF this inv]
  show "thread_inv t"
    using step inv sessions_ok_new sessions_ok_update by (auto simp: thread_inv_def)
  show "prefix ((bytes_in \<circ> ts_sessions) s c) ((bytes_in \<circ> ts_sessions) t c) \<and>
      prefix ((bytes_out \<circ> ts_sessions) s c) ((bytes_out \<circ> ts_sessions) t c)"
    using step bytes_update by (auto simp: bytes_new)
qed

section \<open>Coroutines\<close>

text \<open>
  \<open>co_await\<close> of a sender: the coroutine goes on with a value, or it is left without running the rest of its body. The
  second is what an exception without a handler and an unhandled stop do.
\<close>

datatype resumption = Resumed io_result | Unwinds

type_synonym await = "completion \<Rightarrow> resumption"

definition awaits_values :: "await \<Rightarrow> bool" where
  "awaits_values await \<longleftrightarrow> (\<forall>v. await (SetValue v) = Resumed v) \<and> (\<forall>e. await (SetError e) = Unwinds) \<and> await SetStopped = Unwinds"

datatype co_event = CoRecv io_result "u8 list" | CoSend io_result

definition unwind :: "session \<Rightarrow> session" where
  "unwind k = k\<lparr>spc := Unwound\<rparr>"

text \<open>\<open>handle_session\<close>; \<open>go\<close> is the value of \<open>running_\<close>.\<close>

fun handle_session :: "await \<Rightarrow> bool \<Rightarrow> co_event \<Rightarrow> session \<Rightarrow> session option" where
  "handle_session await go (CoRecv z xs) k =
     (case await (make_io_callback z) of
        Resumed v \<Rightarrow> session_recv (res v) xs k
      | Unwinds \<Rightarrow> if spc k = Receiving then Some (unwind k) else None)"
| "handle_session await go (CoSend z) k =
     (case await (make_io_callback z) of
        Resumed v \<Rightarrow> session_send go (res v) k
      | Unwinds \<Rightarrow> if spc k = Sending then Some (unwind k) else None)"

text \<open>One server thread: the coroutine \<open>accept_loop\<close> and the sessions it has started; another thread may clear \<open>running_\<close>.\<close>

record co_server =
  co_running :: bool
  co_listen :: int
  co_accepting :: bool
  co_sessions :: "session list"

datatype co_action = CoAccept io_result | CoSession nat co_event | CoStop

fun co_step :: "await \<Rightarrow> co_action \<Rightarrow> co_server \<Rightarrow> co_server option" where
  "co_step await (CoAccept z) s =
     (if \<not> co_accepting s then None
      else
        (case await (make_io_callback z) of
           Unwinds \<Rightarrow> Some (s\<lparr>co_accepting := False\<rparr>)
         | Resumed v \<Rightarrow>
             if res v \<ge> 0
             then (if fresh_fd (res v) (co_listen s) (co_sessions s)
                   then Some (s\<lparr>co_sessions := co_sessions s @ [new_session (co_running s) (res v)], co_accepting := co_running s\<rparr>)
                   else None)
             else if res v = - ECANCELED then Some (s\<lparr>co_accepting := False\<rparr>)
             else Some (s\<lparr>co_accepting := co_running s\<rparr>)))"
| "co_step await (CoSession i e) s =
     (if i < length (co_sessions s)
      then map_option (\<lambda>k. s\<lparr>co_sessions := (co_sessions s)[i := k]\<rparr>)
        (handle_session await (co_running s) e (co_sessions s ! i))
      else None)"
| "co_step await CoStop s = Some (s\<lparr>co_running := False\<rparr>)"

definition co_init :: "bool \<Rightarrow> int \<Rightarrow> co_server" where
  "co_init go l = \<lparr>co_running = go, co_listen = l, co_accepting = go, co_sessions = []\<rparr>"

text \<open>\<open>run_thread\<close> up to \<open>io->run()\<close>; the constructor of the \<open>io_context\<close> may throw.\<close>

datatype co_start = CoNoSocket "int list" | CoThrows error_code | CoServing co_server

definition run_thread :: "'r liburing \<Rightarrow> bool \<Rightarrow> int \<Rightarrow> int \<Rightarrow> int \<Rightarrow> co_start" where
  "run_thread L go sock bnd lsn =
     (case listen_setup sock bnd lsn of
        Inl closed \<Rightarrow> CoNoSocket closed
      | Inr listen_fd \<Rightarrow>
          (case ring_ctor L 1024 :: error_code + ('r, unit) io_context of Inl e \<Rightarrow> CoThrows e | Inr c \<Rightarrow> CoServing (co_init go listen_fd)))"

definition co_inv :: "co_server \<Rightarrow> bool" where
  "co_inv s \<longleftrightarrow> sessions_ok (co_listen s) (co_sessions s)"

lemma unwind_moves: "session_ok k \<Longrightarrow> spc k \<in> {Receiving, Sending} \<Longrightarrow> session_moves k (unwind k)"
  by (auto simp: session_moves_def session_ok_def unwind_def)

lemma handle_session_moves: "handle_session await go e k = Some k' \<Longrightarrow> session_ok k \<Longrightarrow> session_moves k k'"
  by (cases e) (auto intro: session_recv_moves session_send_moves unwind_moves split: resumption.splits if_splits)

lemma co_step_cases:
  assumes "co_step await a s = Some t" and "co_inv s"
  shows "co_sessions t = co_sessions s \<or>
    (\<exists>c go. fresh_fd c (co_listen s) (co_sessions s) \<and> co_sessions t = co_sessions s @ [new_session go c]) \<or>
    (\<exists>i k'. i < length (co_sessions s) \<and> session_moves (co_sessions s ! i) k' \<and> co_sessions t = (co_sessions s)[i := k'])"
    and "co_listen t = co_listen s"
  using assms
  by (cases a; auto simp: co_inv_def sessions_ok_def list_all_length split: if_splits resumption.splits dest!: handle_session_moves)+

interpretation coroutines: echo_service "co_init go l" "co_step await" co_inv "bytes_in \<circ> co_sessions" "bytes_out \<circ> co_sessions"
  for go l await
proof unfold_locales
  show "co_inv (co_init go l)" by (simp add: co_inv_def co_init_def sessions_ok_def open_sessions_def)
  fix a s t c
  assume inv: "co_inv s"
  then show "prefix ((bytes_out \<circ> co_sessions) s c) ((bytes_in \<circ> co_sessions) s c)" by (simp add: co_inv_def sessions_echo)
  assume "co_step await a s = Some t"
  note step = co_step_cases [OF this inv]
  show "co_inv t"
    using step inv sessions_ok_new sessions_ok_update by (auto simp: co_inv_def)
  show "prefix ((bytes_in \<circ> co_sessions) s c) ((bytes_in \<circ> co_sessions) t c) \<and>
      prefix ((bytes_out \<circ> co_sessions) s c) ((bytes_out \<circ> co_sessions) t c)"
    using step bytes_update by (auto simp: bytes_new)
qed

text \<open>A session that has been left stays as it is.\<close>

lemma left_stays:
  assumes "exec (co_step await) as s = Some t" and "i < length (co_sessions s)" and "spc (co_sessions s ! i) = Unwound"
  shows "i < length (co_sessions t) \<and> co_sessions t ! i = co_sessions s ! i"
  using assms
proof (induction as arbitrary: s)
  case (Cons a as)
  then obtain u where u: "co_step await a s = Some u" "exec (co_step await) as u = Some t" by (auto split: option.splits)
  have "i < length (co_sessions u) \<and> co_sessions u ! i = co_sessions s ! i"
  proof (cases a)
    case (CoSession j e)
    have "handle_session await (co_running s) e (co_sessions s ! i) = None"
      using Cons.prems(3) by (cases e) (auto simp: session_recv_def session_send_def split: resumption.splits)
    then have "j \<noteq> i" using u(1) CoSession by (auto split: if_splits)
    then show ?thesis using u(1) CoSession Cons.prems(2) by (auto split: if_splits)
  qed (use u(1) Cons.prems(2) in \<open>auto simp: nth_append split: if_splits resumption.splits\<close>)
  then show ?case using Cons.IH [OF u(2)] Cons.prems(3) by simp
qed simp

lemma negative_unwinds: "awaits_values await \<Longrightarrow> res z < 0 \<Longrightarrow> await (make_io_callback z) = Unwinds"
  by (simp add: awaits_values_def make_io_callback_def)

lemma no_accept_stays:
  assumes "exec (co_step await) as s = Some t" and "\<not> co_accepting s"
  shows "\<not> co_accepting t \<and> map s_fd (co_sessions t) = map s_fd (co_sessions s)"
  using assms
proof (induction as arbitrary: s)
  case (Cons a as)
  then obtain u where u: "co_step await a s = Some u" "exec (co_step await) as u = Some t" by (auto split: option.splits)
  have "\<not> co_accepting u \<and> map s_fd (co_sessions u) = map s_fd (co_sessions s)"
  proof (cases a)
    case (CoSession i e)
    then obtain k where k: "i < length (co_sessions s)" "u = s\<lparr>co_sessions := (co_sessions s)[i := k]\<rparr>"
      "handle_session await (co_running s) e (co_sessions s ! i) = Some k" using u(1) by (auto split: if_splits)
    then have "s_fd k = s_fd (co_sessions s ! i)"
      by (cases e) (auto simp: session_recv_def session_send_def end_session_def loop_head_def unwind_def Let_def
          split: resumption.splits if_splits)
    then show ?thesis using k Cons.prems(2) by (simp add: map_update list_update_same_conv)
  qed (use u(1) Cons.prems(2) in auto)
  then show ?case using Cons.IH [OF u(2)] by simp
qed simp

section \<open>Properties\<close>

text \<open>
  The server with threads: what a client has got is a prefix of what it has sent, nothing is revoked, an idle
  session owes nothing; every session closes its own descriptor once, at its end, and no two open sessions share one.
\<close>

lemma thread_server_echoes:
  assumes "exec thread_step as (thread_init l) = Some s" and "exec thread_step bs s = Some t"
  shows "prefix (bytes_out (ts_sessions s) c) (bytes_out (ts_sessions t) c) \<and>
    (\<forall>k \<in> set (ts_sessions t). prefix (s_out k) (s_in k) \<and> (spc k = Receiving \<longrightarrow> s_in k = s_out k) \<and>
       closes k = (if spc k = Ended then 1 else 0)) \<and>
    distinct (open_sessions (ts_sessions t))"
proof -
  have "thread_inv t" using threads.grows_exec [OF threads.inv_reach [OF exec_reach [OF assms(1)]] assms(2)] by blast
  then show ?thesis
    using threads.echoes [OF assms] by (auto simp: thread_inv_def sessions_ok_def list_all_iff session_ok_def)
qed

text \<open>
  C31. The coroutine server: on every connection what has been sent is a prefix of what has been received, at the \<open>co_await\<close> of a
  \<open>recv\<close> everything has been sent back, and at that of a \<open>send\<close> the rest is in the buffer; nothing is ever revoked.
  A session that reaches its end closes its own descriptor, once; no two sessions share an open descriptor.
\<close>

theorem co_server_echoes:
  assumes "exec (co_step await) as (co_init go l) = Some s" and "exec (co_step await) bs s = Some t"
  shows "prefix (bytes_out (co_sessions s) c) (bytes_out (co_sessions t) c) \<and>
    (\<forall>k \<in> set (co_sessions t). prefix (s_out k) (s_in k) \<and> (spc k = Receiving \<longrightarrow> s_in k = s_out k) \<and>
       (spc k = Sending \<longrightarrow> bytes_sent k < bytes_to_send k \<and>
          s_in k = s_out k @ take (bytes_to_send k - bytes_sent k) (drop (bytes_sent k) (sbuf k))) \<and>
       closes k = (if spc k = Ended then 1 else 0)) \<and>
    distinct (open_sessions (co_sessions t))"
proof -
  have "co_inv t" using coroutines.grows_exec [OF coroutines.inv_reach [OF exec_reach [OF assms(1)]] assms(2)] by blast
  then show ?thesis
    using coroutines.echoes [OF assms] by (auto simp: co_inv_def sessions_ok_def list_all_iff session_ok_def)
qed

text \<open>A client that sends two bytes, of which the first \<open>send\<close> takes one.\<close>

definition task_await :: await where
  "task_await c = (case c of SetValue v \<Rightarrow> Resumed v | _ \<Rightarrow> Unwinds)"

lemma task_await_ok: "awaits_values task_await"
  by (simp add: awaits_values_def task_await_def)

definition two_bytes :: "co_action list" where
  "two_bytes = [CoAccept \<lparr>res = 7, res_flags = 0\<rparr>, CoSession 0 (CoRecv \<lparr>res = 2, res_flags = 0\<rparr> [65, 66]),
     CoSession 0 (CoSend \<lparr>res = 1, res_flags = 0\<rparr>)]"

lemmas session_eval = two_bytes_def co_init_def task_await_def make_io_callback_def ECANCELED_def fresh_fd_def open_sessions_def
  new_session_def loop_head_def end_session_def session_recv_def session_send_def unwind_def Let_def

theorem co_server_echoes_witness:
  "\<exists>t k. exec (co_step task_await) two_bytes (co_init True 3) = Some t \<and> co_sessions t = [k] \<and> s_out k = [65] \<and>
     prefix (s_out k) (s_in k)"
proof -
  obtain t k where t: "exec (co_step task_await) two_bytes (co_init True 3) = Some t" "co_sessions t = [k]" "s_out k = [65]"
    by (simp add: session_eval)
  have "exec (co_step task_await) [] (co_init True 3) = Some (co_init True 3)" by simp
  from co_server_echoes [OF this t(1)] t show ?thesis by auto
qed

text \<open>
  C32. Errors leak descriptors: if a \<open>recv\<close> or \<open>send\<close> of a session completes with an error, the awaiting coroutine is left at once,
  so that \<open>close(client_fd)\<close> after the loop is never reached, whatever happens later; the test \<open>recv_res.res <= 0\<close>
  sees only 0. The same holds for the accept loop: an error ends it for good.
\<close>

theorem co_errors_leak:
  assumes "awaits_values await" and "exec (co_step await) as (co_init go l) = Some s" and "res z < 0"
  shows "(\<forall>i e t u. (e = CoRecv z [] \<or> e = CoSend z) \<and> co_step await (CoSession i e) s = Some t \<and> exec (co_step await) bs t = Some u \<longrightarrow>
      spc (co_sessions u ! i) = Unwound \<and> closes (co_sessions u ! i) = 0 \<and> s_fd (co_sessions s ! i) \<in> set (open_sessions (co_sessions u))) \<and>
    (\<forall>t u. co_step await (CoAccept z) s = Some t \<and> exec (co_step await) bs t = Some u \<longrightarrow>
      \<not> co_accepting u \<and> map s_fd (co_sessions u) = map s_fd (co_sessions s))"
proof (intro conjI allI impI)
  fix i e t u
  assume a: "(e = CoRecv z [] \<or> e = CoSend z) \<and> co_step await (CoSession i e) s = Some t \<and> exec (co_step await) bs t = Some u"
  note unwinds = negative_unwinds [OF assms(1,3)]
  have i: "i < length (co_sessions s)" and t: "co_sessions t = (co_sessions s)[i := unwind (co_sessions s ! i)]"
    and pc: "spc (co_sessions s ! i) \<in> {Receiving, Sending}"
    using a unwinds by (auto split: if_splits)
  have "co_inv s" using coroutines.inv_reach [OF exec_reach [OF assms(2)]] .
  then have "closes (co_sessions s ! i) = 0" using i pc by (auto simp: co_inv_def sessions_ok_def list_all_length session_ok_def)
  moreover have u: "i < length (co_sessions u)" "co_sessions u ! i = unwind (co_sessions s ! i)"
    using left_stays [of await bs t u i] a i t by (auto simp: unwind_def)
  ultimately show "spc (co_sessions u ! i) = Unwound" "closes (co_sessions u ! i) = 0"
    and "s_fd (co_sessions s ! i) \<in> set (open_sessions (co_sessions u))"
    using nth_mem [OF u(1)] by (auto simp: unwind_def open_sessions_def intro!: rev_image_eqI [of "co_sessions u ! i"])
next
  fix t u
  assume a: "co_step await (CoAccept z) s = Some t \<and> exec (co_step await) bs t = Some u"
  then have t: "t = s\<lparr>co_accepting := False\<rparr>" using negative_unwinds [OF assms(1,3)] by (auto split: if_splits)
  then show "\<not> co_accepting u" "map s_fd (co_sessions u) = map s_fd (co_sessions s)"
    using no_accept_stays [of await bs t u] a by simp_all
qed

theorem co_errors_leak_witness:
  "\<exists>s t. exec (co_step task_await) two_bytes (co_init True 3) = Some s \<and>
     co_step task_await (CoSession 0 (CoSend \<lparr>res = - 104, res_flags = 0\<rparr>)) s = Some t \<and> 7 \<in> set (open_sessions (co_sessions t))"
proof -
  obtain s where s: "exec (co_step task_await) two_bytes (co_init True 3) = Some s" "s_fd (co_sessions s ! 0) = 7"
    "0 < length (co_sessions s)" "spc (co_sessions s ! 0) = Sending"
    by (simp add: session_eval)
  obtain t where t: "co_step task_await (CoSession 0 (CoSend \<lparr>res = - 104, res_flags = 0\<rparr>)) s = Some t"
    using s by (simp add: task_await_def make_io_callback_def ECANCELED_def)
  have "exec (co_step task_await) [] t = Some t" by simp
  moreover have "res \<lparr>res = - 104, res_flags = 0\<rparr> < 0" by simp
  ultimately have "s_fd (co_sessions s ! 0) \<in> set (open_sessions (co_sessions t))"
    using co_errors_leak [OF task_await_ok s(1)] t by blast
  then have "7 \<in> set (open_sessions (co_sessions t))" using s(2) by simp
  with s t show ?thesis by blast
qed

end
