(* ===== verification/Bench_Client.thy ===== *)
theory Bench_Client
  imports Echo_Contract
begin

text \<open>
  The load generator \<open>src/benchmarks/benchmark_client.cpp\<close>: the event loop of \<open>run_client_thread\<close> with its connections. The
  answers of the kernel are arguments, as in \<open>Epoll_Server\<close>; time is only the latency that is recorded.
\<close>

section \<open>State\<close>

datatype conn_state = CONNECTING | SENDING | RECEIVING

text \<open>\<open>ConnectionState\<close>; \<open>out_bytes\<close>, \<open>in_bytes\<close> and \<open>round_trips\<close> are logs.\<close>

record ConnectionState =
  cs_fd :: int
  cs_state :: conn_state
  cs_buffer :: "u8 list"
  write_offset :: nat
  read_offset :: nat
  out_bytes :: nat
  in_bytes :: nat
  round_trips :: nat

text \<open>A thread with its \<open>ThreadResult\<close>.\<close>

record load_thread =
  payload_size :: nat
  cconns :: "ConnectionState list"
  total_requests :: nat
  latencies_us :: "u32 list"

definition client_conn :: "nat \<Rightarrow> int \<Rightarrow> ConnectionState" where
  "client_conn payload fd =
     \<lparr>cs_fd = fd, cs_state = CONNECTING, cs_buffer = replicate payload 97, write_offset = 0, read_offset = 0,
      out_bytes = 0, in_bytes = 0, round_trips = 0\<rparr>"

definition load_init :: "nat \<Rightarrow> int list \<Rightarrow> load_thread" where
  "load_init payload fds = \<lparr>payload_size = payload, cconns = map (client_conn payload) fds, total_requests = 0, latencies_us = []\<rparr>"

section \<open>Operations\<close>

text \<open>The loop around \<open>send\<close>; both kinds of error leave it.\<close>

fun client_send_loop :: "nat \<Rightarrow> send_answer list \<Rightarrow> ConnectionState \<Rightarrow> ConnectionState option" where
  "client_send_loop payload [] c = (if write_offset c < payload then None else Some c)"
| "client_send_loop payload (SendBytes n # as) c =
     (if write_offset c < payload \<and> n \<le> payload - write_offset c
      then client_send_loop payload as (c\<lparr>write_offset := write_offset c + n, out_bytes := out_bytes c + n\<rparr>) else None)"
| "client_send_loop payload (_ # as) c = (if write_offset c < payload \<and> as = [] then Some c else None)"

definition sent_all :: "nat \<Rightarrow> ConnectionState \<Rightarrow> ConnectionState" where
  "sent_all payload c = (if write_offset c = payload then c\<lparr>cs_state := RECEIVING\<rparr> else c)"

text \<open>The loop around \<open>recv\<close>; the end of the stream leaves it too.\<close>

fun client_recv_loop :: "nat \<Rightarrow> recv_answer list \<Rightarrow> ConnectionState \<Rightarrow> ConnectionState option" where
  "client_recv_loop payload [] c = (if read_offset c < payload then None else Some c)"
| "client_recv_loop payload (RecvBytes xs # as) c =
     (if read_offset c < payload \<and> length xs \<le> payload - read_offset c
      then if xs = [] then (if as = [] then Some c else None)
           else client_recv_loop payload as
             (c\<lparr>cs_buffer := take (read_offset c) (cs_buffer c) @ xs @ drop (read_offset c + length xs) (cs_buffer c),
                read_offset := read_offset c + length xs, in_bytes := in_bytes c + length xs\<rparr>)
      else None)"
| "client_recv_loop payload (_ # as) c = (if read_offset c < payload \<and> as = [] then Some c else None)"

text \<open>
  The answers during one event: the value of \<open>SO_ERROR\<close> and the descriptor of a new attempt to connect, what \<open>send\<close> and \<open>recv\<close>
  return, and the latency that is measured.
\<close>

record event_answers =
  so_error :: int
  retry_fd :: int
  sends :: "send_answer list"
  recvs :: "recv_answer list"
  resends :: "send_answer list"
  latency :: u32

definition client_connecting :: "event_answers \<Rightarrow> ConnectionState \<Rightarrow> ConnectionState" where
  "client_connecting z c =
     (if cs_state c = CONNECTING
      then (if so_error z = 0 then c\<lparr>cs_state := SENDING\<rparr> else c\<lparr>cs_fd := retry_fd z\<rparr>)
      else c)"

definition client_writable :: "nat \<Rightarrow> bool \<Rightarrow> event_answers \<Rightarrow> ConnectionState \<Rightarrow> ConnectionState option" where
  "client_writable payload epollout z c =
     (if epollout \<and> cs_state c = SENDING then map_option (sent_all payload) (client_send_loop payload (sends z) c) else Some c)"

text \<open>The flag says whether a request has been completed.\<close>

definition client_readable :: "nat \<Rightarrow> bool \<Rightarrow> event_answers \<Rightarrow> ConnectionState \<Rightarrow> (bool \<times> ConnectionState) option" where
  "client_readable payload epollin z c =
     (if epollin \<and> cs_state c = RECEIVING
      then
        (case client_recv_loop payload (recvs z) c of
           None \<Rightarrow> None
         | Some c \<Rightarrow>
             if read_offset c = payload
             then map_option (\<lambda>c. (True, sent_all payload c))
               (client_send_loop payload (resends z)
                 (c\<lparr>cs_state := SENDING, read_offset := 0, write_offset := 0, round_trips := round_trips c + 1\<rparr>))
             else Some (False, c))
      else Some (False, c))"

datatype load_action = ClientEvent nat bool bool event_answers   \<comment> \<open>connection, \<open>EPOLLIN\<close>, \<open>EPOLLOUT\<close>, answers\<close>

fun load_step :: "load_action \<Rightarrow> load_thread \<Rightarrow> load_thread option" where
  "load_step (ClientEvent i epollin epollout z) s =
     (if i < length (cconns s)
      then
        (case client_writable (payload_size s) epollout z (client_connecting z (cconns s ! i)) of
           None \<Rightarrow> None
         | Some c \<Rightarrow>
             (case client_readable (payload_size s) epollin z c of
                None \<Rightarrow> None
              | Some (counted, c) \<Rightarrow>
                  Some (s\<lparr>cconns := (cconns s)[i := c],
                    total_requests := total_requests s + (if counted then 1 else 0),
                    latencies_us := latencies_us s @ (if counted then [latency z] else [])\<rparr>)))
      else None)"

section \<open>Invariant\<close>

text \<open>The bytes of a connection are those of its round trips and of the request in progress.\<close>

definition conn_ok :: "nat \<Rightarrow> ConnectionState \<Rightarrow> bool" where
  "conn_ok payload c \<longleftrightarrow> out_bytes c = payload * round_trips c + write_offset c \<and> in_bytes c = payload * round_trips c + read_offset c \<and>
     write_offset c \<le> payload \<and> read_offset c \<le> payload \<and> length (cs_buffer c) = payload \<and>
     (cs_state c = CONNECTING \<longrightarrow> write_offset c = 0 \<and> read_offset c = 0) \<and>
     (cs_state c = SENDING \<longrightarrow> read_offset c = 0) \<and> (cs_state c = RECEIVING \<longrightarrow> write_offset c = payload)"

lemma client_send_loop_ok:
  "client_send_loop payload as c = Some c' \<Longrightarrow> conn_ok payload c \<Longrightarrow> cs_state c = SENDING \<Longrightarrow>
    conn_ok payload c' \<and> cs_state c' = SENDING \<and> round_trips c' = round_trips c"
  by (induction payload as c rule: client_send_loop.induct) (auto simp: conn_ok_def split: if_splits)

lemma sent_all_ok:
  "conn_ok payload c \<Longrightarrow> cs_state c = SENDING \<Longrightarrow> conn_ok payload (sent_all payload c) \<and> round_trips (sent_all payload c) = round_trips c"
  by (auto simp: sent_all_def conn_ok_def)

lemma client_recv_loop_ok:
  "client_recv_loop payload as c = Some c' \<Longrightarrow> conn_ok payload c \<Longrightarrow> cs_state c = RECEIVING \<Longrightarrow>
    conn_ok payload c' \<and> cs_state c' = RECEIVING \<and> round_trips c' = round_trips c"
  by (induction payload as c rule: client_recv_loop.induct) (auto simp: conn_ok_def split: if_splits)

lemma client_connecting_ok: "conn_ok payload c \<Longrightarrow> conn_ok payload (client_connecting z c) \<and> round_trips (client_connecting z c) = round_trips c"
  by (auto simp: client_connecting_def conn_ok_def)

lemma client_writable_ok:
  "client_writable payload e z c = Some c' \<Longrightarrow> conn_ok payload c \<Longrightarrow> conn_ok payload c' \<and> round_trips c' = round_trips c"
  using client_send_loop_ok [of payload "sends z" c] sent_all_ok by (auto simp: client_writable_def split: if_splits)

lemma client_readable_ok:
  assumes "client_readable payload e z c = Some (counted, c')" and "conn_ok payload c"
  shows "conn_ok payload c' \<and> round_trips c' = round_trips c + (if counted then 1 else 0)"
proof (cases "e \<and> cs_state c = RECEIVING")
  case True
  then obtain d where d: "client_recv_loop payload (recvs z) c = Some d" using assms(1) by (auto simp: client_readable_def split: option.splits)
  have ok: "conn_ok payload d" "cs_state d = RECEIVING" "round_trips d = round_trips c" using client_recv_loop_ok [OF d assms(2)] True by auto
  show ?thesis
  proof (cases "read_offset d = payload")
    case full: True
    let ?d = "d\<lparr>cs_state := SENDING, read_offset := 0, write_offset := 0, round_trips := round_trips d + 1\<rparr>"
    obtain f where f: "client_send_loop payload (resends z) ?d = Some f" "counted" "c' = sent_all payload f"
      using assms(1) True d full by (auto simp: client_readable_def)
    have "conn_ok payload ?d" using ok full by (simp add: conn_ok_def)
    then show ?thesis using client_send_loop_ok [OF f(1)] sent_all_ok [of payload f] f ok(3) by simp
  next
    case False
    then show ?thesis using assms(1) True d ok by (auto simp: client_readable_def)
  qed
next
  case False
  then show ?thesis using assms by (auto simp: client_readable_def)
qed

definition load_inv :: "load_thread \<Rightarrow> bool" where
  "load_inv s \<longleftrightarrow> list_all (conn_ok (payload_size s)) (cconns s) \<and>
     total_requests s = sum_list (map round_trips (cconns s)) \<and> length (latencies_us s) = total_requests s"

interpretation load: invariant_system "load_init payload fds" load_step load_inv for payload fds
proof unfold_locales
  show "load_inv (load_init payload fds)"
    by (auto simp: load_inv_def load_init_def client_conn_def conn_ok_def list_all_iff comp_def)
  fix a s t
  assume inv: "load_inv s" and step: "load_step a s = Some t"
  obtain i epollin epollout z where a: "a = ClientEvent i epollin epollout z" by (cases a)
  let ?P = "payload_size s"
  obtain c d counted where i: "i < length (cconns s)" and c: "client_writable ?P epollout z (client_connecting z (cconns s ! i)) = Some c"
    and d: "client_readable ?P epollin z c = Some (counted, d)"
    and t: "t = s\<lparr>cconns := (cconns s)[i := d], total_requests := total_requests s + (if counted then 1 else 0),
        latencies_us := latencies_us s @ (if counted then [latency z] else [])\<rparr>"
    using step unfolding a by (auto simp del: append_Nil2 split: if_splits option.splits prod.splits)
  have "conn_ok ?P (cconns s ! i)" using inv i by (simp add: load_inv_def list_all_length)
  then have "conn_ok ?P d \<and> round_trips d = round_trips (cconns s ! i) + (if counted then 1 else 0)"
    using client_connecting_ok client_writable_ok [OF c] client_readable_ok [OF d] by fastforce
  moreover have "sum_list (map round_trips ((cconns s)[i := d])) + round_trips (cconns s ! i)
      = sum_list (map round_trips (cconns s)) + round_trips d"
    by (rule sum_list_map_update [OF i])
  ultimately show "load_inv t"
    using inv by (auto simp: load_inv_def t list_all_length nth_update_cases)
qed

lemma payload_exec: "exec load_step as s = Some t \<Longrightarrow> payload_size t = payload_size s"
proof (induction as arbitrary: s)
  case (Cons a as)
  then obtain u where u: "load_step a s = Some u" "exec load_step as u = Some t" by (auto split: option.splits)
  have "payload_size u = payload_size s" using u(1) by (cases a) (auto split: if_splits option.splits prod.splits)
  with Cons.IH [OF u(2)] show ?case by simp
qed simp

section \<open>Properties\<close>

text \<open>
  C34. The counters of the load generator are right: in every execution, each connection has sent and received exactly the
  bytes of its completed requests and of the one in progress, it never receives before it has sent its payload, and the number of requests
  and of latencies of the thread is the number of full round trips of its connections.
\<close>

theorem client_counts_round_trips:
  assumes "exec load_step as (load_init payload fds) = Some s"
  shows "payload_size s = payload \<and>
    (\<forall>c \<in> set (cconns s). out_bytes c = payload * round_trips c + write_offset c \<and>
       in_bytes c = payload * round_trips c + read_offset c \<and> write_offset c \<le> payload \<and> read_offset c \<le> payload \<and>
       (0 < read_offset c \<longrightarrow> write_offset c = payload)) \<and>
    total_requests s = sum_list (map round_trips (cconns s)) \<and> length (latencies_us s) = total_requests s"
proof -
  have P: "payload_size s = payload" using payload_exec [OF assms] by (simp add: load_init_def)
  have inv: "load_inv s" using load.inv_reach [OF exec_reach [OF assms]] .
  then have ok: "conn_ok payload c" if "c \<in> set (cconns s)" for c using that P by (simp add: load_inv_def list_all_iff)
  have "out_bytes c = payload * round_trips c + write_offset c \<and> in_bytes c = payload * round_trips c + read_offset c \<and>
      write_offset c \<le> payload \<and> read_offset c \<le> payload \<and> (0 < read_offset c \<longrightarrow> write_offset c = payload)"
    if "c \<in> set (cconns s)" for c
    using ok [OF that] by (cases "cs_state c") (simp_all add: conn_ok_def)
  then show ?thesis using inv P unfolding load_inv_def by blast
qed

theorem client_counts_round_trips_witness:
  "\<exists>s. exec load_step
      [ClientEvent 0 False True \<lparr>so_error = 0, retry_fd = 0, sends = [SendBytes 2], recvs = [], resends = [], latency = 0\<rparr>,
       ClientEvent 0 True False \<lparr>so_error = 0, retry_fd = 0, sends = [], recvs = [RecvBytes [97], RecvBytes [97]],
         resends = [SendBytes 1, SendAgain], latency = 40\<rparr>] (load_init 2 [5]) = Some s \<and>
     total_requests s = 1 \<and> length (latencies_us s) = total_requests s"
proof -
  obtain s where s: "exec load_step
      [ClientEvent 0 False True \<lparr>so_error = 0, retry_fd = 0, sends = [SendBytes 2], recvs = [], resends = [], latency = 0\<rparr>,
       ClientEvent 0 True False \<lparr>so_error = 0, retry_fd = 0, sends = [], recvs = [RecvBytes [97], RecvBytes [97]],
         resends = [SendBytes 1, SendAgain], latency = 40\<rparr>] (load_init 2 [5]) = Some s" "total_requests s = 1"
    by (simp add: load_init_def client_conn_def client_connecting_def client_writable_def client_readable_def sent_all_def numeral_eq_Suc)
  from client_counts_round_trips [OF s(1)] s show ?thesis by blast
qed

end
