(* ===== verification/Spec2Isabelle.thy ===== *)
theory Spec2Isabelle
  imports Deque_TSO Stop_Helper_TSO Pool_Types Pool_Help Pool_Shutdown Scheduler Echo_Main Bench_Server Epoll_Server Session_Servers Bench_Client
begin

text \<open>
  A verification of the asynchronous runtime: a work-stealing thread pool and an event loop over
  \<open>io_uring\<close>, both behind the sender interface of \<open>std::execution\<close>.

  \<^bold>\<open>The program.\<close> \<open>runtime\<close> owns a \<open>thread_pool\<close> and an \<open>io_context\<close>. Threads and tasks give work to
  the pool through \<open>enqueue\<close>, or through \<open>schedule()\<close> of its scheduler. Each worker
  takes tasks from its own deque, then from the global queue, then from the deques of the others,
  spins, and finally sleeps on a condition variable. The \<open>io_context\<close> turns the senders
  \<open>async_read\<close>, \<open>async_write\<close>, \<open>async_accept\<close>, \<open>async_recv\<close>, \<open>async_send\<close> and the two fixed-buffer
  ones into entries of a submission ring, with a callback on the heap as user data; \<open>run\<close> consumes
  the completions, invokes the callbacks and deletes them. \<open>stop_helper\<close> connects an operation
  with the stop token of its receiver. The echo server and three of the benchmark
  servers are programs on top; two more servers and a load generator, for comparison, use system calls only.

  \<^bold>\<open>Theories and sources.\<close>

  \<^item> \<open>Prelude\<close>: reachable states and executions of a step function, the locales
    \<open>invariant_system\<close> for inductive invariants, \<open>simulation\<close> and its special case \<open>refinement\<close>, memory orders, and lemmas on
    lists, ranges and words.
    \<open>Containers\<close>: the contracts of task containers (first-in first-out, last-in first-out) as
    locales, interpreted on the deque and on the global queue.
  \<^item> \<open>Work_Stealing_Deque\<close> (\<open>src/src/thread_pool.cpp\<close>, \<open>circular_array\<close> and \<open>work_stealing_deque\<close>): the
    operations run without interference. They act as list operations, growing keeps the
    tasks, and the destructor deletes what is stored.
  \<^item> \<open>Deque_Concurrent\<close>: the same operations with one step per atomic access, for one owner and any number
    of thieves. The machine refines an atomic list, conserves tasks, and stays
    inside its buffers and inside \<open>std::int64_t\<close>; calls are bounded, and uninterrupted
    calls agree with the sequential operations. \<open>Deque_TSO\<close>: the same machine with a store buffer for the
    owner. It refines the one without, and the sequentially consistent store of \<open>pop\<close> is needed for that.
  \<^item> \<open>Global_Queue\<close> (\<open>global_task_queue\<close>) and \<open>Steal_Order\<close> (\<open>steal_from_others\<close>): first-in first-out
    order; the generator permutes the 32-bit values, and a round of stealing
    looks at every other worker.
  \<^item> \<open>Thread_Pool\<close> (\<open>thread_pool::impl\<close>): workers, tasks, threads outside and the destructor as one
    machine, with the invariants on sizes and on the mutex. \<open>Pool_Tasks\<close>: conservation of
    tasks. \<open>Pool_Sleep\<close>: the invariants of the sleeping protocol and of the destructor.
    \<open>Pool_Properties\<close>: no lost wake-up, mutual exclusion, termination and outcome of the
    destructor. \<open>Pool_Types\<close>: sizes, index ranges and generator states.
  \<^item> \<open>Pool_Fine\<close>: the same pool with the deques of \<open>Deque_Concurrent\<close>, one step per access of a worker to a
    deque. The machine of \<open>Thread_Pool\<close> simulates it, so that conservation of tasks and the absence of lost wake-ups carry over.
    \<open>Pool_Wait\<close>: \<open>wait\<close> as a thread of that machine, one step per load of its scan. \<open>Pool_Help\<close>: the tasks that a running task
    enqueues find another worker, even if that task never returns. \<open>Pool_Shutdown\<close>: the
    accesses after the notification of the destructor are bounded, and what is left afterwards.
  \<^item> \<open>Scheduler\<close> (\<open>include/async_runtime/scheduler.hpp\<close> and \<open>enqueue\<close>): \<open>schedule\<close>, \<open>connect\<close> and \<open>start\<close> over
    several pools; they are runs of the pool machine, except across pools.
  \<^item> \<open>IO_Context\<close> (\<open>src/src/io_uring_ctx.cpp\<close>): the ring, the submission functions, \<open>stop\<close> and the
    registration of buffers, and the destructor. \<open>IO_Run\<close>: \<open>run\<close> interleaved with the kernel and with threads and
    callbacks that submit. \<open>IO_Properties\<close>: memory safety of callbacks,
    exactly one invocation each, with the right result, and the effect of \<open>stop\<close>.
  \<^item> \<open>Io_Callback\<close> and \<open>Stop_Helper\<close> (\<open>detail\<close> of \<open>include/async_runtime/io_context.hpp\<close>): the
    signal for a result, and cancellation with one step per atomic access.
    No stop is lost, one signal at most, and when the operation state is safe. \<open>Stop_Helper_TSO\<close>: the
    same with store buffers and the orders of the source, under which a stop can be lost, and
    which orders prevent that.
  \<^item> \<open>Senders\<close>: the seven senders, with what they have in common as the locale \<open>io_sender\<close>, which is
    interpreted on each.
  \<^item> \<open>Echo_Server\<close> (\<open>src/examples/echo_server.cpp\<close>): the handlers as callbacks of the machine of \<open>IO_Run\<close>.
    \<open>Echo_Main\<close>: its \<open>main\<close> with the I/O thread, \<open>stop\<close>, the join and the destructors, over the machine of \<open>Runtime\<close>.
  \<^item> \<open>Runtime\<close> (\<open>src/src/runtime.cpp\<close>): the composition of both machines.
  \<^item> \<open>Buffer_Pool\<close> and \<open>Bench_Server\<close> (\<open>src/benchmarks/server_async_engine_fixed.cpp\<close> and
    \<open>server_async_engine.cpp\<close>): the pool of registered buffers, connections and their loops, with the bytes
    in memory. What a client sends comes back exactly, buffers are never shared, and descriptors are
    closed once.
    \<open>Echo_Contract\<close>: what the programs of \<open>src/benchmarks\<close> share, with the contract of an echo server as the locale \<open>echo_service\<close>, which is
    interpreted on each server.
  \<^item> \<open>Epoll_Server\<close> (\<open>server_epoll.cpp\<close>): the reactor with its edge-triggered connections. \<open>Session_Servers\<close>
    (\<open>server_thread_per_connection.cpp\<close> and \<open>server_coroutine.cpp\<close>): the loop of a session, run by threads and by coroutines. All of
    them echo exactly; what their error paths leave open. \<open>Bench_Client\<close> (\<open>benchmark_client.cpp\<close>): the event loop of
    the load generator, whose counters are the round trips.
  \<^item> This theory: from the start of an operation to the signal of its receiver.

  \<^bold>\<open>Conventions.\<close> A machine is a function from an action and a state to the next state, or \<open>None\<close> if
  the action is not possible now; an execution is a list of actions. Nondeterminism is in the
  actions: which thread moves, which sleeper is notified, whether the exchange of a steal
  is lost, whether \<open>empty\<close> answers wrongly, the address \<open>new\<close> returns, what the kernel completes with which result. Logs
  (\<open>submitted\<close>, \<open>finished\<close>, \<open>submissions\<close>, \<open>deliveries\<close>, \<open>posted\<close>, \<open>origins\<close>, \<open>seen\<close>, \<open>requests\<close>,
  \<open>cancels\<close>, \<open>signals\<close>, \<open>bad_access\<close>, \<open>accepted\<close>, \<open>closed\<close>, \<open>inb\<close>, \<open>outb\<close>, and those named
  in the theories of the other servers and of the load generator) do not influence the steps. There is no fuel: recursive
  functions terminate, and loops that depend on other threads are steps of a machine, with
  explicit bounds on their number (\<open>shutdown_rank\<close>, \<open>fine_rank\<close>, \<open>run_rank\<close>, the ranks of the deque calls).

  \<^bold>\<open>Integers.\<close> The generator, the flags, the offsets and the buffer sizes are words of their width. The
  indices of the deque are integers; \<open>deque_indices_int64\<close> shows when they fit, for fewer than
  \<open>2^60\<close> pushes. Results of the kernel are integers.

  \<^bold>\<open>Atomicity and memory order.\<close> Accesses are sequentially consistent, except in \<open>Deque_TSO\<close> and
  \<open>Stop_Helper_TSO\<close>, where a store with order \<open>release\<close> or \<open>relaxed\<close> stays in the buffer of its thread until
  some later step and a \<open>seq_cst\<close> store waits for the buffer to be empty, as on x86. Reorderings of
  weaker processors are not modelled. In \<open>Thread_Pool\<close> an operation of a deque is
  one step, where a steal may be lost and \<open>empty\<close> may give a wrong answer; \<open>Pool_Fine\<close> shows that this covers the
  interleavings of the single accesses, and the wake-up after a push to
  the global queue does not rest on the relaxed load alone, since the sleeper and
  the pusher both lock the mutex of that queue. After a push to a
  deque the \<open>seq_cst\<close> store of \<open>bottom_\<close> orders that relaxed load on x86; the C++ memory model alone does not. A submission function holds the submission
  mutex and is one step; \<open>stop\<close>, which clears \<open>running\<close> before it locks, is two. The handlers of a benchmark
  server run in one thread, each without interruption.

  \<^bold>\<open>Parameters.\<close> \<open>liburing\<close> and the kernel are the record \<open>liburing\<close> of functions, with the documented
  behaviour as the hypothesis \<open>liburing_ok\<close>; the ring of lists \<open>list_liburing\<close>
  satisfies it. The system calls of the servers without the runtime answer through arguments of the
  handlers; answers that a kernel does not give (more bytes than asked for, a descriptor in use) are refused. \<open>co_await\<close> of the task
  type of \<open>stdexec\<close> is the function \<open>await\<close>, with the hypothesis \<open>awaits_values\<close>: a value resumes, an error or a stop leaves the coroutine. Callbacks of the application are values with a parameter \<open>invoke\<close>
  for the calls they make. The results of the system calls of \<open>make_listen_socket\<close> are its arguments. The address of new memory
  and the bytes that arrive are in the actions. The stop
  token is modelled by what the C++ library says of \<open>stop_requested\<close>, of registration and of
  the destructor of a stop callback.

  \<^bold>\<open>Not modelled.\<close> Exceptions of tasks and of allocation; the contents of buffers apart from the benchmark
  servers; time, so that the sleep of \<open>main\<close> is only a step and a latency an argument; \<open>sender.hpp\<close>, which has only aliases and
  concepts; the adaptors of \<open>stdexec\<close>, of which only the rule that \<open>then\<close> runs its function for a value is
  used; \<open>start\<close> and \<open>stop\<close> of the coroutine server, whose \<open>main\<close> never stops it; the options and the statistics
  of the load generator; the tests, which are runs of the library with assertions.
\<close>

section \<open>An operation from start to completion\<close>

text \<open>
  The signals the receivers have got, with the requests they belong to: \<open>run\<close> invokes the callback
  that \<open>make_io_callback\<close> has made for the receiver.
\<close>

definition receiver_signals :: "('r, 'rcv) io_machine \<Rightarrow> ('rcv \<times> sqe_op \<times> completion) list" where
  "receiver_signals m = map (\<lambda>(r, req, z). (r, req, make_io_callback z)) (deliveries m)"

text \<open>
  C13. Every operation that is started completes at most once, and with the signal for its own
  result. The started operations are those signalled and those still outstanding; the
  signals come in the order of the completions of the kernel, and the signal of an operation is
  a value, an error or \<open>stopped\<close> according to the code that the kernel posted for its request;
  a value is never negative.
\<close>

theorem operations_complete:
  assumes "liburing_ok L sq kern" and "ring_ctor L depth = Inr c"
    and "exec (io_step L invoke) as (io_init c) = Some m"
  shows "mset (submissions m) = mset (map (\<lambda>(r, req, s). (r, req)) (receiver_signals m))
      + image_mset (\<lambda>a. (the (heap (ctx m) a), requests m a)) (outstanding L sq kern m) \<and>
    map (\<lambda>(r, req, s). (req, s)) (receiver_signals m)
      = map (\<lambda>(s, e). (sqe_request s, make_io_callback (result_of e)))
          (filter (\<lambda>(s, e). cqe_data e \<noteq> 0) (zip (take (length (seen m)) (origins m)) (seen m))) \<and>
    (\<forall>r req v. (r, req, SetValue v) \<in> set (receiver_signals m) \<longrightarrow> 0 \<le> res v)"
proof -
  have inv: "io_inv L sq kern m" and org: "origin_inv sq kern m" using io_ok_exec [OF assms] .
  let ?pairs = "map (\<lambda>(r, req, z). (req, z)) (deliveries m)"
  have "map (\<lambda>(r, req, s). (req, s)) (receiver_signals m) = map (\<lambda>(req, z). (req, make_io_callback z)) ?pairs"
    by (simp add: receiver_signals_def comp_def split_def)
  also have "\<dots> = map (\<lambda>(s, e). (sqe_request s, make_io_callback (result_of e)))
      (filter (\<lambda>(s, e). cqe_data e \<noteq> 0) (zip (take (length (seen m)) (origins m)) (seen m)))"
    unfolding deliveries_match [OF inv org] by (simp add: comp_def split_def)
  finally show ?thesis
    using inv by (auto simp: io_inv_def receiver_signals_def comp_def split_def dest!: make_io_callback_value)
qed

theorem operations_complete_witness:
  "exec (io_step list_liburing (\<lambda>cb z. [])) demo_run (io_init demo_ctx) = Some demo_end \<and>
   receiver_signals demo_end = [(7, PrepRead 3 64 16 0, SetValue \<lparr>res = 16, res_flags = 0\<rparr>)] \<and>
   map (\<lambda>(r, req, s). (req, s)) (receiver_signals demo_end)
     = map (\<lambda>(s, e). (sqe_request s, make_io_callback (result_of e)))
         (filter (\<lambda>(s, e). cqe_data e \<noteq> 0) (zip (take (length (seen demo_end)) (origins demo_end)) (seen demo_end)))"
proof (intro conjI)
  show "exec (io_step list_liburing (\<lambda>cb z. [])) demo_run (io_init demo_ctx) = Some demo_end" by (rule demo_exec)
  show "receiver_signals demo_end = [(7, PrepRead 3 64 16 0, SetValue \<lparr>res = 16, res_flags = 0\<rparr>)]"
    by (simp add: receiver_signals_def make_io_callback_def ECANCELED_def)
  show "map (\<lambda>(r, req, s). (req, s)) (receiver_signals demo_end)
     = map (\<lambda>(s, e). (sqe_request s, make_io_callback (result_of e)))
         (filter (\<lambda>(s, e). cqe_data e \<noteq> 0) (zip (take (length (seen demo_end)) (origins demo_end)) (seen demo_end)))"
    using operations_complete [OF list_liburing_ok demo_ctor demo_exec] by blast
qed

end
